(* ===== verification/Prelude.thy ===== *)
theory Prelude
  imports Main "HOL-Library.AList" "HOL-Library.Multiset"
begin

text \<open>
  Shared ground of the development: the outcome of a Go call (value, returned error or
  panic), Go maps as association lists, the functions of Go's package \<open>strings\<close> that
  the simulator calls, and the generic lemmas the components use.  Strings are byte
  sequences, as in Go.

  A Go map is an association list with pairwise distinct keys.  The list order stands for the
  order one \<open>range\<close> loop over the map happens to visit, which Go leaves open; what is
  proved about such loops therefore holds for every order.
\<close>

named_theorems go_simps \<open>unfolding rules for the Go library functions\<close>
named_theorems outcome_splits \<open>case splits for call outcomes\<close>

section \<open>Outcomes of Go calls\<close>

type_synonym go_error = string

datatype 'a outcome = Ok 'a | Err go_error | Panic string

definition is_ok :: "'a outcome \<Rightarrow> bool" where
  "is_ok r = (case r of Ok _ \<Rightarrow> True | _ \<Rightarrow> False)"

definition panics :: "'a outcome \<Rightarrow> bool" where
  "panics r = (case r of Panic _ \<Rightarrow> True | _ \<Rightarrow> False)"

definition wrap_err :: "string \<Rightarrow> 'a outcome \<Rightarrow> 'a outcome" where
  "wrap_err pre r = (case r of Err e \<Rightarrow> Err (pre @ e) | _ \<Rightarrow> r)"

fun bind_outcome :: "'a outcome \<Rightarrow> ('a \<Rightarrow> 'b outcome) \<Rightarrow> 'b outcome" where
  "bind_outcome (Ok x) f = f x"
| "bind_outcome (Err e) f = Err e"
| "bind_outcome (Panic p) f = Panic p"

section \<open>Go maps\<close>

type_synonym ('k, 'v) gomap = "('k \<times> 'v) list"

abbreviation gomap_wf :: "('k, 'v) gomap \<Rightarrow> bool" where
  "gomap_wf m \<equiv> distinct (map fst m)"

section \<open>Package strings\<close>

definition HasPrefix :: "string \<Rightarrow> string \<Rightarrow> bool" where
  "HasPrefix s p = (take (length p) s = p)"

fun Contains :: "string \<Rightarrow> string \<Rightarrow> bool" where
  "Contains [] p = (p = [])"
| "Contains (c # cs) p = (HasPrefix (c # cs) p \<or> Contains cs p)"

text \<open>\<open>strings.Split(s, sep)\<close> for a separator of one byte.\<close>

fun Split :: "char \<Rightarrow> string \<Rightarrow> string list" where
  "Split sep [] = [[]]"
| "Split sep (c # cs) =
     (if c = sep then [] # Split sep cs
      else (case Split sep cs of [] \<Rightarrow> [[c]] | w # ws \<Rightarrow> (c # w) # ws))"

text \<open>\<open>strings.Join(ws, sep)\<close>.\<close>

fun Join :: "string \<Rightarrow> string list \<Rightarrow> string" where
  "Join sep [] = []"
| "Join sep [w] = w"
| "Join sep (w # v # ws) = w @ sep @ Join sep (v # ws)"

text \<open>\<open>strings.Trim(s, cutset)\<close> for a cutset of one byte.\<close>

definition Trim :: "char \<Rightarrow> string \<Rightarrow> string" where
  "Trim c s = rev (dropWhile (\<lambda>x. x = c) (rev (dropWhile (\<lambda>x. x = c) s)))"

text \<open>\<open>strings.Index(s, c)\<close> for one byte; \<open>-1\<close> when absent.\<close>

fun Index :: "string \<Rightarrow> char \<Rightarrow> int" where
  "Index [] c = -1"
| "Index (x # xs) c = (if x = c then 0 else (let k = Index xs c in if k < 0 then -1 else k + 1))"

text \<open>
  \<open>strings.Replace(s, old, new, -1)\<close>: non-overlapping occurrences from the left.  The
  simulator never passes an empty \<open>old\<close>; the guard keeps the recursion total there.
\<close>

function Replace :: "string \<Rightarrow> string \<Rightarrow> string \<Rightarrow> string" where
  "Replace old new [] = []"
| "Replace old new (c # cs) =
     (if old \<noteq> [] \<and> HasPrefix (c # cs) old
      then new @ Replace old new (drop (length old) (c # cs))
      else c # Replace old new cs)"
  by pat_completeness auto
termination
  by (relation "measure (\<lambda>(old, new, s). length s)") auto

text \<open>
  \<open>strings.EqualFold(s, t)\<close> against an ASCII \<open>t\<close>: ASCII letters fold to lower
  case, and the two non-ASCII code points that fold to an ASCII letter (U+017F to \<open>s\<close>,
  U+212A to \<open>k\<close>) are read from their UTF-8 bytes.
\<close>

definition lower_char :: "char \<Rightarrow> char" where
  "lower_char c =
     (if 65 \<le> (of_char c :: nat) \<and> (of_char c :: nat) \<le> 90
      then char_of ((of_char c :: nat) + 32) else c)"

fun fold_case :: "string \<Rightarrow> string" where
  "fold_case [] = []"
| "fold_case (c # cs) =
     (case cs of
        d # ds \<Rightarrow>
          if c = CHR 0xC5 \<and> d = CHR 0xBF then CHR ''s'' # fold_case ds
          else (case ds of
                  e # es \<Rightarrow>
                    if c = CHR 0xE2 \<and> d = CHR 0x84 \<and> e = CHR 0xAA
                    then CHR ''k'' # fold_case es
                    else lower_char c # fold_case cs
                | [] \<Rightarrow> lower_char c # fold_case cs)
      | [] \<Rightarrow> [lower_char c])"

definition EqualFold :: "string \<Rightarrow> string \<Rightarrow> bool" where
  "EqualFold s t = (fold_case s = fold_case t)"

text \<open>\<open>%d\<close> of a non-negative integer.\<close>

fun nat_digits :: "nat \<Rightarrow> string" where
  "nat_digits n =
     (if n < 10 then [char_of (48 + n)] else nat_digits (n div 10) @ [char_of (48 + n mod 10)])"

declare nat_digits.simps [simp del]

section \<open>Lemmas on outcomes\<close>

lemma is_ok_simps [simp]: "is_ok (Ok x)" "\<not> is_ok (Err e)" "\<not> is_ok (Panic p)"
  by (simp_all add: is_ok_def)

lemma panics_simps [simp]: "\<not> panics (Ok x)" "\<not> panics (Err e)" "panics (Panic p)"
  by (simp_all add: panics_def)

lemma wrap_err_simps [simp]:
  "wrap_err s (Ok x) = Ok x" "wrap_err s (Err e) = Err (s @ e)" "wrap_err s (Panic p) = Panic p"
  by (simp_all add: wrap_err_def)

lemma bind_outcome_Ok_iff [simp]:
  "(bind_outcome r f = Ok y) = (\<exists>x. r = Ok x \<and> f x = Ok y)"
  by (cases r) auto

lemmas outcome_split_rules [outcome_splits] = outcome.splits

section \<open>Lemmas on Go maps\<close>

lemma map_of_update [simp]: "map_of (AList.update k v m) = (map_of m)(k \<mapsto> v)"
  by (rule AList.update_conv')

lemma map_of_delete [simp]: "map_of (AList.delete k m) = (map_of m)(k := None)"
  by (rule AList.delete_conv')

lemma gomap_wf_update [simp, intro]: "gomap_wf m \<Longrightarrow> gomap_wf (AList.update k v m)"
  by (rule AList.distinct_update)

lemma gomap_wf_delete [simp, intro]: "gomap_wf m \<Longrightarrow> gomap_wf (AList.delete k m)"
  by (rule AList.distinct_delete)

lemma gomap_wf_map_snd [simp]: "gomap_wf (map (\<lambda>(k, v). (k, f v)) m) = gomap_wf m"
  by (simp add: case_prod_unfold comp_def)

lemma map_of_map_snd [simp]:
  "map_of (map (\<lambda>(k, v). (k, f v)) m) k = map_option f (map_of m k)"
  by (induction m) auto

lemma gomap_values_ran: "gomap_wf m \<Longrightarrow> set (map snd m) = ran (map_of m)"
  by (simp add: ran_distinct)

lemma gomap_in_set: "gomap_wf m \<Longrightarrow> (k, v) \<in> set m \<longleftrightarrow> map_of m k = Some v"
  by simp

text \<open>Two iteration orders of one Go map carry the same multiset of entries.\<close>

lemma gomap_same_entries:
  assumes "gomap_wf m" "gomap_wf m'" "map_of m = map_of m'"
  shows "mset m = mset m'"
proof -
  have "set m = set m'"
    using assms by (metis map_of_eq_Some_iff subrelI subset_antisym)
  moreover have "distinct m" "distinct m'"
    using assms by (auto simp: distinct_map)
  ultimately show ?thesis
    using set_eq_iff_mset_eq_distinct by blast
qed

section \<open>Lemmas on strings\<close>

lemma HasPrefix_append [simp]: "HasPrefix (p @ s) p"
  by (simp add: HasPrefix_def)

lemma HasPrefix_Nil [simp]: "HasPrefix s []"
  by (simp add: HasPrefix_def)

lemma Split_not_Nil [simp]: "Split sep s \<noteq> []"
  by (induction s) (auto split: list.splits)

lemma Split_no_sep: "sep \<notin> set s \<Longrightarrow> Split sep s = [s]"
  by (induction s) auto

lemma Split_append_sep:
  "sep \<notin> set s \<Longrightarrow> Split sep (s @ sep # t) = s # Split sep t"
  by (induction s) auto

lemma Split_words_no_sep: "w \<in> set (Split sep s) \<Longrightarrow> sep \<notin> set w"
  by (induction s arbitrary: w) (auto split: if_splits list.splits)

lemma Join_Split: "Join [sep] (Split sep s) = s"
proof (induction s)
  case (Cons c cs)
  then show ?case
    by (cases "Split sep cs") (auto, (metis append_Cons append_Nil Join.simps(2,3) list.exhaust)+)
qed simp

lemma Split_Join:
  "ws \<noteq> [] \<Longrightarrow> \<forall>w \<in> set ws. sep \<notin> set w \<Longrightarrow> Split sep (Join [sep] ws) = ws"
  by (induction "[sep]" ws rule: Join.induct) (auto simp: Split_no_sep Split_append_sep)

lemma Index_absent: "Index s c = -1 \<longleftrightarrow> c \<notin> set s"
proof (induction s)
  case (Cons x xs)
  have "Index xs c \<ge> -1" by (induction xs) (auto simp: Let_def)
  with Cons show ?case by (auto simp: Let_def split: if_splits)
qed simp

lemma Index_bounds: "-1 \<le> Index s c \<and> Index s c < int (length s) \<or> s = [] \<and> Index s c = -1"
  by (induction s) (auto simp: Let_def)

lemma Index_found:
  "c \<in> set s \<Longrightarrow> s = take (nat (Index s c)) s @ c # drop (Suc (nat (Index s c))) s"
proof (induction s)
  case (Cons x xs)
  show ?case
  proof (cases "x = c")
    case False
    with Cons.prems have "c \<in> set xs" by simp
    moreover from this have "Index xs c \<noteq> -1" by (simp add: Index_absent)
    moreover from this have "0 \<le> Index xs c" using Index_bounds [of xs c] by auto
    ultimately show ?thesis
      using Cons.IH False by (simp add: Let_def nat_add_distrib)
  qed simp
qed simp

lemma Replace_absent: "\<not> Contains s old \<Longrightarrow> Replace old new s = s"
  by (induction s) auto

section \<open>Refinement of transition systems\<close>

text \<open>
  A concrete system refines an abstract one when the relation between their states survives every
  concrete step, answered by one abstract step or none.
\<close>

locale refines =
  fixes cstep :: "'c \<Rightarrow> 'c \<Rightarrow> bool" and astep :: "'a \<Rightarrow> 'a \<Rightarrow> bool" and rel :: "'c \<Rightarrow> 'a \<Rightarrow> bool"
  assumes simulates: "cstep s s' \<Longrightarrow> rel s a \<Longrightarrow> \<exists>a'. rel s' a' \<and> (a' = a \<or> astep a a')"
begin

lemma simulates_steps: "cstep\<^sup>*\<^sup>* s s' \<Longrightarrow> rel s a \<Longrightarrow> \<exists>a'. rel s' a' \<and> astep\<^sup>*\<^sup>* a a'"
proof (induction rule: rtranclp_induct)
  case (step t u)
  then obtain b where b: "rel t b" "astep\<^sup>*\<^sup>* a b" by blast
  from simulates [OF step.hyps(2) b(1)] b(2) show ?case by (metis rtranclp.rtrancl_into_rtrancl)
qed blast

lemma carries:
  assumes "\<And>a a'. P a \<Longrightarrow> astep a a' \<Longrightarrow> P a'" "cstep\<^sup>*\<^sup>* s s'" "rel s a" "P a"
  shows "\<exists>a'. rel s' a' \<and> P a'"
proof -
  obtain a' where a': "rel s' a'" "astep\<^sup>*\<^sup>* a a'" using simulates_steps [OF assms(2,3)] by blast
  from a'(2) assms(4) have "P a'" by (induction rule: rtranclp_induct) (auto intro: assms(1))
  with a'(1) show ?thesis by blast
qed

end

section \<open>Quoted text\<close>

text \<open>\<open>%q\<close>: quotes, backslashes and control characters are escaped, other bytes kept.\<close>

definition hex_digit :: "nat \<Rightarrow> char" where
  "hex_digit n = (if n < 10 then char_of (48 + n) else char_of (87 + n))"

definition quote_char :: "char \<Rightarrow> string" where
  "quote_char c =
     (let n = (of_char c :: nat) in
      if n = 34 \<or> n = 92 then [CHR 0x5C, c]
      else if n = 7 then [CHR 0x5C, CHR ''a''] else if n = 8 then [CHR 0x5C, CHR ''b'']
      else if n = 9 then [CHR 0x5C, CHR ''t''] else if n = 10 then [CHR 0x5C, CHR ''n'']
      else if n = 11 then [CHR 0x5C, CHR ''v''] else if n = 12 then [CHR 0x5C, CHR ''f'']
      else if n = 13 then [CHR 0x5C, CHR ''r'']
      else if n < 32 \<or> n = 127 then [CHR 0x5C, CHR ''x'', hex_digit (n div 16), hex_digit (n mod 16)]
      else [c])"

definition go_quote :: "string \<Rightarrow> string" where
  "go_quote s = [CHR 0x22] @ concat (map quote_char s) @ [CHR 0x22]"

end
