(* ===== verification/Quantity.thy ===== *)
theory Quantity
  imports Complex_Main Prelude "HOL-Library.Signed_Division"
begin

text \<open>
  Resource quantities (package \<open>resource\<close> of apimachinery): the int64 fixed-point amount
  with its overflow-checked arithmetic, the promotion to an arbitrary-precision decimal when a
  check fails, and the operations the simulator's report calls.  Machine integers are
  \<open>int\<close> with the wrap-around written out: \<open>wrap64\<close> for values, and \<open>wrap32\<close> for
  scales, which are int32 both here and in \<open>inf.Dec\<close>, so that every difference of scales and every
  negated scale wraps.  Go's \<open>/\<close> and \<open>%\<close> truncate (\<open>sdiv\<close>, \<open>smod\<close>).  The text \<open>s\<close> that a
  parsed quantity may keep is an argument of the printer (\<open>Quantity_Text\<close>).  What is proved:
  as long as no difference of scales wraps (\<open>scale_ok\<close>), the fast int64 path never returns a wrong
  sum, so that \<open>Quantity.Add\<close> is exact addition; and that it is not exact, and reports success, once
  a difference wraps (\<open>add_scale_wraps\<close>).
\<close>

definition mostNegative :: int where
  "mostNegative = - (2 ^ 63)"

definition mostPositive :: int where
  "mostPositive = 2 ^ 63 - 1"

definition wrap64 :: "int \<Rightarrow> int" where
  "wrap64 x = (x + 2 ^ 63) mod 2 ^ 64 - 2 ^ 63"

definition wrap32 :: "int \<Rightarrow> int" where
  "wrap32 x = (x + 2 ^ 31) mod 2 ^ 32 - 2 ^ 31"

definition int32_range :: "int \<Rightarrow> bool" where
  "int32_range x = (- (2 ^ 31) \<le> x \<and> x < 2 ^ 31)"

definition int64_range :: "int \<Rightarrow> bool" where
  "int64_range x = (mostNegative \<le> x \<and> x \<le> mostPositive)"

definition int64Add :: "int \<Rightarrow> int \<Rightarrow> int \<times> bool" where
  "int64Add a b =
     (let c = wrap64 (a + b) in
      if a > 0 \<and> b > 0 then (if c < 0 then (0, False) else (c, True))
      else if a < 0 \<and> b < 0 then
        (if c > 0 then (0, False)
         else if a = mostNegative \<and> b = mostNegative then (0, False)
         else (c, True))
      else (c, True))"

definition int64MultiplyScale :: "int \<Rightarrow> int \<Rightarrow> int \<times> bool" where
  "int64MultiplyScale a b =
     (if a = 0 \<or> a = 1 then (wrap64 (a * b), True)
      else if a = mostNegative \<and> b \<noteq> 1 then (0, False)
      else (let c = wrap64 (a * b) in (c, c sdiv b = a)))"

text \<open>
  The default branch of \<open>positiveScaleInt64\<close>: multiply by ten, \<open>n\<close> times.  For a negative scale,
  which is what a wrapped difference is, the loop of the code does not run: \<open>nat\<close> gives no round either.
\<close>

fun scale_up_loop :: "nat \<Rightarrow> int \<Rightarrow> int \<times> bool" where
  "scale_up_loop 0 v = (v, True)"
| "scale_up_loop (Suc n) v =
     (case int64MultiplyScale v 10 of
        (w, ok) \<Rightarrow> if ok then scale_up_loop n w else (0, False))"

definition positiveScaleInt64 :: "int \<Rightarrow> int \<Rightarrow> int \<times> bool" where
  "positiveScaleInt64 base scale =
     (if scale = 0 then (base, True)
      else if scale = 1 then int64MultiplyScale base 10
      else if scale = 2 then int64MultiplyScale base 100
      else if scale = 3 then int64MultiplyScale base 1000
      else if scale = 6 then int64MultiplyScale base 1000000
      else if scale = 9 then int64MultiplyScale base 1000000000
      else scale_up_loop (nat scale) base)"

text \<open>The loop of \<open>negativeScaleInt64\<close>: \<open>Inl\<close> is the early return.\<close>

fun scale_down_loop :: "nat \<Rightarrow> int \<Rightarrow> int \<Rightarrow> bool \<Rightarrow> (int \<times> bool) + (int \<times> bool)" where
  "scale_down_loop 0 base v fraction = Inr (v, fraction)"
| "scale_down_loop (Suc n) base v fraction =
     (let fraction' = (fraction \<or> v smod 10 \<noteq> 0); v' = v sdiv 10 in
      if v' = 0 then
        Inl (if fraction' then (if base > 0 then (1, False) else (-1, False)) else (0, True))
      else scale_down_loop n base v' fraction')"

definition negativeScaleInt64 :: "int \<Rightarrow> int \<Rightarrow> int \<times> bool" where
  "negativeScaleInt64 base scale =
     (if scale = 0 then (base, True)
      else case scale_down_loop (nat scale) base base False of
        Inl r \<Rightarrow> r
      | Inr (v, fraction) \<Rightarrow>
          (if fraction then (if base > 0 then v + 1 else v - 1) else v, \<not> fraction))"

record int64Amount =
  amt_value :: int
  amt_scale :: int

definition AsScaledInt64 :: "int64Amount \<Rightarrow> int \<Rightarrow> int \<times> bool" where
  "AsScaledInt64 a scale =
     (if amt_scale a < scale then (fst (negativeScaleInt64 (amt_value a) (wrap32 (scale - amt_scale a))), True)
      else positiveScaleInt64 (amt_value a) (wrap32 (amt_scale a - scale)))"

text \<open>\<open>(*int64Amount).Add\<close>: the new receiver, and whether the sum was representable.\<close>

definition amount_Add :: "int64Amount \<Rightarrow> int64Amount \<Rightarrow> int64Amount \<times> bool" where
  "amount_Add a b =
     (if amt_value b = 0 then (a, True)
      else if amt_value a = 0 then (\<lparr>amt_value = amt_value b, amt_scale = amt_scale b\<rparr>, True)
      else if amt_scale a = amt_scale b then
        (case int64Add (amt_value a) (amt_value b) of
           (c, ok) \<Rightarrow> if ok then (a\<lparr>amt_value := c\<rparr>, True) else (a, False))
      else if amt_scale a > amt_scale b then
        (case positiveScaleInt64 (amt_value a) (wrap32 (amt_scale a - amt_scale b)) of
           (c, ok) \<Rightarrow> if ok then
             (case int64Add c (amt_value b) of
                (c', ok') \<Rightarrow> if ok' then (\<lparr>amt_value = c', amt_scale = amt_scale b\<rparr>, True)
                             else (a, False))
             else (a, False))
      else
        (case positiveScaleInt64 (amt_value b) (wrap32 (amt_scale b - amt_scale a)) of
           (c, ok) \<Rightarrow> if ok then
             (case int64Add (amt_value a) c of
                (c', ok') \<Rightarrow> if ok' then (a\<lparr>amt_value := c'\<rparr>, True) else (a, False))
             else (a, False)))"

text \<open>An \<open>inf.Dec\<close>: unscaled big integer and (upside-down) scale.\<close>

record infDec =
  dec_unscaled :: int
  dec_scale :: int

definition AsDec :: "int64Amount \<Rightarrow> infDec" where
  "AsDec a = \<lparr>dec_unscaled = amt_value a, dec_scale = wrap32 (- amt_scale a)\<rparr>"

text \<open>
  The shift is an int32 as well.  A shift of exactly \<open>- (2 ^ 31)\<close>, which is its own negation, makes
  \<open>exp10\<close> index its cache out of range and panic; here it leaves the number as it is.  All results below
  are for scales far from there.
\<close>

definition dec_rescale :: "infDec \<Rightarrow> int \<Rightarrow> infDec" where
  "dec_rescale x newScale =
     (let shift = wrap32 (newScale - dec_scale x) in
      if shift < 0 then \<lparr>dec_unscaled = dec_unscaled x sdiv 10 ^ nat (wrap32 (- shift)), dec_scale = newScale\<rparr>
      else if shift > 0 then \<lparr>dec_unscaled = dec_unscaled x * 10 ^ nat shift, dec_scale = newScale\<rparr>
      else x)"

definition dec_upscale :: "infDec \<Rightarrow> infDec \<Rightarrow> infDec \<times> infDec" where
  "dec_upscale a b =
     (if dec_scale a = dec_scale b then (a, b)
      else if dec_scale a > dec_scale b then (a, dec_rescale b (dec_scale a))
      else (dec_rescale a (dec_scale b), b))"

definition dec_Add :: "infDec \<Rightarrow> infDec \<Rightarrow> infDec" where
  "dec_Add x y =
     (case dec_upscale x y of
        (xx, yy) \<Rightarrow> \<lparr>dec_unscaled = dec_unscaled xx + dec_unscaled yy, dec_scale = dec_scale xx\<rparr>)"

record quantity =
  q_i :: int64Amount
  q_d :: "infDec option"
  q_Format :: string

definition NewQuantity :: "int \<Rightarrow> string \<Rightarrow> quantity" where
  "NewQuantity v fmt = \<lparr>q_i = \<lparr>amt_value = v, amt_scale = 0\<rparr>, q_d = None, q_Format = fmt\<rparr>"

definition NewMilliQuantity :: "int \<Rightarrow> string \<Rightarrow> quantity" where
  "NewMilliQuantity v fmt =
     \<lparr>q_i = \<lparr>amt_value = v, amt_scale = -3\<rparr>, q_d = None, q_Format = fmt\<rparr>"

definition IsZero :: "quantity \<Rightarrow> bool" where
  "IsZero q = (case q_d q of Some d \<Rightarrow> dec_unscaled d = 0 | None \<Rightarrow> amt_value (q_i q) = 0)"

text \<open>\<open>AsDec\<close> of a quantity, as a value (the receiver's promotion is \<open>ToDec\<close>).\<close>

definition q_AsDec :: "quantity \<Rightarrow> infDec" where
  "q_AsDec q = (case q_d q of Some d \<Rightarrow> d | None \<Rightarrow> AsDec (q_i q))"

definition ToDec :: "quantity \<Rightarrow> quantity" where
  "ToDec q =
     (case q_d q of
        None \<Rightarrow> q\<lparr>q_d := Some (AsDec (q_i q)), q_i := \<lparr>amt_value = 0, amt_scale = 0\<rparr>\<rparr>
      | Some _ \<Rightarrow> q)"

definition promote_add :: "quantity \<Rightarrow> quantity \<Rightarrow> quantity" where
  "promote_add q y = (ToDec q)\<lparr>q_d := Some (dec_Add (q_AsDec q) (q_AsDec y))\<rparr>"

definition quantity_Add :: "quantity \<Rightarrow> quantity \<Rightarrow> quantity" where
  "quantity_Add q y =
     (if q_d q = None \<and> q_d y = None then
        (let q' = (if amt_value (q_i q) = 0 then q\<lparr>q_Format := q_Format y\<rparr> else q) in
         case amount_Add (q_i q') (q_i y) of
           (i, ok) \<Rightarrow> if ok then q'\<lparr>q_i := i\<rparr> else promote_add q' y)
      else
        (let q' = (if IsZero q then q\<lparr>q_Format := q_Format y\<rparr> else q) in promote_add q' y))"

text \<open>
  \<open>scaledValue\<close> of a decimal.  \<open>big.Int.Int64\<close> keeps the low 64 bits
  (\<open>wrap64\<close>); the conversion of a power of ten above int64 gives the least int64, as on
  amd64.  Go's \<open>big.Int.DivMod\<close> is Euclidean, which for a positive divisor is
  \<open>div\<close> and \<open>mod\<close>.
\<close>

definition pow10_int64 :: "nat \<Rightarrow> int" where
  "pow10_int64 n = (if n \<le> 18 then 10 ^ n else mostNegative)"

definition scaledValue :: "int \<Rightarrow> int \<Rightarrow> int \<Rightarrow> int" where
  "scaledValue unscaled scale newScale =
     (let dif = scale - newScale in
      if dif = 0 then wrap64 unscaled
      else if dif < 0 then wrap64 (wrap64 unscaled * pow10_int64 (nat (- dif)))
      else if unscaled < mostPositive \<and> dif < 19 then
        (let divide = pow10_int64 (nat dif); u = wrap64 unscaled in
         if u smod divide \<noteq> 0 then u sdiv divide + 1 else u sdiv divide)
      else (let divisor = 10 ^ nat dif in
         if unscaled mod divisor \<noteq> 0 then wrap64 (wrap64 (unscaled div divisor) + 1)
         else wrap64 (unscaled div divisor)))"

definition ScaledValue :: "quantity \<Rightarrow> int \<Rightarrow> int" where
  "ScaledValue q scale =
     (case q_d q of
        None \<Rightarrow> fst (AsScaledInt64 (q_i q) scale)
      | Some d \<Rightarrow> scaledValue (dec_unscaled d) (dec_scale d) (- scale))"

definition q_Value :: "quantity \<Rightarrow> int" where
  "q_Value q = ScaledValue q 0"

section \<open>The value a quantity denotes\<close>

definition amount_val :: "int64Amount \<Rightarrow> rat" where
  "amount_val a = of_int (amt_value a) * 10 powi amt_scale a"

definition dec_val :: "infDec \<Rightarrow> rat" where
  "dec_val d = of_int (dec_unscaled d) * 10 powi (- dec_scale d)"

definition q_val :: "quantity \<Rightarrow> rat" where
  "q_val q = (case q_d q of Some d \<Rightarrow> dec_val d | None \<Rightarrow> amount_val (q_i q))"

text \<open>
  \<open>q_wf\<close> holds of every value the Go types admit.  \<open>scale_ok\<close> bounds the scale of the form a
  quantity is held in so that two of them differ by less than \<open>2 ^ 31\<close>.
\<close>

definition q_wf :: "quantity \<Rightarrow> bool" where
  "q_wf q = (int64_range (amt_value (q_i q)) \<and> int32_range (amt_scale (q_i q)) \<and>
     (case q_d q of Some d \<Rightarrow> int32_range (dec_scale d) | None \<Rightarrow> True))"

definition q_scale :: "quantity \<Rightarrow> int" where
  "q_scale q = (case q_d q of Some d \<Rightarrow> dec_scale d | None \<Rightarrow> amt_scale (q_i q))"

definition scale_ok :: "quantity \<Rightarrow> bool" where
  "scale_ok q = (\<bar>q_scale q\<bar> < 2 ^ 30)"

section \<open>Overflow checks\<close>

lemmas int64_defs = int64_range_def mostNegative_def mostPositive_def

lemma wrap64_id [simp]: "int64_range x \<Longrightarrow> wrap64 x = x"
  by (simp add: wrap64_def int64_defs)

lemma wrap64_range [simp]: "int64_range (wrap64 x)"
proof -
  have "0 \<le> (x + 2 ^ 63) mod 2 ^ 64" "(x + 2 ^ 63) mod 2 ^ 64 < 2 ^ 64"
    by (simp_all add: pos_mod_bound)
  then show ?thesis by (simp add: wrap64_def int64_defs)
qed

lemma wrap32_id [simp]: "int32_range x \<Longrightarrow> wrap32 x = x"
  by (simp add: wrap32_def int32_range_def)

lemma wrap32_abs [simp]: "\<bar>x\<bar> < 2147483648 \<Longrightarrow> wrap32 x = x"
  by (rule wrap32_id) (auto simp: int32_range_def abs_less_iff)

lemma wrap32_abs30 [simp]: "\<bar>x\<bar> < 1073741824 \<Longrightarrow> wrap32 x = x"
  by (rule wrap32_abs) simp

text \<open>Scales of less than 30 bits have differences of less than 31.\<close>

lemma scale_gap: "\<bar>x\<bar> < 2 ^ 30 \<Longrightarrow> \<bar>y\<bar> < 2 ^ 30 \<Longrightarrow> \<bar>x - y\<bar> < (2 ^ 31 :: int)"
  by (simp add: abs_less_iff)

lemma wrap32_range [simp]: "int32_range (wrap32 x)"
proof -
  have "0 \<le> (x + 2 ^ 31) mod 2 ^ 32" "(x + 2 ^ 31) mod 2 ^ 32 < 2 ^ 32"
    by (simp_all add: pos_mod_bound)
  then show ?thesis by (simp add: wrap32_def int32_range_def)
qed

lemma wrap32_add: "wrap32 (wrap32 x + y) = wrap32 (x + y)" "wrap32 (x + wrap32 y) = wrap32 (x + y)"
proof -
  have "((x + 2 ^ 31) mod 2 ^ 32 + y) mod 2 ^ 32 = (x + 2 ^ 31 + y) mod 2 ^ (32 :: nat)"
    "((y + 2 ^ 31) mod 2 ^ 32 + x) mod 2 ^ 32 = (y + 2 ^ 31 + x) mod 2 ^ (32 :: nat)"
    by (rule mod_add_left_eq)+
  then show "wrap32 (wrap32 x + y) = wrap32 (x + y)" "wrap32 (x + wrap32 y) = wrap32 (x + y)"
    by (simp_all add: wrap32_def algebra_simps)
qed

lemma wrap64_cong: "\<exists>k. wrap64 x = x + k * 2 ^ 64"
proof
  show "wrap64 x = x + (- ((x + 2 ^ 63) div 2 ^ 64)) * 2 ^ 64"
    using mult_div_mod_eq [of "2 ^ 64" "x + 2 ^ 63"] by (simp add: wrap64_def algebra_simps)
qed

text \<open>A sum of two int64 values that leaves the range lands exactly one period off.\<close>

lemma wrap64_sum:
  assumes "int64_range a" "int64_range b"
  shows "wrap64 (a + b) =
    (if a + b > mostPositive then a + b - 2 ^ 64
     else if a + b < mostNegative then a + b + 2 ^ 64 else a + b)"
proof -
  consider "a + b > mostPositive" | "a + b < mostNegative" | "int64_range (a + b)"
    unfolding int64_range_def by linarith
  then show ?thesis
  proof cases
    case 1
    have "(a + b + 2 ^ 63) mod 2 ^ 64 = (a + b + 2 ^ 63 - 2 ^ 64) mod 2 ^ (64 :: nat)"
      using mod_add_self2 [of "a + b + 2 ^ 63 - 2 ^ 64" "2 ^ 64"] by (simp add: add.commute)
    also have "\<dots> = a + b + 2 ^ 63 - 2 ^ 64"
      using 1 assms by (intro mod_pos_pos_trivial) (auto simp: int64_defs)
    finally show ?thesis using 1 by (simp add: wrap64_def)
  next
    case 2
    have "(a + b + 2 ^ 63) mod 2 ^ 64 = (a + b + 2 ^ 63 + 2 ^ 64) mod 2 ^ (64 :: nat)"
      by (rule mod_add_self2 [symmetric])
    also have "\<dots> = a + b + 2 ^ 63 + 2 ^ 64"
      using 2 assms by (intro mod_pos_pos_trivial) (auto simp: int64_defs)
    finally show ?thesis using 2 by (simp add: wrap64_def int64_defs)
  qed (auto simp: int64_range_def)
qed

lemma int64Add_exact:
  assumes "int64_range a" "int64_range b"
  shows "int64Add a b = (if int64_range (a + b) then (a + b, True) else (0, False))"
  using assms by (auto simp: int64Add_def Let_def wrap64_sum int64_defs)

text \<open>
  The check \<open>c / b == a\<close> on the wrapped product detects every overflow: a product that
  wraps is off by a multiple of \<open>2 ^ 64\<close>, too far for the truncated quotient to agree.
\<close>

lemma int64MultiplyScale_exact:
  assumes a: "int64_range a" and b: "1 < b" "b < 2 ^ 63"
  shows "snd (int64MultiplyScale a b) = int64_range (a * b)"
    and "int64_range (a * b) \<Longrightarrow> fst (int64MultiplyScale a b) = a * b"
proof -
  have quot: "wrap64 (a * b) sdiv b = a \<longleftrightarrow> int64_range (a * b)"
  proof
    assume eq: "wrap64 (a * b) sdiv b = a"
    obtain k where k: "wrap64 (a * b) = a * b + k * 2 ^ 64" using wrap64_cong by blast
    have "wrap64 (a * b) smod b = k * 2 ^ 64"
      using minus_sdiv_mult_eq_smod [of "wrap64 (a * b)" b] k eq by simp
    moreover have "\<bar>wrap64 (a * b) smod b\<bar> < b"
      using smod_int_range [of b "wrap64 (a * b)"] b by auto
    ultimately have "\<bar>k\<bar> * 2 ^ 64 < 2 ^ 63" using b by (simp add: abs_mult)
    then have "k = 0" by (cases "k = 0") auto
    then show "int64_range (a * b)" using k wrap64_range [of "a * b"] by simp
  next
    assume "int64_range (a * b)"
    then show "wrap64 (a * b) sdiv b = a" using b by (simp add: signed_divide_int_eq_divide_int)
  qed
  have neg: "\<not> int64_range (mostNegative * b)"
    using b by (simp add: int64_defs)
  have small: "int64_range (a * b)" if "a = 0 \<or> a = 1"
    using that b by (auto simp: int64_defs)
  show "snd (int64MultiplyScale a b) = int64_range (a * b)"
    using quot neg small b by (auto simp: int64MultiplyScale_def Let_def)
  show "fst (int64MultiplyScale a b) = a * b" if "int64_range (a * b)"
    using that neg b by (auto simp: int64MultiplyScale_def Let_def)
qed

lemma int64_range_scaled:
  assumes "int64_range (v * 10 ^ n)" shows "int64_range v"
proof (cases "0 \<le> v")
  case True
  then have "v \<le> v * 10 ^ n" by (simp add: mult_le_cancel_left1)
  with True assms show ?thesis unfolding int64_defs by linarith
next
  case False
  then have "v * 10 ^ n \<le> v" by (simp add: mult_le_cancel_left2)
  with False assms show ?thesis unfolding int64_defs by linarith
qed

lemma scale_up_loop_exact:
  assumes "int64_range v"
  shows "snd (scale_up_loop n v) = int64_range (v * 10 ^ n) \<and>
    (int64_range (v * 10 ^ n) \<longrightarrow> fst (scale_up_loop n v) = v * 10 ^ n)"
  using assms
proof (induction n arbitrary: v)
  case (Suc n)
  note mult = int64MultiplyScale_exact [OF Suc.prems, of 10]
  obtain w ok where w: "int64MultiplyScale v 10 = (w, ok)" by fastforce
  have ok: "ok = int64_range (v * 10)" using mult(1) w by simp
  have assoc: "v * 10 ^ Suc n = v * 10 * 10 ^ n" by simp
  show ?case
  proof (cases ok)
    case True
    with mult(2) w ok have "w = v * 10" "int64_range w" by simp_all
    with True w Suc.IH [of w] show ?thesis by (simp only: assoc scale_up_loop.simps) simp
  next
    case False
    with ok have "\<not> int64_range (v * 10 * 10 ^ n)" using int64_range_scaled by blast
    with False w show ?thesis by (simp only: assoc scale_up_loop.simps) simp
  qed
qed simp

lemma positiveScaleInt64_exact:
  assumes "int64_range v" "0 \<le> s"
  shows "snd (positiveScaleInt64 v s) = int64_range (v * 10 ^ nat s)"
    and "int64_range (v * 10 ^ nat s) \<Longrightarrow> fst (positiveScaleInt64 v s) = v * 10 ^ nat s"
  using assms int64MultiplyScale_exact [OF assms(1), of 10] int64MultiplyScale_exact [OF assms(1), of 100]
    int64MultiplyScale_exact [OF assms(1), of 1000] int64MultiplyScale_exact [OF assms(1), of 1000000]
    int64MultiplyScale_exact [OF assms(1), of 1000000000] scale_up_loop_exact [OF assms(1), of "nat s"]
  by (auto simp: positiveScaleInt64_def)

section \<open>Exactness of addition\<close>

lemma amount_val_rescale:
  assumes "t \<le> s"
  shows "(of_int (v * 10 ^ nat (s - t)) :: rat) * 10 powi t = of_int v * 10 powi s"
proof -
  have "(10 :: rat) powi s = 10 powi (s - t) * 10 powi t"
    by (simp flip: power_int_add)
  also have "(10 :: rat) powi (s - t) = 10 ^ nat (s - t)"
    using assms by (simp add: power_int_def)
  finally show ?thesis by simp
qed

text \<open>When \<open>int64Amount.Add\<close> reports success the receiver holds the exact sum.\<close>

lemma amount_Add_exact:
  assumes a: "int64_range (amt_value a)" and b: "int64_range (amt_value b)"
    and ok: "amount_Add a b = (c, True)"
    and gap: "\<bar>amt_scale a - amt_scale b\<bar> < 2 ^ 31"
  shows "amount_val c = amount_val a + amount_val b \<and> int64_range (amt_value c) \<and>
    (amt_scale c = amt_scale a \<or> amt_scale c = amt_scale b)"
proof -
  let ?va = "amt_value a" and ?vb = "amt_value b" and ?sa = "amt_scale a" and ?sb = "amt_scale b"
  consider (bz) "?vb = 0" | (az) "?vb \<noteq> 0" "?va = 0"
    | (eq) "?vb \<noteq> 0" "?va \<noteq> 0" "?sa = ?sb"
    | (gt) "?vb \<noteq> 0" "?va \<noteq> 0" "?sa > ?sb"
    | (lt) "?vb \<noteq> 0" "?va \<noteq> 0" "?sa < ?sb"
    by linarith
  then show ?thesis
  proof cases
    case eq
    then show ?thesis
      using ok int64Add_exact [OF a b]
      by (auto simp: amount_Add_def amount_val_def algebra_simps split: if_splits)
  next
    case gt
    let ?w = "?va * 10 ^ nat (?sa - ?sb)"
    note up = positiveScaleInt64_exact [OF a, of "?sa - ?sb"]
    have [simp]: "wrap32 (?sa - ?sb) = ?sa - ?sb" using gap by simp
    have w: "int64_range ?w"
      using up gt ok by (auto simp: amount_Add_def split: if_splits prod.splits)
    then have "int64_range (?w + ?vb)" "c = \<lparr>amt_value = ?w + ?vb, amt_scale = ?sb\<rparr>"
      using up gt ok int64Add_exact [OF w b]
      by (auto simp: amount_Add_def split: if_splits prod.splits)
    then show ?thesis
      using amount_val_rescale [of ?sb ?sa ?va] gt by (simp add: amount_val_def distrib_right)
  next
    case lt
    let ?w = "?vb * 10 ^ nat (?sb - ?sa)"
    note up = positiveScaleInt64_exact [OF b, of "?sb - ?sa"]
    have [simp]: "wrap32 (?sb - ?sa) = ?sb - ?sa" using gap by simp
    have w: "int64_range ?w"
      using up lt ok by (auto simp: amount_Add_def split: if_splits prod.splits)
    then have "int64_range (?va + ?w)" "c = a\<lparr>amt_value := ?va + ?w\<rparr>"
      using up lt ok int64Add_exact [OF a w]
      by (auto simp: amount_Add_def split: if_splits prod.splits)
    then show ?thesis
      using amount_val_rescale [of ?sa ?sb ?vb] lt by (simp add: amount_val_def distrib_right)
  qed (use ok a b in \<open>auto simp: amount_Add_def amount_val_def\<close>)
qed

lemma dec_val_AsDec: "\<bar>amt_scale a\<bar> < 2 ^ 31 \<Longrightarrow> dec_val (AsDec a) = amount_val a"
  by (simp add: dec_val_def AsDec_def amount_val_def int32_range_def)

lemma dec_rescale_up:
  assumes "dec_scale x \<le> s" "s - dec_scale x < 2 ^ 31"
  shows "dec_rescale x s = \<lparr>dec_unscaled = dec_unscaled x * 10 ^ nat (s - dec_scale x), dec_scale = s\<rparr>"
  using assms by (cases "dec_scale x = s") (simp_all add: dec_rescale_def int32_range_def)

lemma dec_val_rescale_up:
  "dec_scale x \<le> s \<Longrightarrow> s - dec_scale x < 2 ^ 31 \<Longrightarrow> dec_val (dec_rescale x s) = dec_val x"
  using amount_val_rescale [of "- s" "- dec_scale x" "dec_unscaled x"]
  by (simp add: dec_rescale_up dec_val_def algebra_simps)

lemma dec_upscale_sound:
  assumes "dec_upscale x y = (xx, yy)" "\<bar>dec_scale x - dec_scale y\<bar> < 2 ^ 31"
  shows "dec_val xx = dec_val x" "dec_val yy = dec_val y"
    "dec_scale xx = max (dec_scale x) (dec_scale y)" "dec_scale yy = max (dec_scale x) (dec_scale y)"
proof -
  show "dec_val xx = dec_val x" "dec_val yy = dec_val y"
    using assms by (auto simp: dec_upscale_def dec_val_rescale_up split: if_splits)
  show "dec_scale xx = max (dec_scale x) (dec_scale y)" "dec_scale yy = max (dec_scale x) (dec_scale y)"
    using assms by (auto simp: dec_upscale_def dec_rescale_up split: if_splits)
qed

lemma dec_Add_exact:
  assumes "\<bar>dec_scale x - dec_scale y\<bar> < 2 ^ 31"
  shows "dec_val (dec_Add x y) = dec_val x + dec_val y" "dec_scale (dec_Add x y) = max (dec_scale x) (dec_scale y)"
proof -
  obtain xx yy where u: "dec_upscale x y = (xx, yy)" by fastforce
  note s = dec_upscale_sound [OF u assms]
  then show "dec_val (dec_Add x y) = dec_val x + dec_val y"
    unfolding s(1,2) [symmetric] using u by (simp add: dec_Add_def dec_val_def distrib_right)
  show "dec_scale (dec_Add x y) = max (dec_scale x) (dec_scale y)" using u s by (simp add: dec_Add_def)
qed

lemma dec_val_q_AsDec: "scale_ok q \<Longrightarrow> dec_val (q_AsDec q) = q_val q"
  by (simp add: q_AsDec_def q_val_def scale_ok_def q_scale_def dec_val_AsDec split: option.splits)

lemma dec_scale_q_AsDec: "scale_ok q \<Longrightarrow> \<bar>dec_scale (q_AsDec q)\<bar> < 2 ^ 30"
  by (simp add: q_AsDec_def scale_ok_def q_scale_def AsDec_def int32_range_def split: option.splits)

lemma promote_add_exact:
  assumes "q_wf q" "scale_ok q" "scale_ok y"
  shows "q_val (promote_add q y) = q_val q + q_val y \<and> q_wf (promote_add q y) \<and> scale_ok (promote_add q y)"
proof -
  let ?d = "dec_Add (q_AsDec q) (q_AsDec y)"
  note s = dec_scale_q_AsDec [OF assms(2)] dec_scale_q_AsDec [OF assms(3)]
  then have "\<bar>dec_scale (q_AsDec q) - dec_scale (q_AsDec y)\<bar> < 2 ^ 31" by (rule scale_gap)
  note add = dec_Add_exact [OF this]
  have val: "dec_val ?d = q_val q + q_val y" using add(1) assms by (simp add: dec_val_q_AsDec)
  have sc: "\<bar>dec_scale ?d\<bar> < 2 ^ 30" using add(2) s by linarith
  then have "int32_range (dec_scale ?d)" by (simp add: int32_range_def abs_less_iff)
  with assms(1) have wf: "q_wf (promote_add q y)"
    by (simp add: promote_add_def ToDec_def q_wf_def int64_defs int32_range_def split: option.splits)
  have d: "q_d (promote_add q y) = Some ?d" by (simp add: promote_add_def)
  then have "q_val (promote_add q y) = dec_val ?d" "q_scale (promote_add q y) = dec_scale ?d"
    by (simp_all add: q_val_def q_scale_def)
  with val sc wf show ?thesis by (simp add: scale_ok_def)
qed

lemma q_val_format [simp]: "q_val (q\<lparr>q_Format := f\<rparr>) = q_val q"
  by (cases "q_d q") (simp_all add: q_val_def)

lemma q_wf_format [simp]: "q_wf (q\<lparr>q_Format := f\<rparr>) = q_wf q"
  by (simp add: q_wf_def)

lemma scale_ok_format [simp]: "scale_ok (q\<lparr>q_Format := f\<rparr>) = scale_ok q"
  by (simp add: scale_ok_def q_scale_def split: option.split)

lemma quantity_Add_sound:
  assumes "q_wf q" "q_wf y" "scale_ok q" "scale_ok y"
  shows "q_val (quantity_Add q y) = q_val q + q_val y \<and> q_wf (quantity_Add q y) \<and> scale_ok (quantity_Add q y)"
proof (cases "q_d q = None \<and> q_d y = None")
  case int: True
  let ?q = "if amt_value (q_i q) = 0 then q\<lparr>q_Format := q_Format y\<rparr> else q"
  have q: "q_val ?q = q_val q" "q_wf ?q" "scale_ok ?q" "q_i ?q = q_i q" "q_d ?q = q_d q"
    using assms by simp_all
  obtain i ok where i: "amount_Add (q_i q) (q_i y) = (i, ok)" by fastforce
  show ?thesis
  proof (cases ok)
    case True
    have s: "\<bar>amt_scale (q_i q)\<bar> < 2 ^ 30" "\<bar>amt_scale (q_i y)\<bar> < 2 ^ 30"
      using assms(3,4) int by (simp_all add: scale_ok_def q_scale_def)
    then have "\<bar>amt_scale (q_i q) - amt_scale (q_i y)\<bar> < 2 ^ 31" by (rule scale_gap)
    with i True amount_Add_exact [of "q_i q" "q_i y" i] assms
    have sum: "amount_val i = amount_val (q_i q) + amount_val (q_i y)" "int64_range (amt_value i)"
      "amt_scale i = amt_scale (q_i q) \<or> amt_scale i = amt_scale (q_i y)"
      by (simp_all add: q_wf_def)
    with s have "\<bar>amt_scale i\<bar> < 2 ^ 30" "int32_range (amt_scale i)" by (auto simp: int32_range_def)
    with sum True i q int show ?thesis
      by (simp add: quantity_Add_def q_val_def q_wf_def scale_ok_def q_scale_def)
  next
    case False
    with i int have "quantity_Add q y = promote_add ?q y"
      by (simp add: quantity_Add_def)
    with promote_add_exact [OF q(2,3) assms(4)] q(1) show ?thesis by simp
  qed
next
  case False
  then show ?thesis
    using promote_add_exact [of "q\<lparr>q_Format := q_Format y\<rparr>" y] promote_add_exact [of q y] assms
    by (auto simp: quantity_Add_def Let_def)
qed

section \<open>Rounding to an integer\<close>

text \<open>The quotient rounded up, for a non-negative dividend.\<close>

definition div_up :: "int \<Rightarrow> int \<Rightarrow> int" where
  "div_up u d = u div d + (if u mod d \<noteq> 0 then 1 else 0)"

lemma ceiling_div_up: "0 < d \<Longrightarrow> \<lceil>(of_int u :: rat) / of_int d\<rceil> = div_up u d"
  using zdiv_zminus1_eq_if [of d u] by (simp add: ceiling_divide_eq_div div_up_def)

lemma trunc_nonneg: "0 \<le> u \<Longrightarrow> 0 < d \<Longrightarrow> u sdiv d = u div d" "0 \<le> u \<Longrightarrow> 0 < d \<Longrightarrow> u smod d = u mod d" for u d :: int
  by (simp_all add: signed_divide_int_def signed_modulo_int_def sgn_if minus_mult_div_eq_mod mult.commute)

lemma scale_down_loop_up:
  assumes "0 < v" "0 < base"
  shows "(case scale_down_loop n base v fr of Inl (r, _) \<Rightarrow> r | Inr (w, f) \<Rightarrow> if f then w + 1 else w) =
    v div 10 ^ n + (if fr \<or> v mod 10 ^ n \<noteq> 0 then 1 else 0)"
  using assms
proof (induction n arbitrary: v fr)
  case (Suc n)
  have trunc: "v sdiv 10 = v div 10" "v smod 10 = v mod 10"
    using Suc.prems trunc_nonneg [of v 10] by simp_all
  have parts: "v div 10 ^ Suc n = v div 10 div 10 ^ n" "v mod 10 ^ Suc n = 10 * (v div 10 mod 10 ^ n) + v mod 10"
    using zdiv_zmult2_eq [of "10 ^ n" v 10] zmod_zmult2_eq [of "10 ^ n" v 10] by simp_all
  show ?case
  proof (cases "v div 10 = 0")
    case True
    then have "v mod 10 \<noteq> 0" using Suc.prems by presburger
    with True parts Suc.prems trunc show ?thesis by (simp add: Let_def)
  next
    case False
    then have "0 < v div 10" using Suc.prems by presburger
    moreover have "v mod 10 \<ge> 0" "v div 10 mod 10 ^ n \<ge> 0" by simp_all
    then have "10 * (v div 10 mod 10 ^ n) + v mod 10 = 0 \<longleftrightarrow> v div 10 mod 10 ^ n = 0 \<and> v mod 10 = 0" by linarith
    ultimately show ?thesis
      using Suc.IH [of "v div 10" "fr \<or> v mod 10 \<noteq> 0"] Suc.prems(2) False
      by (simp add: Let_def trunc parts del: power_Suc)
  qed
qed simp

lemma negativeScaleInt64_up:
  assumes "0 \<le> v" "0 < s" shows "fst (negativeScaleInt64 v s) = div_up v (10 ^ nat s)"
proof (cases "v = 0")
  case True
  obtain n where "nat s = Suc n" using assms(2) by (cases "nat s") auto
  with True assms show ?thesis by (simp add: negativeScaleInt64_def div_up_def)
next
  case False
  with assms scale_down_loop_up [of v v "nat s" False] show ?thesis
    by (auto simp: negativeScaleInt64_def div_up_def split: sum.splits prod.splits if_splits)
qed

lemma powi_neg: "s < 0 \<Longrightarrow> (of_int u :: rat) * 10 powi s = of_int u / of_int (10 ^ nat (- s))"
  by (simp add: power_int_def divide_simps)

lemma powi_nonneg: "0 \<le> s \<Longrightarrow> (of_int u :: rat) * 10 powi s = of_int (u * 10 ^ nat s)"
  by (simp add: power_int_def)

lemma powi_sign: "0 \<le> (of_int u :: rat) * 10 powi s \<longleftrightarrow> 0 \<le> u"
  using zero_less_power_int [of "10 :: rat" s] by (auto simp: zero_le_mult_iff simp del: zero_less_power_int)

text \<open>A number of at most 63 bits, rounded up, is one.\<close>

lemma div_up_bounds:
  assumes "0 \<le> u" "0 < d" "(of_int u :: rat) / of_int d \<le> of_int mostPositive"
  shows "0 \<le> div_up u d" "div_up u d \<le> mostPositive"
proof -
  show "0 \<le> div_up u d" using assms by (simp add: div_up_def pos_imp_zdiv_nonneg_iff)
  show "div_up u d \<le> mostPositive"
    using assms(3) ceiling_div_up [OF assms(2), of u] by (metis ceiling_le_iff)
qed

lemma scaledValue_up:
  assumes u: "0 \<le> u" and small: "dec_val \<lparr>dec_unscaled = u, dec_scale = s\<rparr> \<le> of_int mostPositive"
  shows "scaledValue u s 0 = \<lceil>dec_val \<lparr>dec_unscaled = u, dec_scale = s\<rparr>\<rceil>"
proof (cases "s \<le> 0")
  case True
  have val: "dec_val \<lparr>dec_unscaled = u, dec_scale = s\<rparr> = of_int (u * 10 ^ nat (- s))"
    using True powi_nonneg [of "- s" u] by (simp add: dec_val_def)
  with small have le: "u * 10 ^ nat (- s) \<le> mostPositive" by (metis of_int_le_iff)
  have "u \<le> u * 10 ^ nat (- s)" using u by (simp add: mult_le_cancel_left1)
  with le u have r: "int64_range (u * 10 ^ nat (- s))" "int64_range u" unfolding int64_defs by linarith+
  have "u = 0 \<or> nat (- s) \<le> 18"
  proof (rule ccontr)
    assume "\<not> (u = 0 \<or> nat (- s) \<le> 18)"
    then have "1 \<le> u" "10 ^ 19 \<le> (10 :: int) ^ nat (- s)" using u by (linarith, intro power_increasing) simp_all
    then have "10 ^ 19 \<le> u * 10 ^ nat (- s)" using mult_mono [of 1 u "10 ^ 19" "10 ^ nat (- s)"] by simp
    with le show False by (simp add: mostPositive_def)
  qed
  then have "scaledValue u s 0 = u * 10 ^ nat (- s)"
    using True r u by (auto simp: scaledValue_def pow10_int64_def Let_def)
  then show ?thesis by (simp only: val ceiling_of_int)
next
  case False
  let ?d = "10 ^ nat s :: int"
  have val: "dec_val \<lparr>dec_unscaled = u, dec_scale = s\<rparr> = of_int u / of_int ?d"
    using False powi_neg [of "- s" u] by (simp add: dec_val_def)
  have pos: "0 < ?d" by simp
  note b = div_up_bounds [OF u pos small [unfolded val]]
  then have r: "int64_range (div_up u ?d)" unfolding int64_defs by linarith
  have div: "int64_range (u div ?d)" "u mod ?d \<noteq> 0 \<Longrightarrow> int64_range (u div ?d + 1)"
    using b u pos pos_imp_zdiv_nonneg_iff [OF pos, of u] by (auto simp: int64_defs div_up_def split: if_splits)
  have "scaledValue u s 0 = div_up u ?d"
  proof (cases "u < mostPositive \<and> s < 19")
    case True
    then have "wrap64 u = u" using u by (intro wrap64_id) (simp add: int64_defs)
    moreover have "nat s \<le> 18" using True by linarith
    moreover have "u sdiv ?d = u div ?d" "u smod ?d = u mod ?d"
      using trunc_nonneg [OF u pos] by simp_all
    ultimately show ?thesis using True False by (simp add: scaledValue_def pow10_int64_def Let_def div_up_def)
  next
    case big: False
    with False div show ?thesis by (auto simp: scaledValue_def Let_def div_up_def)
  qed
  then show ?thesis using ceiling_div_up [OF pos, of u] by (simp only: val)
qed

lemma AsScaledInt64_up:
  assumes "int64_range (amt_value a)" "0 \<le> amt_value a" "amount_val a \<le> of_int mostPositive"
    and sc: "\<bar>amt_scale a\<bar> < 2 ^ 31"
  shows "fst (AsScaledInt64 a 0) = \<lceil>amount_val a\<rceil>"
proof (cases "amt_scale a < 0")
  case True
  moreover have "wrap32 (- amt_scale a) = - amt_scale a" using sc by simp
  ultimately show ?thesis
    using assms powi_neg [OF True, of "amt_value a"] ceiling_div_up [of "10 ^ nat (- amt_scale a)" "amt_value a"]
    by (simp add: AsScaledInt64_def negativeScaleInt64_up amount_val_def)
next
  case False
  let ?x = "amt_value a * 10 ^ nat (amt_scale a)"
  have val: "amount_val a = of_int ?x" using False powi_nonneg [of "amt_scale a" "amt_value a"] by (simp add: amount_val_def)
  have "0 \<le> ?x" "?x \<le> mostPositive" using assms(2,3) unfolding val by (simp, metis of_int_le_iff)
  then have "int64_range ?x" unfolding int64_defs by linarith
  moreover have "wrap32 (amt_scale a) = amt_scale a" using sc by simp
  ultimately show ?thesis using positiveScaleInt64_exact(2) [OF assms(1), of "amt_scale a"] False
    by (simp only: val ceiling_of_int AsScaledInt64_def) simp
qed

section \<open>Properties\<close>

text \<open>
  C26: adding two quantities gives exactly the sum of the values they denote, whatever their
  representations, and overflow of the int64 form switches to the decimal form, as long as the scales they
  are held in lie strictly between \<open>- (2 ^ 30)\<close> and \<open>2 ^ 30\<close>; the sum is again such a quantity.
  Without this bound a difference of scales can wrap, and the sum is wrong (\<open>add_scale_wraps\<close>).
\<close>

theorem quantity_Add_exact:
  assumes "q_wf q" "q_wf y" "scale_ok q" "scale_ok y"
  shows "q_val (quantity_Add q y) = q_val q + q_val y \<and> q_wf (quantity_Add q y) \<and> scale_ok (quantity_Add q y)"
  using quantity_Add_sound [OF assms] by blast

theorem quantity_Add_exact_witness:
  "q_val (quantity_Add (NewQuantity 9223372036854775807 ''BinarySI'') (NewMilliQuantity 1500 ''DecimalSI'')) =
     q_val (NewQuantity 9223372036854775807 ''BinarySI'') + q_val (NewMilliQuantity 1500 ''DecimalSI'')"
  using quantity_Add_exact [of "NewQuantity 9223372036854775807 ''BinarySI''" "NewMilliQuantity 1500 ''DecimalSI''"]
  by (simp add: q_wf_def scale_ok_def q_scale_def NewQuantity_def NewMilliQuantity_def int64_defs int32_range_def)

text \<open>
  The bound is needed: the scales of \<open>1e2147483647\<close> and of \<open>1m\<close> differ by more than an int32
  holds, the difference wraps to a negative number, the larger number is not scaled at all, and the sum is
  \<open>2m\<close>, with success.
\<close>

lemma add_scale_wraps:
  "quantity_Add \<lparr>q_i = \<lparr>amt_value = 1, amt_scale = 2147483647\<rparr>, q_d = None, q_Format = f\<rparr> (NewMilliQuantity 1 g) =
     \<lparr>q_i = \<lparr>amt_value = 2, amt_scale = -3\<rparr>, q_d = None, q_Format = f\<rparr>"
  by (simp add: quantity_Add_def amount_Add_def NewMilliQuantity_def wrap32_def positiveScaleInt64_def int64Add_def
      wrap64_def)

text \<open>
  C27: the int64 helpers report every overflow and only overflows: addition, and multiplication by
  a positive scale factor, succeed exactly when the true result is an int64, and then return it.
\<close>

theorem int64_overflow_detected:
  assumes "int64_range a" "int64_range b"
  shows "int64Add a b = (if int64_range (a + b) then (a + b, True) else (0, False)) \<and>
    (1 < b \<longrightarrow> snd (int64MultiplyScale a b) = int64_range (a * b) \<and>
       (int64_range (a * b) \<longrightarrow> fst (int64MultiplyScale a b) = a * b))"
  using int64Add_exact [OF assms] int64MultiplyScale_exact [OF assms(1), of b] assms(2)
  by (simp add: int64_defs)

theorem int64_overflow_detected_witness:
  "int64Add 9223372036854775807 10 = (0, False) \<and> snd (int64MultiplyScale 9223372036854775807 10) = False"
  using int64_overflow_detected [of 9223372036854775807 10] by (simp add: int64_defs)

text \<open>
  The integer value of a quantity that is not negative and fits 63 bits is the value it denotes,
  rounded up, in both representations.
\<close>

lemma quantity_Value_rounds_up:
  assumes "q_wf q" "\<bar>q_scale q\<bar> < 2 ^ 31" "0 \<le> q_val q" "q_val q \<le> of_int mostPositive"
  shows "q_Value q = \<lceil>q_val q\<rceil>"
proof (cases "q_d q")
  case None
  then have "0 \<le> amt_value (q_i q)"
    using assms(3) by (simp add: q_val_def amount_val_def powi_sign)
  with None assms AsScaledInt64_up [of "q_i q"] show ?thesis by (simp add: q_Value_def ScaledValue_def q_val_def q_wf_def q_scale_def)
next
  case (Some d)
  then have "0 \<le> dec_unscaled d"
    using assms(3) by (simp add: q_val_def dec_val_def powi_sign)
  with Some assms scaledValue_up [of "dec_unscaled d" "dec_scale d"] show ?thesis
    by (simp add: q_Value_def ScaledValue_def q_val_def dec_val_def)
qed

end
