(* ===== verification/Api_Objects.thy ===== *)
theory Api_Objects
  imports Quantity
begin

text \<open>
  The API types (\<open>pkg/api/api.go\<close> and the Kubernetes objects it names).  An object
  carries the fields the simulator reads or writes; the renderings of its remaining fields, as the
  template engine prints them, are the table \<open>extra\<close>.  \<open>obj\<close> is Go's
  \<open>interface{}\<close> as the stores see it: a pointer to one of the API types, an
  \<open>ExplicitKey\<close>, or a value with no object metadata (carrying its \<open>%+v\<close>
  rendering).  Pointers are passed by value: the simulator mutates an object only before it
  publishes it (\<open>Bind\<close> works on a copy), so no alias observes a write.
\<close>

section \<open>Kubernetes objects\<close>

record object_meta =
  om_Name :: string
  om_Namespace :: string
  om_UID :: string
  om_Labels :: "(string, string) gomap"

record container =
  ctr_Requests :: "(string, quantity) gomap"

record pod_condition =
  pc_Type :: string
  pc_Status :: string
  pc_Reason :: string
  pc_Message :: string

record pod =
  pod_meta :: object_meta
  pod_NodeName :: string
  pod_SchedulerName :: string
  pod_NodeSelector :: "(string, string) gomap option"
  pod_InitContainers :: "container list"
  pod_Containers :: "container list"
  pod_Phase :: string
  pod_Reason :: string
  pod_Conditions :: "pod_condition list"
  pod_extra :: "(string, string) gomap"

record node =
  node_meta :: object_meta
  node_Capacity :: "(string, quantity) gomap"
  node_Allocatable :: "(string, quantity) gomap"
  node_extra :: "(string, string) gomap"

text \<open>Services, volumes, claims and storage classes: the simulator only moves them around.\<close>

record plain_object =
  po_meta :: object_meta
  po_extra :: "(string, string) gomap"

datatype obj =
    PodO pod
  | NodeO node
  | ServiceO plain_object
  | PVO plain_object
  | PVCO plain_object
  | StorageClassO plain_object
  | ExplicitKeyO string
  | OpaqueO string

text \<open>\<open>meta.Accessor\<close>: the metadata of an object, if it has any.\<close>

fun obj_meta :: "obj \<Rightarrow> object_meta option" where
  "obj_meta (PodO p) = Some (pod_meta p)"
| "obj_meta (NodeO n) = Some (node_meta n)"
| "obj_meta (ServiceO s) = Some (po_meta s)"
| "obj_meta (PVO v) = Some (po_meta v)"
| "obj_meta (PVCO v) = Some (po_meta v)"
| "obj_meta (StorageClassO v) = Some (po_meta v)"
| "obj_meta (ExplicitKeyO k) = None"
| "obj_meta (OpaqueO r) = None"

text \<open>The type assertion \<open>obj.(runtime.Object)\<close>: every API type satisfies it.\<close>

definition is_runtime_object :: "obj \<Rightarrow> bool" where
  "is_runtime_object o' = (obj_meta o' \<noteq> None)"

definition empty_meta :: object_meta where
  "empty_meta = \<lparr>om_Name = [], om_Namespace = [], om_UID = [], om_Labels = []\<rparr>"

definition empty_pod :: pod where
  "empty_pod =
     \<lparr>pod_meta = empty_meta, pod_NodeName = [], pod_SchedulerName = [], pod_NodeSelector = None,
      pod_InitContainers = [], pod_Containers = [], pod_Phase = [], pod_Reason = [], pod_Conditions = [], pod_extra = []\<rparr>"

definition empty_node :: node where
  "empty_node =
     \<lparr>node_meta = empty_meta, node_Capacity = [], node_Allocatable = [], node_extra = []\<rparr>"

definition empty_plain :: plain_object where
  "empty_plain = \<lparr>po_meta = empty_meta, po_extra = []\<rparr>"

section \<open>Resource types\<close>

text \<open>
  \<open>ResourceType\<close> is a Go string type: any string is a value of it, and the six constants
  are the recognised ones.
\<close>

type_synonym resource_type = string

definition Pods :: resource_type where "Pods = ''pods''"
definition PersistentVolumes :: resource_type where "PersistentVolumes = ''persistentvolumes''"
definition Nodes :: resource_type where "Nodes = ''nodes''"
definition Services :: resource_type where "Services = ''services''"
definition PersistentVolumeClaims :: resource_type where
  "PersistentVolumeClaims = ''persistentvolumeclaims''"
definition StorageClasses :: resource_type where "StorageClasses = ''storageclasses''"

definition ResourceType_String :: "resource_type \<Rightarrow> string" where
  "ResourceType_String r = r"

definition ObjectType :: "resource_type \<Rightarrow> obj option" where
  "ObjectType r =
     (if r = ''pods'' then Some (PodO empty_pod)
      else if r = ''persistentvolumes'' then Some (PVO empty_plain)
      else if r = ''nodes'' then Some (NodeO empty_node)
      else if r = ''services'' then Some (ServiceO empty_plain)
      else if r = ''persistentvolumeclaims'' then Some (PVCO empty_plain)
      else if r = ''storageclasses'' then Some (StorageClassO empty_plain)
      else None)"

definition StringToResourceType :: "string \<Rightarrow> resource_type outcome" where
  "StringToResourceType s =
     (if s = ''pods'' then Ok Pods
      else if s = ''persistentvolumes'' then Ok PersistentVolumes
      else if s = ''nodes'' then Ok Nodes
      else if s = ''services'' then Ok Services
      else if s = ''persistentvolumeclaims'' then Ok PersistentVolumeClaims
      else if s = ''storageclasses'' then Ok StorageClasses
      else Err (''Resource type '' @ s @ '' not recognized''))"

text \<open>One entry of the simulation file: a pod template and how many pods to make of it.\<close>

record simulation_pod =
  sp_Name :: string
  sp_Pod :: pod
  sp_Num :: int

text \<open>
  What the serialisers encode: one object or a list (whose \<open>ResourceVersion\<close> is always
  the literal 0).  The encoder comes from apimachinery's codec factory and is a parameter of the
  model: \<open>None\<close> when no JSON serialiser is registered; an object it cannot encode is
  \<open>None\<close> of the inner option, on which \<open>EncodeOrDie\<close> panics.
\<close>

datatype runtime_object = ROSingle obj | ROList resource_type "obj list"

type_synonym encoder = "(runtime_object \<Rightarrow> string option) option"

definition ContentTypeJSON :: string where
  "ContentTypeJSON = ''application/json''"

definition EncodeOrDie :: "encoder \<Rightarrow> runtime_object \<Rightarrow> string outcome" where
  "EncodeOrDie enc ro =
     (case enc of
        None \<Rightarrow> Err (''serializer for '' @ ContentTypeJSON @ '' not registered'')
      | Some f \<Rightarrow> (case f ro of Some s \<Rightarrow> Ok s | None \<Rightarrow> Panic ''encode''))"

section \<open>Typing of objects by resource type\<close>

definition has_type :: "resource_type \<Rightarrow> obj \<Rightarrow> bool" where
  "has_type r o' =
     (case o' of
        PodO _ \<Rightarrow> r = Pods
      | NodeO _ \<Rightarrow> r = Nodes
      | ServiceO _ \<Rightarrow> r = Services
      | PVO _ \<Rightarrow> r = PersistentVolumes
      | PVCO _ \<Rightarrow> r = PersistentVolumeClaims
      | StorageClassO _ \<Rightarrow> r = StorageClasses
      | _ \<Rightarrow> False)"

lemmas resource_type_defs =
  Pods_def PersistentVolumes_def Nodes_def Services_def PersistentVolumeClaims_def StorageClasses_def

lemma resource_types_distinct [simp]:
  "distinct [Pods, PersistentVolumeClaims, Nodes, PersistentVolumes, Services, StorageClasses]"
  by (simp add: resource_type_defs)

lemmas resource_type_neqs [simp] =
  resource_types_distinct [unfolded distinct.simps list.set insert_iff, simplified]

lemma has_type_runtime [simp, intro]: "has_type r o' \<Longrightarrow> is_runtime_object o'"
  by (cases o') (auto simp: has_type_def is_runtime_object_def)

lemma has_type_meta: "has_type r o' \<Longrightarrow> \<exists>m. obj_meta o' = Some m"
  by (cases o') (auto simp: has_type_def)

lemma StringToResourceType_Ok_iff:
  "StringToResourceType s = Ok r \<longleftrightarrow> r = s \<and> ObjectType s \<noteq> None"
proof (cases "ObjectType s")
  case None
  then show ?thesis
    by (simp add: StringToResourceType_def ObjectType_def split: if_splits)
next
  case (Some o')
  then have "StringToResourceType s = Ok s"
    unfolding StringToResourceType_def ObjectType_def resource_type_defs
    by (simp only: split: if_splits) simp_all
  with Some show ?thesis by auto
qed

lemma StringToResourceType_no_panic: "\<not> panics (StringToResourceType s)"
  by (simp add: StringToResourceType_def)

text \<open>Every recognised name yields a zero object of exactly that resource type.\<close>

lemma ObjectType_has_type: "ObjectType r = Some o' \<Longrightarrow> has_type r o'"
  by (auto simp: ObjectType_def has_type_def resource_type_defs split: if_splits)

section \<open>Properties\<close>

text \<open>
  A string is a resource type exactly when it has a zero object; the parsed type is the string
  itself and the zero object has that type.
\<close>

lemma resource_type_object:
  "(StringToResourceType s = Ok r \<longleftrightarrow> r = s \<and> (\<exists>o'. ObjectType s = Some o' \<and> has_type s o')) \<and>
   \<not> panics (StringToResourceType s)"
  using StringToResourceType_Ok_iff [of s r] ObjectType_has_type StringToResourceType_no_panic by auto

end
