(* ===== verification/Object_Cache.thy ===== *)
theory Object_Cache
  imports Api_Objects
begin

text \<open>
  The object cache under every resource store (package \<open>cache\<close> of client-go):
  \<open>MetaNamespaceKeyFunc\<close>, its inverse, and the keyed map \<open>threadSafeMap\<close>
  behind \<open>cache.Store\<close>.  The stores of the simulator have no indexers, so the index
  maintenance of \<open>threadSafeMap\<close> has nothing to do; each operation runs under the
  store's lock and is one atomic step.  The locale \<open>object_store\<close> is the contract of
  \<open>cache.Store\<close> that its clients use; the cache interprets it.
\<close>

section \<open>Keys\<close>

definition MetaNamespaceKeyFunc :: "obj \<Rightarrow> string outcome" where
  "MetaNamespaceKeyFunc o' =
     (case o' of
        ExplicitKeyO k \<Rightarrow> Ok k
      | _ \<Rightarrow>
        (case obj_meta o' of
           None \<Rightarrow> Err ''object has no meta: object does not implement the Object interfaces''
         | Some m \<Rightarrow>
             (if length (om_Namespace m) > 0 then Ok (om_Namespace m @ ''/'' @ om_Name m)
              else Ok (om_Name m))))"

definition SplitMetaNamespaceKey :: "string \<Rightarrow> (string \<times> string) outcome" where
  "SplitMetaNamespaceKey key =
     (case Split (CHR ''/'') key of
        [name] \<Rightarrow> Ok ([], name)
      | [namespace, name] \<Rightarrow> Ok (namespace, name)
      | _ \<Rightarrow> Err (''unexpected key format: '' @ go_quote key))"

text \<open>The \<open>%+v\<close> rendering of an object without metadata, and the error wrapping it.\<close>

definition KeyError :: "obj \<Rightarrow> go_error \<Rightarrow> go_error" where
  "KeyError o' e =
     ''couldn't create key for object '' @ (case o' of OpaqueO r \<Rightarrow> r | _ \<Rightarrow> []) @ '': '' @ e"

section \<open>The store\<close>

type_synonym cache_store = "(string, obj) gomap"

definition NewStore :: cache_store where
  "NewStore = []"

definition cache_Add :: "cache_store \<Rightarrow> obj \<Rightarrow> cache_store \<times> unit outcome" where
  "cache_Add c o' =
     (case MetaNamespaceKeyFunc o' of
        Ok key \<Rightarrow> (AList.update key o' c, Ok ())
      | Err e \<Rightarrow> (c, Err (KeyError o' e))
      | Panic p \<Rightarrow> (c, Panic p))"

definition cache_Update :: "cache_store \<Rightarrow> obj \<Rightarrow> cache_store \<times> unit outcome" where
  "cache_Update c o' =
     (case MetaNamespaceKeyFunc o' of
        Ok key \<Rightarrow> (AList.update key o' c, Ok ())
      | Err e \<Rightarrow> (c, Err (KeyError o' e))
      | Panic p \<Rightarrow> (c, Panic p))"

definition cache_Delete :: "cache_store \<Rightarrow> obj \<Rightarrow> cache_store \<times> unit outcome" where
  "cache_Delete c o' =
     (case MetaNamespaceKeyFunc o' of
        Ok key \<Rightarrow> (if map_of c key \<noteq> None then AList.delete key c else c, Ok ())
      | Err e \<Rightarrow> (c, Err (KeyError o' e))
      | Panic p \<Rightarrow> (c, Panic p))"

definition cache_List :: "cache_store \<Rightarrow> obj list" where
  "cache_List c = map snd c"

definition cache_GetByKey :: "cache_store \<Rightarrow> string \<Rightarrow> obj option outcome" where
  "cache_GetByKey c key = Ok (map_of c key)"

definition cache_Get :: "cache_store \<Rightarrow> obj \<Rightarrow> obj option outcome" where
  "cache_Get c o' =
     (case MetaNamespaceKeyFunc o' of
        Ok key \<Rightarrow> cache_GetByKey c key
      | Err e \<Rightarrow> Err (KeyError o' e)
      | Panic p \<Rightarrow> Panic p)"

text \<open>
  \<open>Replace\<close> builds the new contents first and installs them only if every item has a
  key.
\<close>

fun replace_items :: "obj list \<Rightarrow> cache_store \<Rightarrow> cache_store outcome" where
  "replace_items [] items = Ok items"
| "replace_items (o' # os) items =
     (case MetaNamespaceKeyFunc o' of
        Ok key \<Rightarrow> replace_items os (AList.update key o' items)
      | Err e \<Rightarrow> Err (KeyError o' e)
      | Panic p \<Rightarrow> Panic p)"

definition cache_Replace :: "cache_store \<Rightarrow> obj list \<Rightarrow> cache_store \<times> unit outcome" where
  "cache_Replace c os =
     (case replace_items os [] of
        Ok items \<Rightarrow> (items, Ok ())
      | Err e \<Rightarrow> (c, Err e)
      | Panic p \<Rightarrow> (c, Panic p))"

section \<open>The contract of a keyed object store\<close>

locale object_store =
  fixes key :: "'o \<Rightarrow> 'k option"
    and empty :: 's
    and put :: "'o \<Rightarrow> 's \<Rightarrow> 's"
    and del :: "'o \<Rightarrow> 's \<Rightarrow> 's"
    and get :: "'s \<Rightarrow> 'k \<Rightarrow> 'o option"
    and objs :: "'s \<Rightarrow> 'o list"
    and invar :: "'s \<Rightarrow> bool"
  assumes get_empty: "get empty = (\<lambda>_. None)"
    and get_put: "invar s \<Longrightarrow> key x = Some k \<Longrightarrow> get (put x s) = (get s)(k \<mapsto> x)"
    and get_del: "invar s \<Longrightarrow> key x = Some k \<Longrightarrow> get (del x s) = (get s)(k := None)"
    and no_key: "key x = None \<Longrightarrow> put x s = s \<and> del x s = s"
    and key_get: "invar s \<Longrightarrow> get s k = Some x \<Longrightarrow> key x = Some k"
    and set_objs: "invar s \<Longrightarrow> set (objs s) = ran (get s)"
    and distinct_objs: "invar s \<Longrightarrow> distinct (map key (objs s))"
    and invar_empty: "invar empty"
    and invar_put: "invar s \<Longrightarrow> invar (put x s)"
    and invar_del: "invar s \<Longrightarrow> invar (del x s)"
begin

lemma invar_fold_put: "invar s \<Longrightarrow> invar (fold put xs s)"
  by (induction xs arbitrary: s) (auto simp: invar_put)

lemma put_twice: "invar s \<Longrightarrow> key x = key y \<Longrightarrow> get (put y (put x s)) = get (put y s)"
  by (cases "key y") (auto simp: no_key get_put invar_put)

lemma del_put: "invar s \<Longrightarrow> key x = Some k \<Longrightarrow> get s k = None \<Longrightarrow> get (del x (put x s)) = get s"
  by (auto simp: get_del get_put invar_put)

lemma objs_put:
  assumes "invar s" "key x = Some k"
  shows "set (objs (put x s)) = insert x {y \<in> set (objs s). key y \<noteq> Some k}"
proof -
  have "set (objs (put x s)) = ran ((get s)(k \<mapsto> x))"
    using assms by (simp add: set_objs invar_put get_put)
  also have "\<dots> = insert x {y \<in> ran (get s). key y \<noteq> Some k}"
    using key_get [OF assms(1)] by (auto simp: ran_def split: if_splits)
  finally show ?thesis using assms by (simp add: set_objs)
qed

lemma fold_put_other:
  "invar s \<Longrightarrow> \<forall>x \<in> set xs. key x \<noteq> Some k \<Longrightarrow> get (fold put xs s) k = get s k"
proof (induction xs arbitrary: s)
  case (Cons x xs)
  then have "get (put x s) k = get s k"
    by (cases "key x") (auto simp: no_key get_put)
  with Cons show ?case by (simp add: invar_put)
qed simp

lemma fold_put_member:
  assumes "invar s" "distinct (map key xs)" "x \<in> set xs" "key x = Some k"
  shows "get (fold put xs s) k = Some x"
  using assms
proof (induction xs arbitrary: s)
  case (Cons y ys)
  show ?case
  proof (cases "x = y")
    case True
    with Cons.prems have "\<forall>z \<in> set ys. key z \<noteq> Some k" by force
    with True Cons.prems show ?thesis by (simp add: fold_put_other invar_put get_put)
  qed (use Cons in \<open>auto simp: invar_put\<close>)
qed simp

text \<open>
  Re-adding everything a store lists, onto any part of its contents, gives its contents back: a
  reader that lists and then receives the same objects again is not confused.
\<close>

lemma rebuild:
  assumes s: "invar s" and t: "invar t" and sub: "get t \<subseteq>\<^sub>m get s"
  shows "get (fold put (objs s) t) = get s"
proof
  fix k
  show "get (fold put (objs s) t) k = get s k"
  proof (cases "get s k")
    case None
    then have "get t k = None" using sub by (metis domIff map_le_def)
    moreover have "\<forall>x \<in> set (objs s). key x \<noteq> Some k"
      using None key_get [OF s] s by (auto simp: set_objs ran_def)
    ultimately show ?thesis using None t by (simp add: fold_put_other)
  next
    case (Some x)
    then have "x \<in> set (objs s)" using s by (auto simp: set_objs ran_def)
    with Some show ?thesis
      using fold_put_member [OF t distinct_objs [OF s]] key_get [OF s] by simp
  qed
qed

end

section \<open>The cache keeps the contract\<close>

definition obj_key :: "obj \<Rightarrow> string option" where
  "obj_key o' = (case MetaNamespaceKeyFunc o' of Ok k \<Rightarrow> Some k | _ \<Rightarrow> None)"

definition cache_wf :: "cache_store \<Rightarrow> bool" where
  "cache_wf c = (gomap_wf c \<and> (\<forall>(k, o') \<in> set c. obj_key o' = Some k))"

lemma MetaNamespaceKeyFunc_no_panic [simp]: "MetaNamespaceKeyFunc o' \<noteq> Panic p"
  by (simp add: MetaNamespaceKeyFunc_def split: obj.split option.split)

lemma obj_key_None: "obj_key o' = None \<longleftrightarrow> (\<exists>e. MetaNamespaceKeyFunc o' = Err e)"
  by (cases "MetaNamespaceKeyFunc o'") (simp_all add: obj_key_def)

lemma obj_key_meta:
  "obj_meta o' = Some m \<Longrightarrow>
     obj_key o' = Some (if om_Namespace m = [] then om_Name m else om_Namespace m @ ''/'' @ om_Name m)"
  by (cases o') (auto simp: obj_key_def MetaNamespaceKeyFunc_def)

lemma runtime_object_has_key: "is_runtime_object o' \<Longrightarrow> \<exists>k. obj_key o' = Some k"
  by (auto simp: is_runtime_object_def obj_key_meta)

lemma cache_Add_state: "fst (cache_Add c o') =
    (case obj_key o' of Some k \<Rightarrow> AList.update k o' c | None \<Rightarrow> c)"
  by (cases "MetaNamespaceKeyFunc o'") (simp_all add: cache_Add_def obj_key_def)

lemma cache_Update_Add: "cache_Update = cache_Add"
  by (intro ext) (simp add: cache_Update_def cache_Add_def)

lemma cache_Delete_state: "fst (cache_Delete c o') =
    (case obj_key o' of Some k \<Rightarrow> AList.delete k c | None \<Rightarrow> c)"
  by (cases "MetaNamespaceKeyFunc o'")
    (auto simp: cache_Delete_def obj_key_def delete_idem map_of_eq_None_iff image_iff)

lemma cache_outcome:
  "snd (cache_Add c o') = Ok () \<longleftrightarrow> obj_key o' \<noteq> None"
  "snd (cache_Delete c o') = Ok () \<longleftrightarrow> obj_key o' \<noteq> None"
  by (cases "MetaNamespaceKeyFunc o'"; simp add: cache_Add_def cache_Delete_def obj_key_def)+

lemma cache_no_panic [simp]:
  "snd (cache_Add c o') \<noteq> Panic p" "snd (cache_Delete c o') \<noteq> Panic p"
  by (cases "MetaNamespaceKeyFunc o'"; simp add: cache_Add_def cache_Delete_def)+

lemma cache_wf_empty [simp]: "cache_wf []"
  by (simp add: cache_wf_def)

lemma cache_wf_update:
  "cache_wf c \<Longrightarrow> obj_key o' = Some k \<Longrightarrow> cache_wf (AList.update k o' c)"
  using set_map_of_compr [of "AList.update k o' c"]
  by (auto simp: cache_wf_def split: if_splits)

lemma cache_wf_delete: "cache_wf c \<Longrightarrow> cache_wf (AList.delete k c)"
  unfolding cache_wf_def using gomap_wf_delete [of c k] by (auto simp: AList.delete_eq)

lemma cache_wf_distinct_keys: "cache_wf c \<Longrightarrow> distinct (map obj_key (map snd c))"
proof -
  assume c: "cache_wf c"
  then have "map obj_key (map snd c) = map (Some \<circ> fst) c"
    by (auto simp: cache_wf_def)
  also have "distinct \<dots>" using c by (auto simp: cache_wf_def distinct_map comp_inj_on)
  finally show ?thesis .
qed

interpretation kc: object_store obj_key NewStore "\<lambda>x s. fst (cache_Add s x)"
  "\<lambda>x s. fst (cache_Delete s x)" map_of cache_List cache_wf
proof (unfold_locales, goal_cases)
  case (5 s k x)
  then show ?case by (auto simp: cache_wf_def dest!: map_of_SomeD)
next
  case (6 s)
  then show ?case by (simp add: cache_List_def cache_wf_def ran_distinct)
next
  case (7 s)
  then show ?case by (simp add: cache_List_def cache_wf_distinct_keys del: map_map)
next
  case (9 s x)
  then show ?case by (simp add: cache_Add_state cache_wf_update split: option.split)
next
  case (10 s x)
  then show ?case by (simp add: cache_Delete_state cache_wf_delete split: option.split)
qed (simp_all add: cache_Add_state cache_Delete_state NewStore_def)

section \<open>Replace, and the key round trip\<close>

lemma replace_items_Ok:
  "replace_items os c = Ok c' \<longleftrightarrow>
     (\<forall>x \<in> set os. obj_key x \<noteq> None) \<and> c' = fold (\<lambda>x s. fst (cache_Add s x)) os c"
  by (induction os arbitrary: c)
    (auto simp: cache_Add_state obj_key_def split: outcome.splits)

lemma replace_items_no_panic: "replace_items os c \<noteq> Panic p"
  by (induction os arbitrary: c) (auto split: outcome.split)

lemma cache_Replace_wf: "cache_wf c \<Longrightarrow> cache_wf (fst (cache_Replace c os))"
  using kc.invar_fold_put [of "[]" os]
  by (auto simp: cache_Replace_def replace_items_Ok split: outcome.split)

lemma cache_Replace_contents:
  assumes "cache_wf c" "\<forall>x \<in> set os. \<exists>k. obj_key x = Some k" "distinct (map obj_key os)"
  shows "snd (cache_Replace c os) = Ok () \<and> cache_wf (fst (cache_Replace c os)) \<and>
    set (cache_List (fst (cache_Replace c os))) = set os \<and>
    (\<forall>x \<in> set os. \<forall>k. obj_key x = Some k \<longrightarrow> map_of (fst (cache_Replace c os)) k = Some x)"
proof -
  let ?c = "fold (\<lambda>x s. fst (cache_Add s x)) os []"
  have rep: "cache_Replace c os = (?c, Ok ())"
    using replace_items_Ok [of os "[]" ?c] assms(2) by (auto simp: cache_Replace_def)
  have found: "map_of ?c k = Some x" if "x \<in> set os" "obj_key x = Some k" for x k
    using kc.fold_put_member [of "[]" os x k] assms(3) that by simp
  have wf: "cache_wf ?c" using kc.invar_fold_put [of "[]" os] by simp
  have "x \<in> set os" if "map_of ?c k = Some x" for k x
  proof -
    have "\<not> (\<forall>y \<in> set os. obj_key y \<noteq> Some k)"
      using that kc.fold_put_other [of "[]" os k] by auto
    then obtain y where y: "y \<in> set os" "obj_key y = Some k" by blast
    with found [OF y] that show ?thesis by simp
  qed
  then have "ran (map_of ?c) \<subseteq> set os" unfolding ran_def by blast
  moreover have "set os \<subseteq> ran (map_of ?c)"
  proof
    fix x assume x: "x \<in> set os"
    with assms(2) obtain k where "obj_key x = Some k" by blast
    from found [OF x this] show "x \<in> ran (map_of ?c)" by (rule ranI)
  qed
  ultimately have objs: "set (cache_List ?c) = set os" unfolding kc.set_objs [OF wf] by blast
  show ?thesis unfolding rep using wf objs found by simp
qed

lemma cache_Get_stored:
  "snd (cache_Add c o') = Ok () \<Longrightarrow> cache_Get (fst (cache_Add c o')) o' = Ok (Some o')"
  by (cases "MetaNamespaceKeyFunc o'")
    (simp_all add: cache_Add_def cache_Get_def cache_GetByKey_def)

text \<open>
  Splitting undoes key making for names and namespaces without a slash, which is what the API
  server admits.
\<close>

lemma key_split_roundtrip:
  assumes "obj_meta o' = Some m"
    and "CHR ''/'' \<notin> set (om_Namespace m)" and "CHR ''/'' \<notin> set (om_Name m)"
  shows "bind_outcome (MetaNamespaceKeyFunc o') SplitMetaNamespaceKey =
    Ok (om_Namespace m, om_Name m)"
proof -
  have "MetaNamespaceKeyFunc o' =
      Ok (if om_Namespace m = [] then om_Name m else om_Namespace m @ ''/'' @ om_Name m)"
    using obj_key_meta [OF assms(1)]
    by (cases "MetaNamespaceKeyFunc o'") (auto simp: obj_key_def)
  with assms show ?thesis
    by (auto simp: SplitMetaNamespaceKey_def Split_no_sep Split_append_sep)
qed

end
