(* ===== verification/Resource_Store.thy ===== *)
theory Resource_Store
  imports Object_Cache
begin

text \<open>
  The resource store (\<open>resourceStore\<close> in \<open>pkg/framework/store/store.go\<close>): one
  object cache per recognised resource type and an optional event handler per type, called after
  every change.  Handlers act on an environment of type \<open>'e\<close> (in the simulator, the watch
  state of the REST client) and return nothing; \<open>Inl\<close> is a panic inside the handler.  The
  struct's five cache fields and the entries of \<open>resourceToCache\<close> are the same pointers,
  so the map alone is the state.  \<open>resource_store_api\<close> is the part of the interface
  \<open>ResourceStore\<close> that writers rely on; \<open>Add\<close> and \<open>Update\<close> both
  interpret it.
\<close>

record 'e event_handler =
  OnAdd :: "obj \<Rightarrow> 'e \<Rightarrow> string + 'e"
  OnUpdate :: "obj \<Rightarrow> 'e \<Rightarrow> string + 'e"
  OnDelete :: "obj \<Rightarrow> 'e \<Rightarrow> string + 'e"

record 'e resource_store =
  resourceToCache :: "(resource_type, cache_store) gomap"
  eventHandler :: "(resource_type, 'e event_handler) gomap"

type_synonym 'e rs_state = "'e resource_store \<times> 'e"

definition not_recognized :: "resource_type \<Rightarrow> go_error" where
  "not_recognized r = ''Resource '' @ r @ '' not recognized''"

definition set_cache :: "resource_type \<Rightarrow> cache_store \<Rightarrow> 'e resource_store \<Rightarrow> 'e resource_store" where
  "set_cache r c s = s\<lparr>resourceToCache := AList.update r c (resourceToCache s)\<rparr>"

text \<open>Call a handler on the environment: a panic keeps the state reached so far.\<close>

definition run_handler :: "(obj \<Rightarrow> 'e \<Rightarrow> string + 'e) \<Rightarrow> obj \<Rightarrow> 'e rs_state \<Rightarrow> 'e rs_state \<times> unit outcome" where
  "run_handler h o' st =
     (case h o' (snd st) of Inr e' \<Rightarrow> ((fst st, e'), Ok ()) | Inl p \<Rightarrow> (st, Panic p))"

definition rs_Add :: "resource_type \<Rightarrow> obj \<Rightarrow> 'e rs_state \<Rightarrow> 'e rs_state \<times> unit outcome" where
  "rs_Add r o' st =
     (case map_of (resourceToCache (fst st)) r of
        None \<Rightarrow> (st, Err (not_recognized r))
      | Some cacheL \<Rightarrow>
          (case cache_Add cacheL o' of
             (c, Err e) \<Rightarrow> (st, Err (''Unable to add '' @ r @ '': '' @ e))
           | (c, Panic p) \<Rightarrow> (st, Panic p)
           | (c, Ok _) \<Rightarrow>
               (let st' = (set_cache r c (fst st), snd st) in
                case map_of (eventHandler (fst st)) r of
                  None \<Rightarrow> (st', Ok ())
                | Some h \<Rightarrow> run_handler (OnAdd h) o' st')))"

definition rs_Update :: "resource_type \<Rightarrow> obj \<Rightarrow> 'e rs_state \<Rightarrow> 'e rs_state \<times> unit outcome" where
  "rs_Update r o' st =
     (case map_of (resourceToCache (fst st)) r of
        None \<Rightarrow> (st, Err (not_recognized r))
      | Some cacheL \<Rightarrow>
          (case cache_Update cacheL o' of
             (c, Err e) \<Rightarrow> (st, Err (''Unable to update '' @ r @ '': '' @ e))
           | (c, Panic p) \<Rightarrow> (st, Panic p)
           | (c, Ok _) \<Rightarrow>
               (let st' = (set_cache r c (fst st), snd st) in
                case map_of (eventHandler (fst st)) r of
                  None \<Rightarrow> (st', Ok ())
                | Some h \<Rightarrow> run_handler (OnUpdate h) o' st')))"

definition rs_Delete :: "resource_type \<Rightarrow> obj \<Rightarrow> 'e rs_state \<Rightarrow> 'e rs_state \<times> unit outcome" where
  "rs_Delete r o' st =
     (case map_of (resourceToCache (fst st)) r of
        None \<Rightarrow> (st, Err (not_recognized r))
      | Some cacheL \<Rightarrow>
          (case cache_Delete cacheL o' of
             (c, Err e) \<Rightarrow> (st, Err (''Unable to delete '' @ r @ '': '' @ e))
           | (c, Panic p) \<Rightarrow> (st, Panic p)
           | (c, Ok _) \<Rightarrow>
               (let st' = (set_cache r c (fst st), snd st) in
                case map_of (eventHandler (fst st)) r of
                  None \<Rightarrow> (st', Ok ())
                | Some h \<Rightarrow> run_handler (OnDelete h) o' st')))"

definition rs_List :: "resource_type \<Rightarrow> 'e resource_store \<Rightarrow> obj list" where
  "rs_List r s = (case map_of (resourceToCache s) r of Some c \<Rightarrow> cache_List c | None \<Rightarrow> [])"

definition rs_Get :: "resource_type \<Rightarrow> obj \<Rightarrow> 'e resource_store \<Rightarrow> obj option outcome" where
  "rs_Get r o' s =
     (case map_of (resourceToCache s) r of
        None \<Rightarrow> Err (not_recognized r)
      | Some c \<Rightarrow> cache_Get c o')"

definition rs_GetByKey :: "resource_type \<Rightarrow> string \<Rightarrow> 'e resource_store \<Rightarrow> obj option outcome" where
  "rs_GetByKey r key s =
     (case map_of (resourceToCache s) r of
        None \<Rightarrow> Err (not_recognized r)
      | Some c \<Rightarrow> cache_GetByKey c key)"

definition RegisterEventHandler ::
    "resource_type \<Rightarrow> 'e event_handler \<Rightarrow> 'e resource_store \<Rightarrow> 'e resource_store" where
  "RegisterEventHandler r h s = s\<lparr>eventHandler := AList.update r h (eventHandler s)\<rparr>"

fun emit_adds :: "'e event_handler \<Rightarrow> obj list \<Rightarrow> 'e rs_state \<Rightarrow> 'e rs_state \<times> unit outcome" where
  "emit_adds h [] st = (st, Ok ())"
| "emit_adds h (o' # os) st =
     (case run_handler (OnAdd h) o' st of
        (st', Ok _) \<Rightarrow> emit_adds h os st'
      | (st', r) \<Rightarrow> (st', r))"

definition rs_Replace :: "resource_type \<Rightarrow> obj list \<Rightarrow> 'e rs_state \<Rightarrow> 'e rs_state \<times> unit outcome" where
  "rs_Replace r items st =
     (case map_of (resourceToCache (fst st)) r of
        None \<Rightarrow> (st, Err (not_recognized r))
      | Some cacheL \<Rightarrow>
          (case cache_Replace cacheL items of
             (c, Ok _) \<Rightarrow>
               (let st' = (set_cache r c (fst st), snd st) in
                case map_of (eventHandler (fst st)) r of
                  None \<Rightarrow> (st', Ok ())
                | Some h \<Rightarrow> emit_adds h items st')
           | (c, x) \<Rightarrow> (st, x)))"

definition Resources :: "'e resource_store \<Rightarrow> resource_type list" where
  "Resources s = map fst (resourceToCache s)"

definition NewResourceStore :: "'e resource_store" where
  "NewResourceStore =
     \<lparr>resourceToCache =
        [(Pods, NewStore), (PersistentVolumeClaims, NewStore), (Nodes, NewStore),
         (PersistentVolumes, NewStore), (Services, NewStore)],
      eventHandler = []\<rparr>"

text \<open>
  \<open>NewResourceReflectors\<close>: one reflector after the other, each filling the cache of its
  resource type.  A reflector (\<open>client-go\<close>) is the parameter \<open>run\<close>: the cache when its
  \<open>Run\<close> returns, or \<open>None\<close> when it does not, which is so as long as the stop channel is
  open.
\<close>

type_synonym reflector = "resource_type \<Rightarrow> obj option \<Rightarrow> cache_store \<Rightarrow> cache_store option"

fun reflect :: "reflector \<Rightarrow> resource_type list \<Rightarrow> 'e resource_store \<Rightarrow> 'e resource_store option" where
  "reflect run [] s = Some s"
| "reflect run (r # rs) s =
     (case run r (ObjectType r) (case map_of (resourceToCache s) r of Some c \<Rightarrow> c | None \<Rightarrow> NewStore) of
        None \<Rightarrow> None
      | Some c \<Rightarrow> reflect run rs (set_cache r c s))"

definition NewResourceReflectors :: "reflector \<Rightarrow> 'e resource_store option" where
  "NewResourceReflectors run = (let s = NewResourceStore in reflect run (Resources s) s)"

text \<open>One reflector that does not return is enough: the store is never handed out.\<close>

lemma reflectors_block:
  assumes "\<And>c. run r (ObjectType r) c = None" "r \<in> set (Resources (NewResourceStore :: 'e resource_store))"
  shows "(NewResourceReflectors run :: 'e resource_store option) = None"
proof -
  have "r \<in> set rs \<Longrightarrow> reflect run rs s = None" for rs s
    by (induction rs arbitrary: s) (auto simp: assms(1) split: option.split)
  then show ?thesis using assms(2) by (simp add: NewResourceReflectors_def Let_def)
qed

section \<open>Invariants\<close>

text \<open>Well-formed: distinct types, every cache keyed by its objects' own keys.\<close>

definition rs_wf :: "'e resource_store \<Rightarrow> bool" where
  "rs_wf s = (gomap_wf (resourceToCache s) \<and> (\<forall>(r, c) \<in> set (resourceToCache s). cache_wf c))"

text \<open>Typed: a cache holds objects of its own resource type only.\<close>

definition rs_typed :: "'e resource_store \<Rightarrow> bool" where
  "rs_typed s = (\<forall>(r, c) \<in> set (resourceToCache s). \<forall>o' \<in> set (cache_List c). has_type r o')"

text \<open>
  The handlers of a store never panic on API objects in an environment that satisfies
  \<open>I\<close>, and keep \<open>I\<close>.
\<close>

definition handlers_safe :: "('e \<Rightarrow> bool) \<Rightarrow> 'e resource_store \<Rightarrow> bool" where
  "handlers_safe I s =
     (\<forall>(r, h) \<in> set (eventHandler s). \<forall>o' e. is_runtime_object o' \<longrightarrow> I e \<longrightarrow>
        (\<exists>e'. OnAdd h o' e = Inr e' \<and> I e') \<and> (\<exists>e'. OnUpdate h o' e = Inr e' \<and> I e') \<and>
        (\<exists>e'. OnDelete h o' e = Inr e' \<and> I e'))"

definition rs_lookup :: "'e resource_store \<Rightarrow> resource_type \<Rightarrow> string \<Rightarrow> obj option" where
  "rs_lookup s r k = (case map_of (resourceToCache s) r of None \<Rightarrow> None | Some c \<Rightarrow> map_of c k)"

text \<open>
  The stores the program can reach: it writes objects only under their own type
  (\<open>New\<close>, \<open>nextPod\<close> and the strategy do), deletes, replaces, and registers
  handlers.
\<close>

inductive rs_step :: "'e rs_state \<Rightarrow> 'e rs_state \<Rightarrow> bool" where
  step_Add: "has_type r o' \<Longrightarrow> rs_step st (fst (rs_Add r o' st))"
| step_Update: "has_type r o' \<Longrightarrow> rs_step st (fst (rs_Update r o' st))"
| step_Delete: "rs_step st (fst (rs_Delete r o' st))"
| step_Replace: "list_all (has_type r) os \<Longrightarrow> rs_step st (fst (rs_Replace r os st))"
| step_Register: "rs_step st (RegisterEventHandler r h (fst st), snd st)"

inductive rs_reach :: "'e \<Rightarrow> 'e rs_state \<Rightarrow> bool" for e0 where
  reach_new: "rs_reach e0 (NewResourceStore, e0)"
| reach_step: "rs_reach e0 st \<Longrightarrow> rs_step st st' \<Longrightarrow> rs_reach e0 st'"

section \<open>The contract writers rely on\<close>

locale resource_store_api =
  fixes wr :: "resource_type \<Rightarrow> obj \<Rightarrow> 'w \<Rightarrow> 'w \<times> unit outcome"
    and lookup :: "'w \<Rightarrow> resource_type \<Rightarrow> string \<Rightarrow> obj option"
    and known :: "'w \<Rightarrow> resource_type list"
    and good :: "'w \<Rightarrow> bool"
  assumes write_ok:
      "good w \<Longrightarrow> r \<in> set (known w) \<Longrightarrow> is_runtime_object x \<Longrightarrow> obj_key x = Some k \<Longrightarrow>
         snd (wr r x w) = Ok () \<and> good (fst (wr r x w)) \<and>
         known (fst (wr r x w)) = known w \<and>
         lookup (fst (wr r x w)) = (lookup w)(r := (lookup w r)(k \<mapsto> x))"
    and write_unknown: "r \<notin> set (known w) \<Longrightarrow> fst (wr r x w) = w \<and> \<not> is_ok (snd (wr r x w))"
begin

lemma write_lookup:
  "good w \<Longrightarrow> r \<in> set (known w) \<Longrightarrow> is_runtime_object x \<Longrightarrow> obj_key x = Some k \<Longrightarrow>
     lookup (fst (wr r x w)) r k = Some x"
  by (simp add: write_ok)

lemma write_frame:
  "good w \<Longrightarrow> r \<in> set (known w) \<Longrightarrow> is_runtime_object x \<Longrightarrow> obj_key x = Some k \<Longrightarrow>
     r' \<noteq> r \<or> k' \<noteq> k \<Longrightarrow> lookup (fst (wr r x w)) r' k' = lookup w r' k'"
  by (auto simp: write_ok)

lemma write_ok_iff:
  "good w \<Longrightarrow> is_runtime_object x \<Longrightarrow> obj_key x = Some k \<Longrightarrow>
     is_ok (snd (wr r x w)) \<longleftrightarrow> r \<in> set (known w)"
  using write_ok write_unknown by (cases "r \<in> set (known w)") auto

end

section \<open>The resource store keeps the contract\<close>

lemma resourceToCache_set_cache [simp]:
  "resourceToCache (set_cache r c s) = AList.update r c (resourceToCache s)"
  by (simp add: set_cache_def)

lemma eventHandler_set_cache [simp]: "eventHandler (set_cache r c s) = eventHandler s"
  by (simp add: set_cache_def)

lemma set_update_in_dom: "r \<in> fst ` set m \<Longrightarrow> map fst (AList.update r c m) = map fst m"
  by (simp add: AList.update_keys)

lemma Resources_set_cache: "r \<in> set (Resources s) \<Longrightarrow> Resources (set_cache r c s) = Resources s"
  by (simp add: Resources_def set_update_in_dom)

lemma rs_lookup_set_cache [simp]:
  "rs_lookup (set_cache r c s) = (rs_lookup s)(r := map_of c)"
  by (intro ext) (simp add: rs_lookup_def)

lemma rs_cache_wf: "rs_wf s \<Longrightarrow> map_of (resourceToCache s) r = Some c \<Longrightarrow> cache_wf c"
  by (auto simp: rs_wf_def dest!: map_of_SomeD)

lemma gomap_update_ball:
  assumes "gomap_wf m" "\<forall>(k, v) \<in> set m. P k v" "P r c"
  shows "\<forall>(k, v) \<in> set (AList.update r c m). P k v"
proof -
  have "map_of (AList.update r c m) k = Some v \<Longrightarrow> P k v" for k v
    using assms by (auto split: if_splits dest: map_of_SomeD)
  then show ?thesis
    using assms(1) by (auto simp: gomap_in_set [OF gomap_wf_update, symmetric] simp flip: map_of_update)
qed

lemma rs_wf_set_cache: "rs_wf s \<Longrightarrow> cache_wf c \<Longrightarrow> rs_wf (set_cache r c s)"
  unfolding rs_wf_def using gomap_update_ball [of "resourceToCache s" "\<lambda>_. cache_wf" r c]
  by auto

lemma handlers_safe_set_cache [simp]: "handlers_safe I (set_cache r c s) = handlers_safe I s"
  by (simp add: handlers_safe_def)

lemma Resources_iff: "r \<in> set (Resources s) \<longleftrightarrow> (\<exists>c. map_of (resourceToCache s) r = Some c)"
  by (auto simp: Resources_def domIff dom_map_of_conv_image_fst [symmetric])

definition good_state :: "('e \<Rightarrow> bool) \<Rightarrow> 'e rs_state \<Rightarrow> bool" where
  "good_state I st = (rs_wf (fst st) \<and> handlers_safe I (fst st) \<and> I (snd st))"

lemma run_handler_safe:
  assumes "handlers_safe I s" "map_of (eventHandler s) r = Some h" "is_runtime_object x" "I (snd st)"
  shows "\<exists>e'. run_handler (OnAdd h) x st = ((fst st, e'), Ok ()) \<and> I e'"
    and "\<exists>e'. run_handler (OnUpdate h) x st = ((fst st, e'), Ok ()) \<and> I e'"
    and "\<exists>e'. run_handler (OnDelete h) x st = ((fst st, e'), Ok ()) \<and> I e'"
proof -
  from assms have "(r, h) \<in> set (eventHandler s)" by (auto dest: map_of_SomeD)
  with assms have "(\<exists>e'. OnAdd h x (snd st) = Inr e' \<and> I e') \<and> (\<exists>e'. OnUpdate h x (snd st) = Inr e' \<and> I e') \<and>
      (\<exists>e'. OnDelete h x (snd st) = Inr e' \<and> I e')"
    by (auto simp: handlers_safe_def)
  then show "\<exists>e'. run_handler (OnAdd h) x st = ((fst st, e'), Ok ()) \<and> I e'"
    and "\<exists>e'. run_handler (OnUpdate h) x st = ((fst st, e'), Ok ()) \<and> I e'"
    and "\<exists>e'. run_handler (OnDelete h) x st = ((fst st, e'), Ok ()) \<and> I e'"
    by (auto simp: run_handler_def)
qed

text \<open>On an API object of a known type, \<open>Add\<close> and \<open>Update\<close> store it and succeed.\<close>

lemma rs_write_ok:
  assumes g: "good_state I st" and r: "map_of (resourceToCache (fst st)) r = Some c"
    and x: "is_runtime_object x" "obj_key x = Some k"
  shows "\<exists>e'. rs_Add r x st = ((set_cache r (AList.update k x c) (fst st), e'), Ok ()) \<and> I e'"
    and "\<exists>e'. rs_Update r x st = ((set_cache r (AList.update k x c) (fst st), e'), Ok ()) \<and> I e'"
proof -
  let ?s = "set_cache r (AList.update k x c) (fst st)"
  have add: "cache_Add c x = (AList.update k x c, Ok ())"
    using x(2) by (auto simp: cache_Add_def obj_key_def split: outcome.splits)
  have safe: "handlers_safe I ?s" and I: "I (snd st)" using g by (simp_all add: good_state_def)
  show "\<exists>e'. rs_Add r x st = ((?s, e'), Ok ()) \<and> I e'"
    using run_handler_safe(1) [OF safe _ x(1), of r _ "(?s, snd st)"] r add I
    by (auto simp: rs_Add_def Let_def split: option.split)
  show "\<exists>e'. rs_Update r x st = ((?s, e'), Ok ()) \<and> I e'"
    using run_handler_safe(2) [OF safe _ x(1), of r _ "(?s, snd st)"] r add I
    by (auto simp: rs_Update_def cache_Update_Add Let_def split: option.split)
qed

lemma rs_write_unknown:
  "r \<notin> set (Resources (fst st)) \<Longrightarrow> rs_Add r x st = (st, Err (not_recognized r))"
  "r \<notin> set (Resources (fst st)) \<Longrightarrow> rs_Update r x st = (st, Err (not_recognized r))"
  by (auto simp: Resources_iff rs_Add_def rs_Update_def split: option.split)

lemma rs_written_state:
  assumes "good_state I st" "map_of (resourceToCache (fst st)) r = Some c" "obj_key x = Some k"
  defines "s' \<equiv> set_cache r (AList.update k x c) (fst st)"
  shows "I e' \<Longrightarrow> good_state I (s', e')" "Resources s' = Resources (fst st)"
    "rs_lookup s' = (rs_lookup (fst st))(r := (rs_lookup (fst st) r)(k \<mapsto> x))"
proof -
  have "cache_wf (AList.update k x c)"
    using assms rs_cache_wf [of "fst st" r c] by (simp add: good_state_def cache_wf_update)
  then show "I e' \<Longrightarrow> good_state I (s', e')"
    using assms by (simp add: good_state_def rs_wf_set_cache)
  show "Resources s' = Resources (fst st)"
    using assms(2) unfolding s'_def by (intro Resources_set_cache) (auto simp: Resources_iff)
  show "rs_lookup s' = (rs_lookup (fst st))(r := (rs_lookup (fst st) r)(k \<mapsto> x))"
    using assms(2) by (intro ext) (simp add: s'_def rs_lookup_def)
qed

interpretation rsa: resource_store_api rs_Add "\<lambda>st. rs_lookup (fst st)"
  "\<lambda>st. Resources (fst st)" "good_state I" for I
proof (unfold_locales, goal_cases)
  case (1 st r x k)
  then obtain c where "map_of (resourceToCache (fst st)) r = Some c" by (auto simp: Resources_iff)
  with 1 rs_write_ok(1) [of I st r c x k] rs_written_state [of I st r c x k] show ?case by fastforce
qed (simp add: rs_write_unknown)

interpretation rsu: resource_store_api rs_Update "\<lambda>st. rs_lookup (fst st)"
  "\<lambda>st. Resources (fst st)" "good_state I" for I
proof (unfold_locales, goal_cases)
  case (1 st r x k)
  then obtain c where "map_of (resourceToCache (fst st)) r = Some c" by (auto simp: Resources_iff)
  with 1 rs_write_ok(2) [of I st r c x k] rs_written_state [of I st r c x k] show ?case by fastforce
qed (simp add: rs_write_unknown)

section \<open>Reachable stores\<close>

text \<open>What an operation does to the caches: at most one cache is exchanged.\<close>

definition one_cache :: "resource_type \<Rightarrow> (cache_store \<Rightarrow> cache_store) \<Rightarrow> 'e resource_store \<Rightarrow> 'e resource_store \<Rightarrow> bool" where
  "one_cache r f s s' =
     (s' = s \<or> (\<exists>c. map_of (resourceToCache s) r = Some c \<and> s' = set_cache r (f c) s))"

lemma run_handler_store [simp]: "fst (fst (run_handler h x st)) = fst st"
  by (simp add: run_handler_def split: sum.split)

lemma emit_adds_store [simp]: "fst (fst (emit_adds h os st)) = fst st"
proof (induction os arbitrary: st)
  case (Cons x os)
  obtain st' r where "run_handler (OnAdd h) x st = (st', r)" by fastforce
  moreover from this have "fst st' = fst st" using run_handler_store [of "OnAdd h" x st] by simp
  ultimately show ?case using Cons by (cases r) simp_all
qed simp

lemma rs_Add_one_cache:
  "one_cache r (\<lambda>c. fst (cache_Add c x)) (fst st) (fst (fst (rs_Add r x st)))"
  "one_cache r (\<lambda>c. fst (cache_Add c x)) (fst st) (fst (fst (rs_Update r x st)))"
  by (auto simp: one_cache_def rs_Add_def rs_Update_def cache_Update_Add Let_def
      split: option.splits prod.splits outcome.splits)

lemma rs_Delete_one_cache:
  "one_cache r (\<lambda>c. fst (cache_Delete c x)) (fst st) (fst (fst (rs_Delete r x st)))"
  by (auto simp: one_cache_def rs_Delete_def Let_def
      split: option.splits prod.splits outcome.splits)

lemma rs_Replace_one_cache:
  "one_cache r (\<lambda>c. fst (cache_Replace c os)) (fst st) (fst (fst (rs_Replace r os st)))"
  by (auto simp: one_cache_def rs_Replace_def Let_def
      split: option.splits prod.splits outcome.splits)

text \<open>The invariant of the reachable stores.\<close>

definition rs_inv :: "'e resource_store \<Rightarrow> bool" where
  "rs_inv s = (rs_wf s \<and> rs_typed s \<and>
     Resources s = [Pods, PersistentVolumeClaims, Nodes, PersistentVolumes, Services])"

lemma rs_inv_one_cache:
  assumes inv: "rs_inv s" and one: "one_cache r f s s'"
    and f: "\<And>c. cache_wf c \<Longrightarrow> \<forall>x \<in> set (cache_List c). has_type r x \<Longrightarrow>
      cache_wf (f c) \<and> (\<forall>x \<in> set (cache_List (f c)). has_type r x)"
  shows "rs_inv s'"
proof (cases "s' = s")
  case False
  with one obtain c where c: "map_of (resourceToCache s) r = Some c" and s': "s' = set_cache r (f c) s"
    by (auto simp: one_cache_def)
  from inv c have "cache_wf c" "\<forall>x \<in> set (cache_List c). has_type r x"
    by (auto simp: rs_inv_def rs_wf_def rs_typed_def dest!: map_of_SomeD)
  with f have fc: "cache_wf (f c)" "\<forall>x \<in> set (cache_List (f c)). has_type r x" by auto
  have "rs_typed s'"
    using inv fc(2) gomap_update_ball [of "resourceToCache s" "\<lambda>r c. \<forall>x \<in> set (cache_List c). has_type r x" r "f c"]
    by (simp add: rs_inv_def rs_typed_def rs_wf_def s')
  moreover have "Resources s' = Resources s"
    using c unfolding s' by (intro Resources_set_cache) (auto simp: Resources_iff)
  ultimately show ?thesis using inv fc by (simp add: rs_inv_def rs_wf_set_cache s')
qed (use inv in simp)

lemma cache_Add_typed:
  assumes "cache_wf c" "\<forall>x \<in> set (cache_List c). P x" "P y"
  shows "cache_wf (fst (cache_Add c y)) \<and> (\<forall>x \<in> set (cache_List (fst (cache_Add c y))). P x)"
  using assms kc.objs_put [of c y] kc.invar_put [of c y] kc.no_key [of y c]
  by (cases "obj_key y") auto

lemma cache_Delete_typed:
  assumes "cache_wf c" "\<forall>x \<in> set (cache_List c). P x"
  shows "cache_wf (fst (cache_Delete c y)) \<and> (\<forall>x \<in> set (cache_List (fst (cache_Delete c y))). P x)"
  using assms kc.invar_del [of c y]
  by (auto simp: cache_Delete_state cache_List_def AList.delete_eq split: option.splits)

lemma cache_Replace_typed:
  assumes "cache_wf c" "\<forall>x \<in> set (cache_List c). P x" "list_all P os"
  shows "cache_wf (fst (cache_Replace c os)) \<and> (\<forall>x \<in> set (cache_List (fst (cache_Replace c os))). P x)"
proof -
  have fold: "list_all P os \<Longrightarrow> cache_wf d \<Longrightarrow> \<forall>x \<in> set (cache_List d). P x \<Longrightarrow>
      \<forall>x \<in> set (cache_List (fold (\<lambda>x s. fst (cache_Add s x)) os d)). P x" for d
  proof (induction os arbitrary: d)
    case (Cons x os)
    from Cons.prems have "P x" "list_all P os" by simp_all
    then have "cache_wf (fst (cache_Add d x))" "\<forall>y \<in> set (cache_List (fst (cache_Add d x))). P y"
      using cache_Add_typed [OF Cons.prems(2,3)] by blast+
    from Cons.IH [OF \<open>list_all P os\<close> this] show ?case by simp
  qed simp
  show ?thesis
  proof (cases "replace_items os []")
    case (Ok items)
    then have "\<forall>x \<in> set (cache_List items). P x"
      using fold [of "[]"] assms(3) by (simp add: replace_items_Ok cache_List_def)
    with Ok cache_Replace_wf [OF assms(1), of os] show ?thesis by (simp add: cache_Replace_def)
  qed (use assms in \<open>simp_all add: cache_Replace_def\<close>)
qed

lemma rs_inv_new: "rs_inv NewResourceStore"
  by (simp add: rs_inv_def rs_wf_def rs_typed_def NewResourceStore_def Resources_def NewStore_def
      cache_List_def resource_type_defs)

lemma rs_inv_step: "rs_step st st' \<Longrightarrow> rs_inv (fst st) \<Longrightarrow> rs_inv (fst st')"
proof (induction rule: rs_step.induct)
  case (step_Add r o' st)
  show ?case
    by (rule rs_inv_one_cache [OF step_Add.prems rs_Add_one_cache(1)])
      (rule cache_Add_typed, use step_Add.hyps in auto)
next
  case (step_Update r o' st)
  show ?case
    by (rule rs_inv_one_cache [OF step_Update.prems rs_Add_one_cache(2)])
      (rule cache_Add_typed, use step_Update.hyps in auto)
next
  case (step_Delete st r o')
  show ?case
    by (rule rs_inv_one_cache [OF step_Delete.prems rs_Delete_one_cache])
      (rule cache_Delete_typed)
next
  case (step_Replace r os st)
  show ?case
    by (rule rs_inv_one_cache [OF step_Replace.prems rs_Replace_one_cache])
      (rule cache_Replace_typed, use step_Replace.hyps in auto)
qed (simp add: rs_inv_def rs_wf_def rs_typed_def Resources_def RegisterEventHandler_def)

lemma rs_reach_inv: "rs_reach e0 st \<Longrightarrow> rs_inv (fst st)"
  by (induction rule: rs_reach.induct) (auto intro: rs_inv_step simp: rs_inv_new)

text \<open>In a typed store a listing holds objects of the listed type only.\<close>

lemma rs_List_typed: "rs_typed s \<Longrightarrow> x \<in> set (rs_List r s) \<Longrightarrow> has_type r x"
  by (cases "map_of (resourceToCache s) r") (auto simp: rs_typed_def rs_List_def dest!: map_of_SomeD)

lemma rs_List_lookup: "rs_wf s \<Longrightarrow> set (rs_List r s) = ran (rs_lookup s r)"
  using kc.set_objs rs_cache_wf [of s r]
  by (cases "map_of (resourceToCache s) r") (auto simp: rs_List_def rs_lookup_def [abs_def] ran_def)

lemma rs_GetByKey_lookup:
  "rs_GetByKey r k s = (if r \<in> set (Resources s) then Ok (rs_lookup s r k) else Err (not_recognized r))"
  by (auto simp: rs_GetByKey_def rs_lookup_def cache_GetByKey_def Resources_iff split: option.split)

section \<open>Properties\<close>

text \<open>
  C33: in every store the program can reach, whatever handlers it registered, each cache is keyed by
  its objects' own keys and holds objects of its own resource type only, and the five resource types
  are known.
\<close>

theorem store_reachable_invariant:
  assumes "rs_reach e0 st"
  shows "rs_wf (fst st) \<and> rs_typed (fst st) \<and> (\<forall>r. r \<in> set (Resources (fst st)) \<longleftrightarrow>
    r \<in> {Pods, PersistentVolumeClaims, Nodes, PersistentVolumes, Services})"
  using rs_reach_inv [OF assms] by (auto simp: rs_inv_def)

theorem store_reachable_invariant_witness:
  "rs_typed (fst (fst (rs_Add Pods (PodO empty_pod) (NewResourceStore, ()))))"
  using store_reachable_invariant [OF rs_reach.reach_step [OF rs_reach.reach_new rs_step.step_Add [of Pods "PodO empty_pod"]], of "()"]
  by (simp add: has_type_def)

text \<open>
  C34: adding an API object of a known type succeeds, makes exactly this object available under its
  key, and changes nothing else, provided the registered handlers do not panic.
\<close>

theorem store_write_read:
  assumes "good_state I st" "r \<in> set (Resources (fst st))" "is_runtime_object x" "obj_key x = Some k"
  shows "snd (rs_Add r x st) = Ok () \<and> rs_GetByKey r k (fst (fst (rs_Add r x st))) = Ok (Some x) \<and>
    (\<forall>r' k'. r' \<noteq> r \<or> k' \<noteq> k \<longrightarrow>
       rs_GetByKey r' k' (fst (fst (rs_Add r x st))) = rs_GetByKey r' k' (fst st))"
  using rsa.write_ok [OF assms] rsa.write_lookup [OF assms] rsa.write_frame [OF assms] assms(2)
  by (simp add: rs_GetByKey_lookup)

theorem store_write_read_witness:
  "rs_GetByKey Pods ''p'' (fst (fst (rs_Add Pods (PodO (empty_pod\<lparr>pod_meta := empty_meta\<lparr>om_Name := ''p''\<rparr>\<rparr>))
     (NewResourceStore, ())))) = Ok (Some (PodO (empty_pod\<lparr>pod_meta := empty_meta\<lparr>om_Name := ''p''\<rparr>\<rparr>)))"
proof -
  have "good_state (\<lambda>_. True) (NewResourceStore, ())"
    using rs_inv_new by (auto simp: good_state_def rs_inv_def handlers_safe_def NewResourceStore_def)
  then show ?thesis
    using store_write_read [of "\<lambda>_. True" "(NewResourceStore, ())" Pods
        "PodO (empty_pod\<lparr>pod_meta := empty_meta\<lparr>om_Name := ''p''\<rparr>\<rparr>)" "''p''"]
    by (simp add: is_runtime_object_def obj_key_meta empty_pod_def empty_meta_def Resources_def NewResourceStore_def)
qed

end
