(* ===== verification/Field_Selector.thy ===== *)
theory Field_Selector
  imports Prelude "HOL-Library.Char_ord" "HOL-Library.List_Lexorder"
begin

text \<open>
  Field selectors (package \<open>fields\<close> of apimachinery): the selector terms, matching
  against a field reader, printing with escaping, and the parser.  \<open>Fields.Get\<close> of the
  simulator's reader writes a buffer of the reader, so matching threads the reader's state and can
  panic when reading does.  What is proved: unescaping undoes escaping for every value, and parsing
  undoes printing; where reading is pure, matching is the conjunction of its terms (locale
  \<open>field_reader\<close>).
\<close>

datatype selector = HasTerm string string | NotHasTerm string string | AndTerm "selector list"

definition Everything :: selector where
  "Everything = AndTerm []"

section \<open>Matching\<close>

fun sel_Matches ::
    "('f \<Rightarrow> string \<Rightarrow> ('f \<times> string) outcome) \<Rightarrow> selector \<Rightarrow> 'f \<Rightarrow> ('f \<times> bool) outcome"
  and and_Matches ::
    "('f \<Rightarrow> string \<Rightarrow> ('f \<times> string) outcome) \<Rightarrow> selector list \<Rightarrow> 'f \<Rightarrow> ('f \<times> bool) outcome"
where
  "sel_Matches get (HasTerm field v) ls =
     bind_outcome (get ls field) (\<lambda>(ls', x). Ok (ls', x = v))"
| "sel_Matches get (NotHasTerm field v) ls =
     bind_outcome (get ls field) (\<lambda>(ls', x). Ok (ls', x \<noteq> v))"
| "sel_Matches get (AndTerm qs) ls = and_Matches get qs ls"
| "and_Matches get [] ls = Ok (ls, True)"
| "and_Matches get (q # qs) ls =
     bind_outcome (sel_Matches get q ls)
       (\<lambda>(ls', ok). if \<not> ok then Ok (ls', False) else and_Matches get qs ls')"

fun sel_Empty :: "selector \<Rightarrow> bool" where
  "sel_Empty (HasTerm _ _) = False"
| "sel_Empty (NotHasTerm _ _) = False"
| "sel_Empty (AndTerm qs) = list_all sel_Empty qs"

section \<open>Escaping and printing\<close>

fun EscapeValue :: "string \<Rightarrow> string" where
  "EscapeValue [] = []"
| "EscapeValue (c # cs) =
     (if c = CHR 0x5C \<or> c = CHR '','' \<or> c = CHR ''='' then CHR 0x5C # c # EscapeValue cs
      else c # EscapeValue cs)"

text \<open>The loop of \<open>UnescapeValue\<close>, with its flag \<open>inSlash\<close>.\<close>

fun unescape_loop :: "string \<Rightarrow> bool \<Rightarrow> string \<Rightarrow> string outcome" where
  "unescape_loop [] inSlash v =
     (if inSlash then Err (''invalid field selector: invalid escape sequence: '' @ [CHR 0x5C]) else Ok v)"
| "unescape_loop (c # cs) inSlash v =
     (if inSlash then
        (if c = CHR 0x5C \<or> c = CHR '','' \<or> c = CHR ''='' then unescape_loop cs False (v @ [c])
         else Err (''invalid field selector: invalid escape sequence: '' @ [CHR 0x5C, c]))
      else if c = CHR 0x5C then unescape_loop cs True v
      else if c = CHR '','' \<or> c = CHR ''='' then
        Err (''invalid field selector: unescaped character in value: '' @ nat_digits (of_char c))
      else unescape_loop cs False (v @ [c]))"

definition UnescapeValue :: "string \<Rightarrow> string outcome" where
  "UnescapeValue s =
     (if \<not> (CHR 0x5C \<in> set s \<or> CHR '','' \<in> set s \<or> CHR ''='' \<in> set s) then Ok s
      else unescape_loop s False [])"

fun sel_String :: "selector \<Rightarrow> string" where
  "sel_String (HasTerm field v) = field @ ''='' @ EscapeValue v"
| "sel_String (NotHasTerm field v) = field @ ''!='' @ EscapeValue v"
| "sel_String (AndTerm qs) = Join '','' (map sel_String qs)"

section \<open>Parsing\<close>

fun split_terms_loop :: "string \<Rightarrow> bool \<Rightarrow> string \<Rightarrow> string list" where
  "split_terms_loop [] inSlash cur = [cur]"
| "split_terms_loop (c # cs) inSlash cur =
     (if inSlash then split_terms_loop cs False (cur @ [c])
      else if c = CHR 0x5C then split_terms_loop cs True (cur @ [c])
      else if c = CHR '','' then cur # split_terms_loop cs False []
      else split_terms_loop cs False (cur @ [c]))"

definition splitTerms :: "string \<Rightarrow> string list" where
  "splitTerms s = (if length s = 0 then [] else split_terms_loop s False [])"

definition termOperators :: "string list" where
  "termOperators = [''!='', ''=='', ''='']"

fun split_term_loop :: "string \<Rightarrow> string \<Rightarrow> (string \<times> string \<times> string) option" where
  "split_term_loop lhs [] = None"
| "split_term_loop lhs (c # cs) =
     (case find (\<lambda>op. HasPrefix (c # cs) op) termOperators of
        Some op \<Rightarrow> Some (lhs, op, drop (length op) (c # cs))
      | None \<Rightarrow> split_term_loop (lhs @ [c]) cs)"

definition splitTerm :: "string \<Rightarrow> (string \<times> string \<times> string) option" where
  "splitTerm term = split_term_loop [] term"

text \<open>\<open>Transform\<close> applies a rewriting of field and value to every term.\<close>

fun sel_Transform :: "(string \<Rightarrow> string \<Rightarrow> (string \<times> string) outcome) \<Rightarrow> selector \<Rightarrow> selector outcome"
  and and_Transform ::
    "(string \<Rightarrow> string \<Rightarrow> (string \<times> string) outcome) \<Rightarrow> selector list \<Rightarrow> selector list \<Rightarrow> selector outcome"
where
  "sel_Transform fn (HasTerm field v) =
     bind_outcome (fn field v)
       (\<lambda>(f, w). if length f = 0 \<and> length w = 0 then Ok Everything else Ok (HasTerm f w))"
| "sel_Transform fn (NotHasTerm field v) =
     bind_outcome (fn field v)
       (\<lambda>(f, w). if length f = 0 \<and> length w = 0 then Ok Everything else Ok (NotHasTerm f w))"
| "sel_Transform fn (AndTerm qs) = and_Transform fn qs []"
| "and_Transform fn [] next = Ok (AndTerm next)"
| "and_Transform fn (q # qs) next =
     bind_outcome (sel_Transform fn q)
       (\<lambda>n. and_Transform fn qs (if \<not> sel_Empty n then next @ [n] else next))"

definition not_understood :: "string \<Rightarrow> string \<Rightarrow> string" where
  "not_understood selector part =
     ''invalid selector: '' @ [CHR 0x27] @ selector @ [CHR 0x27] @ ''; can't understand '' @ [CHR 0x27] @ part @ [CHR 0x27]"

text \<open>One part of a selector string: the term it denotes.\<close>

definition parse_part :: "string \<Rightarrow> string \<Rightarrow> selector outcome" where
  "parse_part selector part =
     (case splitTerm part of
        None \<Rightarrow> Err (not_understood selector part)
      | Some (lhs, op, rhs) \<Rightarrow>
          bind_outcome (UnescapeValue rhs)
            (\<lambda>v. if op = ''!='' then Ok (NotHasTerm lhs v)
                 else if op = ''=='' then Ok (HasTerm lhs v)
                 else if op = ''='' then Ok (HasTerm lhs v)
                 else Err (not_understood selector part)))"

fun parse_parts :: "string \<Rightarrow> string list \<Rightarrow> selector list \<Rightarrow> selector list outcome" where
  "parse_parts selector [] items = Ok items"
| "parse_parts selector (part # parts) items =
     (if part = [] then parse_parts selector parts items
      else bind_outcome (parse_part selector part)
             (\<lambda>t. parse_parts selector parts (items @ [t])))"

definition parseSelector ::
    "string \<Rightarrow> (string \<Rightarrow> string \<Rightarrow> (string \<times> string) outcome) \<Rightarrow> selector outcome" where
  "parseSelector selector fn =
     bind_outcome (parse_parts selector (sort (splitTerms selector)) [])
       (\<lambda>items. if length items = 1 then sel_Transform fn (hd items)
                else sel_Transform fn (AndTerm items))"

definition ParseSelector :: "string \<Rightarrow> selector outcome" where
  "ParseSelector selector = parseSelector selector (\<lambda>lhs rhs. Ok (lhs, rhs))"

definition ParseSelectorOrDie :: "string \<Rightarrow> selector outcome" where
  "ParseSelectorOrDie s = (case ParseSelector s of Err e \<Rightarrow> Panic e | r \<Rightarrow> r)"

section \<open>Pure readers\<close>

fun sel_sem :: "(string \<Rightarrow> string) \<Rightarrow> selector \<Rightarrow> bool" where
  "sel_sem val (HasTerm f v) = (val f = v)"
| "sel_sem val (NotHasTerm f v) = (val f \<noteq> v)"
| "sel_sem val (AndTerm qs) = list_all (sel_sem val) qs"

fun sel_fields :: "selector \<Rightarrow> string list" where
  "sel_fields (HasTerm f v) = [f]"
| "sel_fields (NotHasTerm f v) = [f]"
| "sel_fields (AndTerm qs) = concat (map sel_fields qs)"

locale field_reader =
  fixes get :: "'f \<Rightarrow> string \<Rightarrow> ('f \<times> string) outcome"
    and val :: "string \<Rightarrow> string"
    and readable :: "string \<Rightarrow> bool"
    and reader :: "'f \<Rightarrow> bool"
  assumes get_val: "reader ls \<Longrightarrow> readable f \<Longrightarrow> \<exists>ls'. get ls f = Ok (ls', val f) \<and> reader ls'"
begin

lemma matches_sem:
  "reader ls \<Longrightarrow> list_all readable (sel_fields q) \<Longrightarrow>
     \<exists>ls'. sel_Matches get q ls = Ok (ls', sel_sem val q) \<and> reader ls'"
proof (induction q arbitrary: ls)
  case (AndTerm qs)
  then show ?case
  proof (induction qs arbitrary: ls)
    case (Cons q qs)
    from Cons.prems(1) [of q ls] Cons.prems(2,3)
    obtain ls' where "sel_Matches get q ls = Ok (ls', sel_sem val q)" "reader ls'" by auto
    moreover from Cons.IH [of ls'] Cons.prems this(2)
    obtain ls'' where "and_Matches get qs ls' = Ok (ls'', list_all (sel_sem val) qs)" "reader ls''"
      by auto
    ultimately show ?case by auto
  qed simp
qed (use get_val in fastforce)+

corollary matches_no_panic:
  "reader ls \<Longrightarrow> list_all readable (sel_fields q) \<Longrightarrow> \<not> panics (sel_Matches get q ls)"
  using matches_sem by fastforce

end

section \<open>Escaping round trip\<close>

definition special :: "char \<Rightarrow> bool" where
  "special c = (c = CHR 0x5C \<or> c = CHR '','' \<or> c = CHR ''='')"

lemma EscapeValue_plain: "list_all (\<lambda>c. \<not> special c) s \<Longrightarrow> EscapeValue s = s"
  by (induction s) (auto simp: special_def)

lemma EscapeValue_special: "c \<in> set s \<Longrightarrow> special c \<Longrightarrow> c \<in> set (EscapeValue s)"
  by (induction s) (auto simp: special_def)

lemma unescape_loop_EscapeValue: "unescape_loop (EscapeValue s) False v = Ok (v @ s)"
  by (induction s arbitrary: v) auto

lemma UnescapeValue_EscapeValue: "UnescapeValue (EscapeValue s) = Ok s"
proof (cases "list_all (\<lambda>c. \<not> special c) s")
  case True
  then have "EscapeValue s = s" by (rule EscapeValue_plain)
  with True show ?thesis
    by (auto simp: UnescapeValue_def unescape_loop_EscapeValue list_all_iff special_def)
next
  case False
  then obtain c where "c \<in> set s" "special c" by (auto simp: list_all_iff)
  then have "c \<in> set (EscapeValue s)" by (rule EscapeValue_special)
  with \<open>special c\<close> show ?thesis
    by (auto simp: UnescapeValue_def unescape_loop_EscapeValue special_def)
qed

lemma EscapeValue_inj: "EscapeValue s = EscapeValue t \<Longrightarrow> s = t"
  using UnescapeValue_EscapeValue by (metis outcome.inject(1))

section \<open>Printing and parsing\<close>

definition field_ok :: "string \<Rightarrow> bool" where
  "field_ok f = (f \<noteq> [] \<and> list_all (\<lambda>c. \<not> special c \<and> c \<noteq> CHR ''!'') f)"

fun plain_term :: "selector \<Rightarrow> bool" where
  "plain_term (HasTerm f v) = field_ok f"
| "plain_term (NotHasTerm f v) = field_ok f"
| "plain_term (AndTerm qs) = False"

lemma split_terms_plain:
  "list_all (\<lambda>c. \<not> special c) s \<Longrightarrow>
     split_terms_loop (s @ rest) False cur = split_terms_loop rest False (cur @ s)"
  by (induction s arbitrary: cur) (auto simp: special_def)

lemma split_terms_escaped:
  "split_terms_loop (EscapeValue v @ rest) False cur =
     split_terms_loop rest False (cur @ EscapeValue v)"
  by (induction v arbitrary: cur) auto

lemma split_terms_term:
  assumes "plain_term t"
  shows "split_terms_loop (sel_String t @ rest) False cur =
    split_terms_loop rest False (cur @ sel_String t)"
proof (cases t)
  case (HasTerm f v)
  with assms have "list_all (\<lambda>c. \<not> special c) f" by (auto simp: field_ok_def list_all_iff)
  with HasTerm show ?thesis
    by (simp add: split_terms_plain split_terms_escaped)
next
  case (NotHasTerm f v)
  with assms have "list_all (\<lambda>c. \<not> special c) f" by (auto simp: field_ok_def list_all_iff)
  with NotHasTerm show ?thesis
    by (simp add: split_terms_plain split_terms_escaped)
qed (use assms in simp)

lemma split_terms_Join:
  "list_all plain_term ts \<Longrightarrow> ts \<noteq> [] \<Longrightarrow>
     split_terms_loop (Join '','' (map sel_String ts)) False [] = map sel_String ts"
proof (induction ts)
  case (Cons t ts)
  then show ?case
    by (cases ts) (auto simp: split_terms_term split_terms_term [where rest = "[]", simplified])
qed simp

lemma split_term_lhs:
  "list_all (\<lambda>c. \<not> special c \<and> c \<noteq> CHR ''!'') f \<Longrightarrow>
     split_term_loop lhs (f @ rest) = split_term_loop (lhs @ f) rest"
  by (induction f arbitrary: lhs) (auto simp: termOperators_def HasPrefix_def special_def)

lemma EscapeValue_not_equals: "EscapeValue v \<noteq> CHR ''='' # cs"
  by (cases v) auto

lemma parse_part_sel_String:
  assumes "plain_term t" shows "parse_part sel (sel_String t) = Ok t"
proof (cases t)
  case (HasTerm f v)
  have "\<not> HasPrefix (CHR ''='' # EscapeValue v) ''==''"
    using EscapeValue_not_equals [of v] by (cases "EscapeValue v") (auto simp: HasPrefix_def)
  with HasTerm assms have "splitTerm (sel_String t) = Some (f, ''='', EscapeValue v)"
    by (simp add: splitTerm_def split_term_lhs field_ok_def termOperators_def)
      (simp add: HasPrefix_def)
  with HasTerm show ?thesis by (simp add: parse_part_def UnescapeValue_EscapeValue)
next
  case (NotHasTerm f v)
  with assms have "splitTerm (sel_String t) = Some (f, ''!='', EscapeValue v)"
    by (simp add: splitTerm_def split_term_lhs field_ok_def termOperators_def HasPrefix_def)
  with NotHasTerm show ?thesis by (simp add: parse_part_def UnescapeValue_EscapeValue)
qed (use assms in simp)

lemma sel_String_not_Nil: "plain_term t \<Longrightarrow> sel_String t \<noteq> []"
  by (cases t) auto

lemma parse_parts_terms:
  "list_all plain_term ts \<Longrightarrow> parse_parts sel (map sel_String ts) items = Ok (items @ ts)"
  by (induction ts arbitrary: items) (auto simp: parse_part_sel_String sel_String_not_Nil)

lemma Transform_id_term:
  "plain_term t \<Longrightarrow> sel_Transform (\<lambda>l r. Ok (l, r)) t = Ok t"
  by (cases t) (auto simp: field_ok_def)

lemma plain_not_Empty: "plain_term t \<Longrightarrow> \<not> sel_Empty t"
  by (cases t) auto

lemma Transform_id_and:
  "list_all plain_term ts \<Longrightarrow> and_Transform (\<lambda>l r. Ok (l, r)) ts next = Ok (AndTerm (next @ ts))"
  by (induction ts arbitrary: "next") (auto simp: Transform_id_term plain_not_Empty)

lemma splitTerms_Join:
  assumes "list_all plain_term ts" "ts \<noteq> []"
  shows "splitTerms (Join '','' (map sel_String ts)) = map sel_String ts"
proof -
  have "Join '','' (map sel_String ts) \<noteq> []"
    using assms by (cases ts; cases "tl ts") (auto simp: sel_String_not_Nil)
  with assms show ?thesis by (simp add: splitTerms_def split_terms_Join)
qed

text \<open>
  Parsing the printed form of a single term gives the term back; of a conjunction, its terms in the
  order of their printed forms.
\<close>

lemma parse_terms:
  assumes "list_all plain_term ts" "ts \<noteq> []"
  shows "ParseSelector (Join '','' (map sel_String ts)) =
    (case ts of [t] \<Rightarrow> Ok t | _ \<Rightarrow> Ok (AndTerm (sort_key sel_String ts)))"
proof -
  have sorted: "sort (map sel_String ts) = map sel_String (sort_key sel_String ts)"
    by (rule properties_for_sort) simp_all
  have plain: "list_all plain_term (sort_key sel_String ts)"
    using assms by (simp add: list_all_iff)
  have "parse_parts s (sort (splitTerms (Join '','' (map sel_String ts)))) [] =
      Ok (sort_key sel_String ts)" for s
    using assms parse_parts_terms [OF plain, of s "[]"] by (simp add: splitTerms_Join sorted)
  then show ?thesis
    using assms plain Transform_id_and [OF plain, of "[]"]
    by (cases ts; cases "tl ts")
      (auto simp: ParseSelector_def parseSelector_def Transform_id_term split: list.split)
qed

section \<open>Properties\<close>

text \<open>
  C35: printing a selector and parsing the text gives the selector back: a single term exactly, a
  conjunction with its terms in the order of their printed forms.  The fields must be plain, which those of
  the program are: not empty and without the characters the syntax uses; the values are arbitrary.
\<close>

theorem selector_print_parse:
  assumes "list_all plain_term ts" "ts \<noteq> []"
  shows "ParseSelector (sel_String (AndTerm ts)) =
    (case ts of [t] \<Rightarrow> Ok t | _ \<Rightarrow> Ok (AndTerm (sort_key sel_String ts)))"
  using parse_terms [OF assms] by simp

theorem selector_print_parse_witness:
  "ParseSelector (sel_String (AndTerm [HasTerm ''spec.nodeName'' ''n=1''])) = Ok (HasTerm ''spec.nodeName'' ''n=1'')"
  using selector_print_parse [of "[HasTerm ''spec.nodeName'' ''n=1'']"]
  by (simp add: field_ok_def special_def)

end
