(* ===== verification/Watch_Buffer.thy ===== *)
theory Watch_Buffer
  imports Api_Objects "HOL-Library.Sublist"
begin

text \<open>
  The watch buffer (\<open>pkg/framework/watch/watch.go\<close>): a byte pipe between the writers of
  watch events and the one HTTP reader, served by the goroutine \<open>loop\<close>.

  First the buffer as its callers use it while nobody races: \<open>wb_Write\<close>,
  \<open>wb_Read\<close>, \<open>wb_Close\<close>, \<open>EmitWatchEvent\<close>.  Then the goroutines
  themselves: one reader, any number of writers, a closer and the loop, with the three unbuffered
  channels as rendezvous steps, \<open>closeMux\<close> as a lock whose short read sections are atomic,
  and closed channels behaving as in Go (a receive yields the zero value, a send panics).  The
  fields \<open>sent\<close> and \<open>results\<close> record the run: the bytes the loop accepted and
  the results of the reads.  What is proved: the reader gets the written bytes in order, each at
  most once, and all of them as long as the buffer is open; with one reader the goroutines deadlock in
  exactly one kind of state, which an empty write can lead to and the events the program writes cannot; a
  write that a close overtakes can only end in a panic.
\<close>

section \<open>The buffer between calls\<close>

record watch_buffer =
  wb_buf :: string
  wb_Resource :: resource_type
  wb_closed :: bool

definition EOF :: go_error where "EOF = ''EOF''"

definition NewWatchBuffer :: "resource_type \<Rightarrow> watch_buffer" where
  "NewWatchBuffer r = \<lparr>wb_buf = [], wb_Resource = r, wb_closed = False\<rparr>"

definition wb_Write :: "watch_buffer \<Rightarrow> string \<Rightarrow> watch_buffer \<times> nat outcome" where
  "wb_Write w data =
     (if wb_closed w then (w, Err EOF)
      else (w\<lparr>wb_buf := wb_buf w @ data\<rparr>, Ok (length data)))"

definition wb_Close :: "watch_buffer \<Rightarrow> watch_buffer" where
  "wb_Close w = (if \<not> wb_closed w then w\<lparr>wb_closed := True\<rparr> else w)"

text \<open>\<open>bytes.Buffer.Read\<close> into a slice of length \<open>n\<close>: data, rest, error.\<close>

definition buf_Read :: "string \<Rightarrow> nat \<Rightarrow> string \<times> string \<times> go_error option" where
  "buf_Read b n =
     (if b = [] then ([], [], if n = 0 then None else Some EOF)
      else (take n b, drop n b, None))"

text \<open>A read while data is there; \<open>None\<close> is a read that waits for a writer.\<close>

definition wb_Read :: "watch_buffer \<Rightarrow> nat \<Rightarrow> watch_buffer \<times> (string \<times> go_error option) option" where
  "wb_Read w n =
     (if wb_closed w then (w, Some ([], Some EOF))
      else if wb_buf w = [] then (w, None)
      else (case buf_Read (wb_buf w) n of (xs, rest, e) \<Rightarrow> (w\<lparr>wb_buf := rest\<rparr>, Some (xs, e))))"

text \<open>
  The demonstration at the end of the file, in the order its pauses enforce; a read fills the front of
  the slice and leaves the rest of it.
\<close>

definition read_into :: "string \<Rightarrow> watch_buffer \<Rightarrow> watch_buffer \<times> string" where
  "read_into data w =
     (case wb_Read w (length data) of
        (w', Some (xs, e)) \<Rightarrow> (w', xs @ drop (length xs) data)
      | (w', None) \<Rightarrow> (w', data))"

definition watch_main :: "string list" where
  "watch_main =
     (let b = fst (wb_Write (NewWatchBuffer ''pods'') ''Ahoj'');
          (b, data1) = read_into (replicate 6 (CHR 0x00)) b;
          b = fst (wb_Write b '' Svete'');
          (b, data2) = read_into data1 b
      in [[CHR 0x09] @ ''data: '' @ data1, [CHR 0x09] @ ''data: '' @ data2, ''Ahoj''])"

lemma watch_main_prints:
  "watch_main = [[CHR 0x09] @ ''data: Ahoj'' @ [CHR 0x00, CHR 0x00], [CHR 0x09] @ ''data:  Svete'', ''Ahoj'']"
  by code_simp

text \<open>
  \<open>EmitWatchEvent\<close>: one JSON object per event, its line breaks removed.  The serialiser is
  the parameter \<open>enc\<close>.
\<close>

definition event_bytes :: "string \<Rightarrow> string \<Rightarrow> string" where
  "event_bytes eType obj_str =
     [CHR 0x7B, CHR 0x22] @ ''type'' @ [CHR 0x22, CHR '':'', CHR 0x22] @ eType @
     [CHR 0x22, CHR '','', CHR 0x22] @ ''object'' @ [CHR 0x22, CHR '':''] @
     Replace [CHR 0x0A] [] obj_str @ [CHR 0x7D]"

definition EmitWatchEvent ::
    "encoder \<Rightarrow> watch_buffer \<Rightarrow> string \<Rightarrow> obj \<Rightarrow> watch_buffer \<times> unit outcome" where
  "EmitWatchEvent enc w eType o' =
     (case EncodeOrDie enc (ROSingle o') of
        Err e \<Rightarrow> (w, Err e)
      | Panic p \<Rightarrow> (w, Panic p)
      | Ok obj_str \<Rightarrow>
          (case wb_Write w (event_bytes eType obj_str) of
             (w', Ok _) \<Rightarrow> (w', Ok ())
           | (w', Err e) \<Rightarrow> (w', Err e)
           | (w', Panic p) \<Rightarrow> (w', Panic p)))"

section \<open>The goroutines\<close>

datatype reader_pc = RIdle | RChecked nat | RLocked nat | RSent nat | RWait nat

datatype writer_pc = WIdle | WSend string

datatype loop_pc =
    LSelect
  | LGotWrite string
  | LRead nat
  | LWaitWrite nat
  | LDoRead nat
  | LGot string "go_error option"
  | LWantLock string "go_error option"
  | LSend string "go_error option"
  | LSent
  | LDone

datatype lock = Free | ByReader | ByLoop

record wb_sys =
  buf :: string
  closed :: bool
  mux :: lock
  reader :: reader_pc
  writers :: "nat \<Rightarrow> writer_pc"
  loop :: loop_pc
  crashed :: bool
  sent :: string
  results :: "(string \<times> go_error option) list"

definition wb_init :: wb_sys where
  "wb_init = \<lparr>buf = [], closed = False, mux = Free, reader = RIdle, writers = (\<lambda>_. WIdle),
     loop = LSelect, crashed = False, sent = [], results = []\<rparr>"

text \<open>
  Calls arriving from outside: a read of \<open>n\<close> bytes, a write, a close.  Each begins with
  the check of \<open>closed\<close> under the lock; a write may be empty.
\<close>

inductive wb_call :: "wb_sys \<Rightarrow> wb_sys \<Rightarrow> bool" where
  read_eof: "\<not> crashed s \<Longrightarrow> reader s = RIdle \<Longrightarrow> mux s = Free \<Longrightarrow> closed s \<Longrightarrow>
     wb_call s (s\<lparr>results := results s @ [([], Some EOF)]\<rparr>)"
| read_begin: "\<not> crashed s \<Longrightarrow> reader s = RIdle \<Longrightarrow> mux s = Free \<Longrightarrow> \<not> closed s \<Longrightarrow>
     wb_call s (s\<lparr>reader := RChecked n\<rparr>)"
| write_begin: "\<not> crashed s \<Longrightarrow> writers s i = WIdle \<Longrightarrow> mux s = Free \<Longrightarrow> \<not> closed s \<Longrightarrow>
     wb_call s (s\<lparr>writers := (writers s)(i := WSend d)\<rparr>)"
| close_call: "\<not> crashed s \<Longrightarrow> mux s = Free \<Longrightarrow> wb_call s (s\<lparr>closed := True\<rparr>)"

text \<open>The steps of calls in progress and of the loop.\<close>

inductive wb_run :: "wb_sys \<Rightarrow> wb_sys \<Rightarrow> bool" where
  reader_lock: "\<not> crashed s \<Longrightarrow> reader s = RChecked n \<Longrightarrow> mux s = Free \<Longrightarrow>
     wb_run s (s\<lparr>reader := RLocked n, mux := ByReader\<rparr>)"
| chan_read: "\<not> crashed s \<Longrightarrow> reader s = RLocked n \<Longrightarrow> \<not> closed s \<Longrightarrow> loop s = LSelect \<Longrightarrow>
     wb_run s (s\<lparr>reader := RSent n, loop := LRead n\<rparr>)"
| reader_crash: "\<not> crashed s \<Longrightarrow> reader s = RLocked n \<Longrightarrow> closed s \<Longrightarrow> wb_run s (s\<lparr>crashed := True\<rparr>)"
| reader_unlock: "\<not> crashed s \<Longrightarrow> reader s = RSent n \<Longrightarrow>
     wb_run s (s\<lparr>reader := RWait n, mux := Free\<rparr>)"
| reader_closed: "\<not> crashed s \<Longrightarrow> reader s = RWait n \<Longrightarrow> closed s \<Longrightarrow>
     wb_run s (s\<lparr>reader := RIdle, results := results s @ [([], None)]\<rparr>)"
| chan_write: "\<not> crashed s \<Longrightarrow> writers s i = WSend d \<Longrightarrow> \<not> closed s \<Longrightarrow> loop s = LSelect \<Longrightarrow>
     wb_run s (s\<lparr>writers := (writers s)(i := WIdle), loop := LGotWrite d, sent := sent s @ d\<rparr>)"
| chan_write_waiting: "\<not> crashed s \<Longrightarrow> writers s i = WSend d \<Longrightarrow> \<not> closed s \<Longrightarrow> loop s = LWaitWrite n \<Longrightarrow>
     wb_run s (s\<lparr>writers := (writers s)(i := WIdle), buf := buf s @ d, loop := LDoRead n,
       sent := sent s @ d\<rparr>)"
| writer_crash: "\<not> crashed s \<Longrightarrow> writers s i = WSend d \<Longrightarrow> closed s \<Longrightarrow> wb_run s (s\<lparr>crashed := True\<rparr>)"
| select_write_closed: "\<not> crashed s \<Longrightarrow> loop s = LSelect \<Longrightarrow> closed s \<Longrightarrow>
     wb_run s (s\<lparr>loop := LGotWrite []\<rparr>)"
| select_read_closed: "\<not> crashed s \<Longrightarrow> loop s = LSelect \<Longrightarrow> closed s \<Longrightarrow> wb_run s (s\<lparr>loop := LRead 0\<rparr>)"
| loop_append: "\<not> crashed s \<Longrightarrow> loop s = LGotWrite d \<Longrightarrow> d \<noteq> [] \<Longrightarrow>
     wb_run s (s\<lparr>buf := buf s @ d, loop := LSelect\<rparr>)"
| loop_empty: "\<not> crashed s \<Longrightarrow> loop s = LGotWrite [] \<Longrightarrow> mux s = Free \<Longrightarrow>
     wb_run s (s\<lparr>loop := (if closed s then LDone else LSelect)\<rparr>)"
| loop_read_empty: "\<not> crashed s \<Longrightarrow> loop s = LRead n \<Longrightarrow> buf s = [] \<Longrightarrow> wb_run s (s\<lparr>loop := LWaitWrite n\<rparr>)"
| loop_read_data: "\<not> crashed s \<Longrightarrow> loop s = LRead n \<Longrightarrow> buf s \<noteq> [] \<Longrightarrow> wb_run s (s\<lparr>loop := LDoRead n\<rparr>)"
| loop_wait_closed: "\<not> crashed s \<Longrightarrow> loop s = LWaitWrite n \<Longrightarrow> closed s \<Longrightarrow> wb_run s (s\<lparr>loop := LSelect\<rparr>)"
| loop_do_read: "\<not> crashed s \<Longrightarrow> loop s = LDoRead n \<Longrightarrow> buf_Read (buf s) n = (xs, rest, e) \<Longrightarrow>
     wb_run s (s\<lparr>buf := rest, loop := LGot xs e\<rparr>)"
| loop_check: "\<not> crashed s \<Longrightarrow> loop s = LGot xs e \<Longrightarrow> mux s = Free \<Longrightarrow>
     wb_run s (s\<lparr>loop := (if closed s then LSelect else LWantLock xs e)\<rparr>)"
| loop_lock: "\<not> crashed s \<Longrightarrow> loop s = LWantLock xs e \<Longrightarrow> mux s = Free \<Longrightarrow>
     wb_run s (s\<lparr>loop := LSend xs e, mux := ByLoop\<rparr>)"
| chan_ret: "\<not> crashed s \<Longrightarrow> loop s = LSend xs e \<Longrightarrow> \<not> closed s \<Longrightarrow> reader s = RWait n \<Longrightarrow>
     wb_run s (s\<lparr>loop := LSent, reader := RIdle, results := results s @ [(xs, e)]\<rparr>)"
| loop_crash: "\<not> crashed s \<Longrightarrow> loop s = LSend xs e \<Longrightarrow> closed s \<Longrightarrow> wb_run s (s\<lparr>crashed := True\<rparr>)"
| loop_unlock: "\<not> crashed s \<Longrightarrow> loop s = LSent \<Longrightarrow> wb_run s (s\<lparr>loop := LSelect, mux := Free\<rparr>)"

inductive wb_reach :: "wb_sys \<Rightarrow> bool" where
  reach_init: "wb_reach wb_init"
| reach_call: "wb_reach s \<Longrightarrow> wb_call s t \<Longrightarrow> wb_reach t"
| reach_run: "wb_reach s \<Longrightarrow> wb_run s t \<Longrightarrow> wb_reach t"

text \<open>
  The runs in which every write has data, as those of \<open>EmitWatchEvent\<close> have
  (\<open>event_bytes_nonempty\<close>).
\<close>

inductive wb_event_reach :: "wb_sys \<Rightarrow> bool" where
  event_init: "wb_event_reach wb_init"
| event_call: "wb_event_reach s \<Longrightarrow> wb_call s t \<Longrightarrow> \<forall>i. writers t i \<noteq> WSend [] \<Longrightarrow> wb_event_reach t"
| event_run: "wb_event_reach s \<Longrightarrow> wb_run s t \<Longrightarrow> wb_event_reach t"

lemma event_bytes_nonempty: "event_bytes eType obj_str \<noteq> []"
  by (simp add: event_bytes_def)

text \<open>
  The loop holds an empty write and wants the lock to see whether the channel was closed; the reader holds the
  lock and wants the loop to take its request.
\<close>

definition stuck_on_empty :: "wb_sys \<Rightarrow> bool" where
  "stuck_on_empty s = (loop s = LGotWrite [] \<and> (\<exists>n. reader s = RLocked n))"

text \<open>The bytes handed to the reader, and the bytes in the loop's hands before and after the buffer.\<close>

definition delivered :: "wb_sys \<Rightarrow> string" where
  "delivered s = concat (map fst (results s))"

fun loop_out :: "loop_pc \<Rightarrow> string" where
  "loop_out (LGot xs e) = xs"
| "loop_out (LWantLock xs e) = xs"
| "loop_out (LSend xs e) = xs"
| "loop_out _ = []"

fun loop_in :: "loop_pc \<Rightarrow> string" where
  "loop_in (LGotWrite d) = d"
| "loop_in _ = []"

fun loop_reading :: "loop_pc \<Rightarrow> bool" where
  "loop_reading (LRead n) = True"
| "loop_reading (LWaitWrite n) = True"
| "loop_reading (LDoRead n) = True"
| "loop_reading (LGot xs e) = True"
| "loop_reading (LWantLock xs e) = True"
| "loop_reading (LSend xs e) = True"
| "loop_reading _ = False"

fun reader_waiting :: "reader_pc \<Rightarrow> bool" where
  "reader_waiting (RSent n) = True"
| "reader_waiting (RWait n) = True"
| "reader_waiting _ = False"

section \<open>Invariants\<close>

definition lock_inv :: "wb_sys \<Rightarrow> bool" where
  "lock_inv s =
     ((mux s = ByReader \<longleftrightarrow> (\<exists>n. reader s = RLocked n \<or> reader s = RSent n)) \<and>
      (mux s = ByLoop \<longleftrightarrow> (\<exists>xs e. loop s = LSend xs e) \<or> loop s = LSent))"

definition pairing_inv :: "wb_sys \<Rightarrow> bool" where
  "pairing_inv s = (\<not> closed s \<longrightarrow> loop_reading (loop s) = reader_waiting (reader s))"

definition work_inv :: "wb_sys \<Rightarrow> bool" where
  "work_inv s = (\<not> closed s \<longrightarrow> loop s \<noteq> LDone)"

definition event_inv :: "wb_sys \<Rightarrow> bool" where
  "event_inv s = (\<not> closed s \<longrightarrow> loop s \<noteq> LGotWrite [] \<and> (\<forall>i. writers s i \<noteq> WSend []))"

text \<open>Nothing lost, duplicated or reordered.\<close>

definition fifo_inv :: "wb_sys \<Rightarrow> bool" where
  "fifo_inv s =
     (prefix (delivered s) (sent s) \<and>
      (\<not> closed s \<longrightarrow> sent s = delivered s @ loop_out (loop s) @ buf s @ loop_in (loop s)))"

inductive_cases wb_callE: "wb_call s t"
inductive_cases wb_runE: "wb_run s t"

lemma lock_inv_call: "wb_call s t \<Longrightarrow> lock_inv s \<Longrightarrow> lock_inv t"
  by (erule wb_callE) (auto simp: lock_inv_def)

lemma lock_inv_run: "wb_run s t \<Longrightarrow> lock_inv s \<Longrightarrow> lock_inv t"
  by (erule wb_runE) (auto simp: lock_inv_def)

lemma pairing_inv_call: "wb_call s t \<Longrightarrow> pairing_inv s \<Longrightarrow> pairing_inv t"
  by (erule wb_callE) (auto simp: pairing_inv_def)

lemma pairing_inv_run: "wb_run s t \<Longrightarrow> pairing_inv s \<Longrightarrow> pairing_inv t"
  by (erule wb_runE) (auto simp: pairing_inv_def)

lemma work_inv_call: "wb_call s t \<Longrightarrow> work_inv s \<Longrightarrow> work_inv t"
  by (erule wb_callE) (auto simp: work_inv_def)

lemma work_inv_run: "wb_run s t \<Longrightarrow> work_inv s \<Longrightarrow> work_inv t"
  by (erule wb_runE) (auto simp: work_inv_def)

lemma event_inv_call: "wb_call s t \<Longrightarrow> \<forall>i. writers t i \<noteq> WSend [] \<Longrightarrow> event_inv s \<Longrightarrow> event_inv t"
  by (erule wb_callE) (simp_all add: event_inv_def)

lemma event_inv_run: "wb_run s t \<Longrightarrow> event_inv s \<Longrightarrow> event_inv t"
  by (erule wb_runE) (auto simp: event_inv_def)

lemma event_reach_inv: "wb_event_reach s \<Longrightarrow> event_inv s"
  by (induction rule: wb_event_reach.induct)
    (auto simp: wb_init_def event_inv_def [of "\<lparr>buf = _, closed = _, mux = _, reader = _, writers = _, loop = _, crashed = _, sent = _, results = _\<rparr>"]
      intro: event_inv_call event_inv_run)

lemma buf_Read_split: "buf_Read b n = (xs, rest, e) \<Longrightarrow> b = xs @ rest"
  by (auto simp: buf_Read_def split: if_splits)

lemma fifo_inv_call: "wb_call s t \<Longrightarrow> fifo_inv s \<Longrightarrow> fifo_inv t"
  by (erule wb_callE) (auto simp: fifo_inv_def delivered_def)

lemma fifo_inv_run: "wb_run s t \<Longrightarrow> fifo_inv s \<Longrightarrow> fifo_inv t"
  by (erule wb_runE) (auto simp: fifo_inv_def delivered_def dest: buf_Read_split intro: prefix_prefix)

lemmas wb_inv_steps =
  lock_inv_call lock_inv_run pairing_inv_call pairing_inv_run work_inv_call work_inv_run
  fifo_inv_call fifo_inv_run

lemma wb_reach_inv: "wb_reach s \<Longrightarrow> lock_inv s \<and> pairing_inv s \<and> work_inv s \<and> fifo_inv s"
proof (induction rule: wb_reach.induct)
  case reach_init
  show ?case
    by (simp add: wb_init_def lock_inv_def pairing_inv_def work_inv_def fifo_inv_def delivered_def)
qed (blast intro: wb_inv_steps)+

section \<open>Progress\<close>

text \<open>A loop that has an answer has a reader that waits for it or has just been checked.\<close>

lemma answer_awaited:
  assumes "pairing_inv s" "\<not> crashed s" "\<not> closed s" "loop s \<in> {LGot xs e, LWantLock xs e, LSend xs e}"
  shows "\<exists>n. reader s = RSent n \<or> reader s = RWait n"
  using assms by (cases "reader s") (auto simp: pairing_inv_def)

text \<open>
  As long as the buffer is open and nothing crashed, a state with a read past its check or a write
  past its check is not stuck: unless the loop is waiting for the first byte and nobody writes, or holds an
  empty write against a reader with the lock, some step of the goroutines is possible.
\<close>

lemma wb_progress:
  assumes inv: "lock_inv s" "pairing_inv s" "work_inv s"
    and live: "\<not> crashed s" "\<not> closed s"
    and busy: "writers s i = WSend d \<or> (reader s \<noteq> RIdle \<and> \<not> (\<exists>n. loop s = LWaitWrite n))"
    and free: "\<not> stuck_on_empty s"
  shows "\<exists>t. wb_run s t"
proof -
  have awaited: "(\<exists>n. reader s = RSent n) \<or> mux s = Free" if "loop s \<in> {LGot xs e, LWantLock xs e}" for xs e
    using answer_awaited [OF inv(2) live, of xs e] inv(1) that by (cases "mux s") (auto simp: lock_inv_def)
  show ?thesis
  proof (cases "loop s")
    case LSelect
    show ?thesis
    proof (cases "reader s")
      case (RLocked n)
      with LSelect live show ?thesis by (blast intro: wb_run.chan_read)
    next
      case (RChecked n)
      have "mux s = Free"
        using inv(1) LSelect RChecked by (cases "mux s") (auto simp: lock_inv_def)
      with RChecked live show ?thesis by (blast intro: wb_run.reader_lock)
    qed (use inv LSelect busy live in \<open>auto simp: pairing_inv_def intro: wb_run.chan_write\<close>)
  next
    case (LGotWrite e)
    show ?thesis
    proof (cases "e = []")
      case True
      have "mux s \<noteq> ByLoop" using inv(1) LGotWrite by (simp add: lock_inv_def)
      moreover have "\<exists>n. reader s = RSent n" if "mux s = ByReader"
        using inv(1) that free LGotWrite True by (auto simp: lock_inv_def stuck_on_empty_def)
      ultimately have "(\<exists>n. reader s = RSent n) \<or> mux s = Free" by (cases "mux s") auto
      with LGotWrite True live show ?thesis by (blast intro: wb_run.loop_empty wb_run.reader_unlock)
    next
      case False
      with LGotWrite live show ?thesis by (blast intro: wb_run.loop_append)
    qed
  next
    case (LRead n)
    with live show ?thesis by (cases "buf s") (auto intro: wb_run.loop_read_empty wb_run.loop_read_data)
  next
    case (LWaitWrite n)
    with busy live show ?thesis by (auto intro: wb_run.chan_write_waiting)
  next
    case (LDoRead n)
    with live show ?thesis by (metis prod_cases3 wb_run.loop_do_read)
  next
    case (LGot xs e)
    with awaited have "(\<exists>n. reader s = RSent n) \<or> mux s = Free" by blast
    with LGot live show ?thesis by (blast intro: wb_run.loop_check wb_run.reader_unlock)
  next
    case (LWantLock xs e)
    with awaited have "(\<exists>n. reader s = RSent n) \<or> mux s = Free" by blast
    with LWantLock live show ?thesis by (blast intro: wb_run.loop_lock wb_run.reader_unlock)
  next
    case (LSend xs e)
    with answer_awaited [OF inv(2) live, of xs e] have "\<exists>n. reader s = RSent n \<or> reader s = RWait n" by simp
    with LSend live show ?thesis by (blast intro: wb_run.reader_unlock wb_run.chan_ret)
  next
    case LSent
    with live show ?thesis by (blast intro: wb_run.loop_unlock)
  next
    case LDone
    with inv live show ?thesis by (simp add: work_inv_def)
  qed
qed

text \<open>The exception: nothing moves any more, not even a close, which needs the lock as well.\<close>

lemma stuck_for_good:
  assumes "lock_inv s" "stuck_on_empty s" "\<not> closed s" shows "\<not> wb_run s t" "\<not> wb_call s t"
proof -
  have s: "mux s = ByReader" "loop s = LGotWrite []" "\<exists>n. reader s = RLocked n"
    using assms(1,2) by (auto simp: lock_inv_def stuck_on_empty_def)
  show "\<not> wb_run s t"
    by (rule notI, erule wb_runE) (use s assms(3) in auto)
  show "\<not> wb_call s t"
    by (rule notI, erule wb_callE) (use s in auto)
qed

section \<open>Quiescent calls are runs of the goroutines\<close>

text \<open>The system at rest with a given open buffer: no call in progress, the loop selecting.\<close>

definition at_rest :: "wb_sys \<Rightarrow> watch_buffer \<Rightarrow> bool" where
  "at_rest s w = (\<not> crashed s \<and> mux s = Free \<and> reader s = RIdle \<and> (\<forall>i. writers s i = WIdle) \<and>
     loop s = LSelect \<and> closed s = wb_closed w \<and> buf s = wb_buf w)"

definition wb_any :: "wb_sys \<Rightarrow> wb_sys \<Rightarrow> bool" where
  "wb_any s t = (wb_call s t \<or> wb_run s t)"

lemma reach_any: "wb_any\<^sup>*\<^sup>* s t \<Longrightarrow> wb_reach s \<Longrightarrow> wb_reach t"
  by (induction rule: rtranclp_induct) (auto simp: wb_any_def intro: wb_reach.intros)

lemma any_snoc: "wb_any\<^sup>*\<^sup>* s t \<Longrightarrow> wb_run t u \<Longrightarrow> wb_any\<^sup>*\<^sup>* s u"
  by (rule rtranclp.rtrancl_into_rtrancl) (auto simp: wb_any_def)

lemma any_call: "wb_call s t \<Longrightarrow> wb_any\<^sup>*\<^sup>* s t"
  by (auto simp: wb_any_def)

text \<open>An uncontended write is carried out as the quiescent model says.\<close>

lemma wb_Write_run:
  assumes "at_rest s w" "\<not> wb_closed w"
  shows "\<exists>t. wb_any\<^sup>*\<^sup>* s t \<and> at_rest t (fst (wb_Write w d)) \<and> sent t = sent s @ d \<and> results t = results s"
proof -
  define s1 where "s1 = s\<lparr>writers := (writers s)(0 := WSend d)\<rparr>"
  define s2 where "s2 = s1\<lparr>writers := (writers s1)(0 := WIdle), loop := LGotWrite d, sent := sent s1 @ d\<rparr>"
  define s3 where "s3 = s2\<lparr>buf := buf s2 @ d, loop := LSelect\<rparr>"
  have "wb_call s s1" unfolding s1_def by (rule wb_call.write_begin) (use assms in \<open>auto simp: at_rest_def\<close>)
  moreover have "wb_run s1 s2" unfolding s2_def
    by (rule wb_run.chan_write) (use assms in \<open>auto simp: at_rest_def s1_def\<close>)
  moreover have "wb_run s2 s3"
  proof (cases "d = []")
    case True
    then have "wb_run s2 (s2\<lparr>loop := (if closed s2 then LDone else LSelect)\<rparr>)"
      by (intro wb_run.loop_empty) (use assms in \<open>auto simp: at_rest_def s1_def s2_def\<close>)
    moreover have "s3 = s2\<lparr>loop := (if closed s2 then LDone else LSelect)\<rparr>"
      by (rule wb_sys.equality) (use True assms in \<open>simp_all add: s3_def s2_def s1_def at_rest_def\<close>)
    ultimately show ?thesis by (simp only:)
  next
    case False
    then show ?thesis unfolding s3_def
      by (intro wb_run.loop_append) (use assms in \<open>auto simp: at_rest_def s1_def s2_def\<close>)
  qed
  ultimately have "wb_any\<^sup>*\<^sup>* s s3" by (blast intro: any_snoc any_call)
  moreover have "at_rest s3 (fst (wb_Write w d))" "sent s3 = sent s @ d" "results s3 = results s"
    using assms by (auto simp: at_rest_def wb_Write_def s3_def s2_def s1_def)
  ultimately show ?thesis by blast
qed

text \<open>An uncontended read of a non-empty buffer likewise.\<close>

lemma wb_Read_run:
  assumes "at_rest s w" "\<not> wb_closed w" "wb_buf w \<noteq> []"
  shows "\<exists>t r. wb_any\<^sup>*\<^sup>* s t \<and> wb_Read w n = (w\<lparr>wb_buf := buf t\<rparr>, Some r) \<and>
    at_rest t (w\<lparr>wb_buf := buf t\<rparr>) \<and> results t = results s @ [r] \<and> sent t = sent s"
proof -
  obtain xs rest e where r: "buf_Read (wb_buf w) n = (xs, rest, e)" by (metis prod_cases3)
  define s1 where "s1 = s\<lparr>reader := RChecked n\<rparr>"
  define s2 where "s2 = s1\<lparr>reader := RLocked n, mux := ByReader\<rparr>"
  define s3 where "s3 = s2\<lparr>reader := RSent n, loop := LRead n\<rparr>"
  define s4 where "s4 = s3\<lparr>reader := RWait n, mux := Free\<rparr>"
  define s5 where "s5 = s4\<lparr>loop := LDoRead n\<rparr>"
  define s6 where "s6 = s5\<lparr>buf := rest, loop := LGot xs e\<rparr>"
  define s7 where "s7 = s6\<lparr>loop := (if closed s6 then LSelect else LWantLock xs e)\<rparr>"
  define s8 where "s8 = s7\<lparr>loop := LSend xs e, mux := ByLoop\<rparr>"
  define s9 where "s9 = s8\<lparr>loop := LSent, reader := RIdle, results := results s8 @ [(xs, e)]\<rparr>"
  define s10 where "s10 = s9\<lparr>loop := LSelect, mux := Free\<rparr>"
  note defs = s1_def s2_def s3_def s4_def s5_def s6_def s7_def s8_def s9_def s10_def
  have "wb_any\<^sup>*\<^sup>* s s1" unfolding s1_def by (rule any_call, rule wb_call.read_begin) (use assms in \<open>auto simp: at_rest_def\<close>)
  then have "wb_any\<^sup>*\<^sup>* s s2" unfolding s2_def
    by (rule any_snoc, intro wb_run.reader_lock) (use assms in \<open>auto simp: at_rest_def defs\<close>)
  then have "wb_any\<^sup>*\<^sup>* s s3" unfolding s3_def
    by (rule any_snoc, intro wb_run.chan_read) (use assms in \<open>auto simp: at_rest_def defs\<close>)
  then have "wb_any\<^sup>*\<^sup>* s s4" unfolding s4_def
    by (rule any_snoc, intro wb_run.reader_unlock) (use assms in \<open>auto simp: at_rest_def defs\<close>)
  then have "wb_any\<^sup>*\<^sup>* s s5" unfolding s5_def
    by (rule any_snoc, intro wb_run.loop_read_data) (use assms in \<open>auto simp: at_rest_def defs\<close>)
  then have "wb_any\<^sup>*\<^sup>* s s6" unfolding s6_def
    by (rule any_snoc, intro wb_run.loop_do_read) (use assms r in \<open>auto simp: at_rest_def defs\<close>)
  then have "wb_any\<^sup>*\<^sup>* s s7" unfolding s7_def
    by (rule any_snoc, intro wb_run.loop_check) (use assms in \<open>auto simp: at_rest_def defs\<close>)
  then have "wb_any\<^sup>*\<^sup>* s s8" unfolding s8_def
    by (rule any_snoc, intro wb_run.loop_lock) (use assms in \<open>auto simp: at_rest_def defs\<close>)
  then have "wb_any\<^sup>*\<^sup>* s s9" unfolding s9_def
    by (rule any_snoc, intro wb_run.chan_ret) (use assms in \<open>auto simp: at_rest_def defs\<close>)
  then have "wb_any\<^sup>*\<^sup>* s s10" unfolding s10_def
    by (rule any_snoc, intro wb_run.loop_unlock) (use assms in \<open>auto simp: at_rest_def defs\<close>)
  moreover have "wb_Read w n = (w\<lparr>wb_buf := buf s10\<rparr>, Some (xs, e))" "at_rest s10 (w\<lparr>wb_buf := buf s10\<rparr>)"
    "results s10 = results s @ [(xs, e)]" "sent s10 = sent s"
    using assms r by (auto simp: at_rest_def wb_Read_def defs)
  ultimately show ?thesis by blast
qed

lemma at_rest_init: "at_rest wb_init (NewWatchBuffer r)"
  by (simp add: at_rest_def wb_init_def NewWatchBuffer_def)

text \<open>A run that writes two bytes and reads one of them.\<close>

lemma write_two_read_one:
  "\<exists>s. wb_reach s \<and> \<not> closed s \<and> sent s = ''xy'' \<and> delivered s = ''x''"
proof -
  obtain t where t: "wb_any\<^sup>*\<^sup>* wb_init t" "at_rest t (fst (wb_Write (NewWatchBuffer []) ''xy''))"
    "sent t = sent wb_init @ ''xy''" "results t = results wb_init"
    using wb_Write_run [OF at_rest_init, of "[]" "''xy''"] by (auto simp: NewWatchBuffer_def)
  let ?w = "fst (wb_Write (NewWatchBuffer []) ''xy'')"
  have w: "\<not> wb_closed ?w" "wb_buf ?w \<noteq> []" "wb_Read ?w 1 = (?w\<lparr>wb_buf := ''y''\<rparr>, Some (''x'', None))"
    by (simp_all add: wb_Write_def NewWatchBuffer_def wb_Read_def buf_Read_def)
  obtain u r where u: "wb_any\<^sup>*\<^sup>* t u" "wb_Read ?w 1 = (?w\<lparr>wb_buf := buf u\<rparr>, Some r)"
    "at_rest u (?w\<lparr>wb_buf := buf u\<rparr>)" "results u = results t @ [r]" "sent u = sent t"
    using wb_Read_run [OF t(2) w(1,2), of 1] by blast
  have "wb_reach u" using reach_any [OF u(1) reach_any [OF t(1) wb_reach.reach_init]] .
  moreover have "r = (''x'', None)" using u(2) w(3) by simp
  ultimately show ?thesis
    using u t w(1) by (intro exI [of _ u]) (auto simp: delivered_def wb_init_def at_rest_def)
qed

section \<open>Empty writes\<close>

text \<open>
  An empty write while the loop waits for the first byte of a read makes that read return \<open>EOF\<close>, although
  the buffer is open.
\<close>

lemma empty_write_eof:
  assumes "\<not> crashed s" "\<not> closed s" "loop s = LWaitWrite n" "n \<noteq> 0" "buf s = []" "writers s i = WSend []"
  shows "\<exists>t u. wb_run s t \<and> wb_run t u \<and> loop u = LGot [] (Some EOF) \<and> \<not> closed u"
proof -
  let ?t = "s\<lparr>writers := (writers s)(i := WIdle), buf := buf s @ [], loop := LDoRead n, sent := sent s @ []\<rparr>"
  have "wb_run s ?t" using assms by (intro wb_run.chan_write_waiting) auto
  moreover have "wb_run ?t (?t\<lparr>buf := [], loop := LGot [] (Some EOF)\<rparr>)"
    using assms by (intro wb_run.loop_do_read) (auto simp: buf_Read_def)
  ultimately show ?thesis using assms(2) by fastforce
qed

text \<open>
  An empty write the loop takes between the check and the request of a read: the deadlock is reachable, and it
  is for good.
\<close>

lemma empty_write_deadlock:
  "\<exists>s. wb_reach s \<and> \<not> crashed s \<and> \<not> closed s \<and> stuck_on_empty s \<and> (\<forall>t. \<not> wb_run s t \<and> \<not> wb_call s t)"
proof -
  define s1 where "s1 = wb_init\<lparr>writers := (writers wb_init)(0 := WSend [])\<rparr>"
  define s2 where "s2 = s1\<lparr>reader := RChecked 1\<rparr>"
  define s3 where "s3 = s2\<lparr>writers := (writers s2)(0 := WIdle), loop := LGotWrite [], sent := sent s2 @ []\<rparr>"
  define s4 where "s4 = s3\<lparr>reader := RLocked 1, mux := ByReader\<rparr>"
  note defs = wb_init_def s1_def s2_def s3_def s4_def
  have 1: "wb_call wb_init s1" unfolding s1_def by (rule wb_call.write_begin) (simp_all add: wb_init_def)
  have 2: "wb_call s1 s2" unfolding s2_def by (rule wb_call.read_begin) (simp_all add: defs)
  have 3: "wb_run s2 s3" unfolding s3_def by (rule wb_run.chan_write) (simp_all add: defs)
  have 4: "wb_run s3 s4" unfolding s4_def by (rule wb_run.reader_lock) (simp_all add: defs)
  have "wb_reach s2" using wb_reach.reach_call [OF wb_reach.reach_call [OF wb_reach.reach_init 1] 2] .
  then have r: "wb_reach s4" using wb_reach.reach_run [OF wb_reach.reach_run [OF _ 3] 4] by blast
  moreover have s: "stuck_on_empty s4" "\<not> closed s4" "\<not> crashed s4" by (simp_all add: stuck_on_empty_def defs)
  moreover have "\<not> wb_run s4 t" "\<not> wb_call s4 t" for t
    using stuck_for_good [OF _ s(1,2)] wb_reach_inv [OF r] by blast+
  ultimately show ?thesis by blast
qed

section \<open>Races with close\<close>

text \<open>Once the channels are closed, a write that passed its check keeps waiting to send.\<close>

lemma closed_write_pending:
  assumes "wb_any\<^sup>*\<^sup>* s t" "closed s" "writers s i = WSend d"
  shows "closed t \<and> writers t i = WSend d"
  using assms
proof (induction rule: rtranclp_induct)
  case (step t u)
  then have t: "closed t" "writers t i = WSend d" by blast+
  have "closed u \<and> writers u i = WSend d" if "wb_run t u"
    using that by (rule wb_runE) (use t in auto)
  moreover have "closed u \<and> writers u i = WSend d" if "wb_call t u"
    using that by (rule wb_callE) (use t in auto)
  ultimately show ?case using step(2) by (auto simp: wb_any_def)
qed blast

text \<open>A read that waits when the buffer is closed returns no data and no error.\<close>

lemma close_pending_read:
  assumes "wb_reach s" "\<not> crashed s" "reader s = RWait n" "closed s"
  shows "wb_run s (s\<lparr>reader := RIdle, results := results s @ [([], None)]\<rparr>)"
  using assms by (intro wb_run.reader_closed)

section \<open>Properties\<close>

text \<open>
  C24: whatever the interleaving of the reader, the writers, a closer and the loop, the reader has
  received a prefix of the bytes written; while the buffer is open every byte written is either
  received, in the loop's hands or in the buffer, in order.
\<close>

theorem watch_buffer_fifo:
  assumes "wb_reach s"
  shows "prefix (delivered s) (sent s) \<and>
    (\<not> closed s \<longrightarrow> sent s = delivered s @ loop_out (loop s) @ buf s @ loop_in (loop s))"
  using wb_reach_inv [OF assms] by (simp add: fifo_inv_def)

theorem watch_buffer_fifo_witness:
  "\<exists>s. wb_reach s \<and> delivered s = ''x'' \<and> loop_out (loop s) @ buf s @ loop_in (loop s) = ''y''"
proof -
  obtain s where s: "wb_reach s" "\<not> closed s" "sent s = ''xy''" "delivered s = ''x''"
    using write_two_read_one by blast
  with watch_buffer_fifo [OF s(1)] show ?thesis by (intro exI [of _ s]) simp
qed

text \<open>
  C25: while the buffer is open and a write has passed its check, or a read is under way and the loop is not
  waiting for a first byte, some goroutine can step, except in exactly one situation: the loop has taken an
  empty write and waits for the lock that a reader holds while it waits for the loop.  If no write is empty,
  as for the events the program emits, this never happens; an empty write can lead there
  (\<open>empty_write_deadlock\<close>).
\<close>

theorem watch_buffer_live:
  assumes "wb_reach s" "\<not> crashed s" "\<not> closed s"
    and "writers s i = WSend d \<or> (reader s \<noteq> RIdle \<and> \<not> (\<exists>n. loop s = LWaitWrite n))"
  shows "((\<exists>t. wb_run s t) \<longleftrightarrow> \<not> stuck_on_empty s) \<and> (wb_event_reach s \<longrightarrow> \<not> stuck_on_empty s)"
proof -
  note inv = wb_reach_inv [OF assms(1)]
  have "\<exists>t. wb_run s t" if "\<not> stuck_on_empty s" using wb_progress [OF _ _ _ assms(2-) that] inv by blast
  moreover have "\<not> stuck_on_empty s" if "wb_run s t" for t using stuck_for_good(1) inv assms(3) that by blast
  moreover have "\<not> stuck_on_empty s" if "wb_event_reach s"
    using event_reach_inv [OF that] assms(3) by (simp add: event_inv_def stuck_on_empty_def)
  ultimately show ?thesis by blast
qed

theorem watch_buffer_live_witness:
  "\<exists>t. wb_run (wb_init\<lparr>writers := (writers wb_init)(0 := WSend ''x'')\<rparr>) t"
proof -
  let ?s = "wb_init\<lparr>writers := (writers wb_init)(0 := WSend ''x'')\<rparr>"
  have call: "wb_call wb_init ?s"
    by (rule wb_call.write_begin) (simp_all add: wb_init_def)
  have "wb_event_reach ?s"
    by (rule wb_event_reach.event_call [OF wb_event_reach.event_init call]) (simp add: wb_init_def)
  with watch_buffer_live [OF wb_reach.reach_call [OF wb_reach.reach_init call], of 0 "''x''"] show ?thesis
    by (simp add: wb_init_def)
qed

text \<open>
  C38: whenever a \<open>Write\<close> has passed its check of \<open>closed\<close> and not yet sent, and nobody holds the
  lock, \<open>Close\<close> can close the channels, and no one else is about to send then; but from then on the write
  can only end in a panic: in every later state the process has either crashed, or the write is still waiting
  and its next step is the panic of the send on the closed channel.
\<close>

theorem close_write_race:
  assumes "wb_reach s" "\<not> crashed s" "mux s = Free" "writers s i = WSend d"
  shows "wb_call s (s\<lparr>closed := True\<rparr>) \<and> (\<forall>n. reader s \<noteq> RLocked n) \<and> (\<forall>xs e. loop s \<noteq> LSend xs e) \<and>
    (\<forall>t. wb_any\<^sup>*\<^sup>* (s\<lparr>closed := True\<rparr>) t \<longrightarrow>
       crashed t \<or> (closed t \<and> writers t i = WSend d \<and> wb_run t (t\<lparr>crashed := True\<rparr>)))"
proof -
  have "wb_call s (s\<lparr>closed := True\<rparr>)" using assms by (intro wb_call.close_call)
  moreover have "(\<forall>n. reader s \<noteq> RLocked n) \<and> (\<forall>xs e. loop s \<noteq> LSend xs e)"
    using wb_reach_inv [OF assms(1)] assms(3) by (auto simp: lock_inv_def)
  moreover have "closed t \<and> writers t i = WSend d" if "wb_any\<^sup>*\<^sup>* (s\<lparr>closed := True\<rparr>) t" for t
    by (rule closed_write_pending [OF that]) (simp_all add: assms(4))
  ultimately show ?thesis using wb_run.writer_crash by blast
qed

theorem close_write_race_witness:
  "wb_reach (wb_init\<lparr>writers := (writers wb_init)(0 := WSend ''x''), closed := True, crashed := True\<rparr>)"
proof -
  let ?w = "wb_init\<lparr>writers := (writers wb_init)(0 := WSend ''x'')\<rparr>"
  let ?c = "?w\<lparr>closed := True\<rparr>"
  have w: "wb_reach ?w"
    by (rule wb_reach.reach_call [OF wb_reach.reach_init wb_call.write_begin]) (simp_all add: wb_init_def)
  have "\<not> crashed ?w" "mux ?w = Free" "writers ?w 0 = WSend ''x''" by (simp_all add: wb_init_def)
  note race = close_write_race [OF w this]
  from race have c: "wb_reach ?c" using wb_reach.reach_call [OF w] by blast
  have "\<not> crashed ?c" by (simp add: wb_init_def)
  with race have "wb_run ?c (?c\<lparr>crashed := True\<rparr>)" by blast
  from wb_reach.reach_run [OF c this] show ?thesis by (simp add: wb_init_def)
qed

end
