(* ===== verification/Rest_Client.thy ===== *)
theory Rest_Client
  imports Resource_Store Field_Selector Watch_Buffer
begin

text \<open>
  The fake REST client (\<open>pkg/framework/restclient/external/restclient.go\<close>): reading
  object fields through the template engine, the typed listings, the registry of watchers and the
  emission of events to them, and the request router \<open>Do\<close>.

  Watch buffers are shared between the registry and the response bodies, so they live in an
  explicit store (\<open>we_bufs\<close>) and are referred to by index.  The environment the resource
  store's handlers act on is \<open>watch_env\<close>.  A Go \<open>range\<close> over the registry's
  selector map is a walk over its association list.
\<close>

section \<open>Reading fields through the template engine\<close>

fun html_escape :: "string \<Rightarrow> string" where
  "html_escape [] = []"
| "html_escape (c # cs) =
     (if c = CHR 0x00 then [CHR 0xEF, CHR 0xBF, CHR 0xBD]
      else if c = CHR 0x22 then ''&#34;''
      else if c = CHR ''&'' then ''&amp;''
      else if c = CHR 0x27 then ''&#39;''
      else if c = CHR ''+'' then ''&#43;''
      else if c = CHR ''<'' then ''&lt;''
      else if c = CHR ''>'' then ''&gt;''
      else [c]) @ html_escape cs"

definition ident_char :: "char \<Rightarrow> bool" where
  "ident_char c =
     (let n = (of_char c :: nat) in
      48 \<le> n \<and> n \<le> 57 \<or> 65 \<le> n \<and> n \<le> 90 \<or> 97 \<le> n \<and> n \<le> 122 \<or> n = 95 \<or> 128 \<le> n)"

text \<open>
  A dotted chain of identifiers, or the object itself.  A point before a digit starts a number for the lexer of
  the template engine, so that a component that starts with a digit is no identifier and does not parse; the
  one such field that does parse, a number alone, like \<open>.5\<close>, is left out.
\<close>

definition ident_word :: "string \<Rightarrow> bool" where
  "ident_word w = (w \<noteq> [] \<and> hd w \<notin> set ''0123456789'' \<and> list_all ident_char w)"

definition ident_path :: "string \<Rightarrow> bool" where
  "ident_path f = (f = [] \<or> list_all ident_word (Split (CHR ''.'') f))"

definition meta_fields :: "object_meta \<Rightarrow> (string, string) gomap" where
  "meta_fields m =
     [(''Name'', om_Name m), (''Namespace'', om_Namespace m), (''UID'', om_UID m),
      (''ObjectMeta.Name'', om_Name m), (''ObjectMeta.Namespace'', om_Namespace m),
      (''ObjectMeta.UID'', om_UID m)]"

fun obj_fields :: "obj \<Rightarrow> (string, string) gomap" where
  "obj_fields (PodO p) =
     meta_fields (pod_meta p) @
     [(''Spec.NodeName'', pod_NodeName p), (''Spec.SchedulerName'', pod_SchedulerName p),
      (''Status.Phase'', pod_Phase p), (''Status.Reason'', pod_Reason p)] @ pod_extra p"
| "obj_fields (NodeO n) = meta_fields (node_meta n) @ node_extra n"
| "obj_fields (ServiceO v) = meta_fields (po_meta v) @ po_extra v"
| "obj_fields (PVO v) = meta_fields (po_meta v) @ po_extra v"
| "obj_fields (PVCO v) = meta_fields (po_meta v) @ po_extra v"
| "obj_fields (StorageClassO v) = meta_fields (po_meta v) @ po_extra v"
| "obj_fields (ExplicitKeyO k) = [([], k)]"
| "obj_fields (OpaqueO r) = [([], r)]"

datatype template_result = TOut string | TErr | TParse

text \<open>Parse and execute the template \<open>{{.field}}\<close> on an object.\<close>

definition exec_template :: "string \<Rightarrow> obj \<Rightarrow> template_result" where
  "exec_template field o' =
     (case map_of (obj_fields o') field of
        Some v \<Rightarrow> TOut (html_escape v)
      | None \<Rightarrow> if ident_path field then TErr else TParse)"

record object_fields_accessor =
  acc_obj :: obj
  acc_buf :: string

definition NewObjectFieldsAccessor :: "obj \<Rightarrow> object_fields_accessor" where
  "NewObjectFieldsAccessor o' = \<lparr>acc_obj = o', acc_buf = []\<rparr>"

definition acc_Write :: "object_fields_accessor \<Rightarrow> string \<Rightarrow> object_fields_accessor" where
  "acc_Write a p = a\<lparr>acc_buf := p\<rparr>"

definition acc_Has :: "object_fields_accessor \<Rightarrow> string \<Rightarrow> (object_fields_accessor \<times> bool) outcome" where
  "acc_Has a field =
     (case exec_template field (acc_obj a) of
        TOut v \<Rightarrow> Ok (acc_Write a v, True)
      | TErr \<Rightarrow> Ok (a, False)
      | TParse \<Rightarrow> Panic ''template: field'')"

text \<open>The renaming of JSON aliases to Go field names, in the source's order.\<close>

definition go_field :: "string \<Rightarrow> string" where
  "go_field field =
     (let field = Replace ''spec'' ''Spec'' field;
          field = Replace ''schedulerName'' ''SchedulerName'' field;
          field = Replace ''status'' ''Status'' field;
          field = Replace ''nodeName'' ''NodeName'' field;
          field = Replace ''phase'' ''Phase'' field
      in Replace ''type'' ''Type'' field)"

text \<open>A failing execution leaves the buffer as it was, and the buffer is returned.\<close>

definition acc_Get :: "object_fields_accessor \<Rightarrow> string \<Rightarrow> (object_fields_accessor \<times> string) outcome" where
  "acc_Get a field =
     (case exec_template (go_field field) (acc_obj a) of
        TOut v \<Rightarrow> Ok (acc_Write a v, v)
      | TErr \<Rightarrow> Ok (a, acc_buf a)
      | TParse \<Rightarrow> Panic ''template: fieldPath'')"

section \<open>Listings\<close>

fun select_items :: "(obj \<Rightarrow> bool) \<Rightarrow> selector \<Rightarrow> obj list \<Rightarrow> obj list outcome" where
  "select_items is_kind sel [] = Ok []"
| "select_items is_kind sel (o' # os) =
     bind_outcome (sel_Matches acc_Get sel (NewObjectFieldsAccessor o'))
       (\<lambda>(_, ok). if \<not> ok then select_items is_kind sel os
         else if is_kind o' then bind_outcome (select_items is_kind sel os) (\<lambda>xs. Ok (o' # xs))
         else Panic ''interface conversion'')"

definition rc_Pods :: "selector \<Rightarrow> 'e resource_store \<Rightarrow> runtime_object outcome" where
  "rc_Pods sel s = bind_outcome (select_items (has_type Pods) sel (rs_List Pods s)) (\<lambda>xs. Ok (ROList Pods xs))"

definition rc_Services :: "selector \<Rightarrow> 'e resource_store \<Rightarrow> runtime_object outcome" where
  "rc_Services sel s =
     bind_outcome (select_items (has_type Services) sel (rs_List Services s)) (\<lambda>xs. Ok (ROList Services xs))"

definition rc_PersistentVolumes :: "selector \<Rightarrow> 'e resource_store \<Rightarrow> runtime_object outcome" where
  "rc_PersistentVolumes sel s =
     bind_outcome (select_items (has_type PersistentVolumes) sel (rs_List PersistentVolumes s))
       (\<lambda>xs. Ok (ROList PersistentVolumes xs))"

definition rc_PersistentVolumeClaims :: "selector \<Rightarrow> 'e resource_store \<Rightarrow> runtime_object outcome" where
  "rc_PersistentVolumeClaims sel s =
     bind_outcome (select_items (has_type PersistentVolumeClaims) sel (rs_List PersistentVolumeClaims s))
       (\<lambda>xs. Ok (ROList PersistentVolumeClaims xs))"

definition rc_Nodes :: "selector \<Rightarrow> 'e resource_store \<Rightarrow> runtime_object outcome" where
  "rc_Nodes sel s = bind_outcome (select_items (has_type Nodes) sel (rs_List Nodes s)) (\<lambda>xs. Ok (ROList Nodes xs))"

definition rc_List :: "resource_type \<Rightarrow> selector \<Rightarrow> 'e resource_store \<Rightarrow> runtime_object outcome" where
  "rc_List resource sel s =
     (if resource = Pods then rc_Pods sel s
      else if resource = Services then rc_Services sel s
      else if resource = PersistentVolumes then rc_PersistentVolumes sel s
      else if resource = PersistentVolumeClaims then rc_PersistentVolumeClaims sel s
      else if resource = Nodes then rc_Nodes sel s
      else Err (not_recognized resource))"

section \<open>Watchers\<close>

type_synonym watcher_map = "(string, nat list) gomap"

record watch_env =
  watcherReadGetters :: "(resource_type, watcher_map) gomap"
  we_bufs :: "watch_buffer list"

definition put_buf :: "nat \<Rightarrow> watch_buffer \<Rightarrow> watch_env \<Rightarrow> watch_env" where
  "put_buf i w e = e\<lparr>we_bufs := (we_bufs e)[i := w]\<rparr>"

text \<open>Events to the watchers of one selector, stopping at the first error.\<close>

fun emit_to :: "encoder \<Rightarrow> string \<Rightarrow> obj \<Rightarrow> nat list \<Rightarrow> watch_env \<Rightarrow> watch_env \<times> unit outcome" where
  "emit_to enc eType o' [] e = (e, Ok ())"
| "emit_to enc eType o' (i # is) e =
     (case EmitWatchEvent enc (we_bufs e ! i) eType o' of
        (w, Ok _) \<Rightarrow> emit_to enc eType o' is (put_buf i w e)
      | (w, r) \<Rightarrow> (put_buf i w e, r))"

fun emit_selectors :: "encoder \<Rightarrow> string \<Rightarrow> obj \<Rightarrow> watcher_map \<Rightarrow> watch_env \<Rightarrow> watch_env \<times> unit outcome" where
  "emit_selectors enc eType o' [] e = (e, Ok ())"
| "emit_selectors enc eType o' ((fieldsSelector, is) # rg) e =
     (case bind_outcome (ParseSelectorOrDie fieldsSelector)
             (\<lambda>sel. sel_Matches acc_Get sel (NewObjectFieldsAccessor o')) of
        Ok (_, ok) \<Rightarrow>
          if \<not> ok then emit_selectors enc eType o' rg e
          else (case emit_to enc eType o' is e of
                  (e', Ok _) \<Rightarrow> emit_selectors enc eType o' rg e'
                | (e', r) \<Rightarrow> (e', r))
      | Err x \<Rightarrow> (e, Err x)
      | Panic p \<Rightarrow> (e, Panic p))"

definition EmitObjectWatchEvent ::
    "encoder \<Rightarrow> resource_type \<Rightarrow> string \<Rightarrow> obj \<Rightarrow> watch_env \<Rightarrow> watch_env \<times> unit outcome" where
  "EmitObjectWatchEvent enc resource eType o' e =
     (case map_of (watcherReadGetters e) resource of
        None \<Rightarrow> (e, Err ''Watch buffer for pods not initialized'')
      | Some rg \<Rightarrow> emit_selectors enc eType o' rg e)"

text \<open>\<open>Close\<close> closes every registered buffer.\<close>

definition rc_Close :: "watch_env \<Rightarrow> watch_env" where
  "rc_Close e =
     fold (\<lambda>i e. put_buf i (wb_Close (we_bufs e ! i)) e)
       (concat (map (\<lambda>(r, rg). concat (map snd rg)) (watcherReadGetters e))) e"

text \<open>Replay of the current objects into a new watcher; emission errors are ignored.\<close>

fun replay :: "encoder \<Rightarrow> nat \<Rightarrow> obj list \<Rightarrow> watch_env \<Rightarrow> watch_env \<times> unit outcome" where
  "replay enc i [] e = (e, Ok ())"
| "replay enc i (o' # os) e =
     (case EmitWatchEvent enc (we_bufs e ! i) ''ADDED'' o' of
        (w, Panic p) \<Rightarrow> (put_buf i w e, Panic p)
      | (w, _) \<Rightarrow> replay enc i os (put_buf i w e))"

definition register_watcher :: "resource_type \<Rightarrow> string \<Rightarrow> watcher_map \<Rightarrow> watch_env \<Rightarrow> watch_env" where
  "register_watcher resource selstr rg e =
     (let i = length (we_bufs e);
          watchers = (case map_of rg selstr of Some ws \<Rightarrow> ws | None \<Rightarrow> [])
      in e\<lparr>watcherReadGetters :=
             AList.update resource (AList.update selstr (watchers @ [i]) rg) (watcherReadGetters e),
           we_bufs := we_bufs e @ [NewWatchBuffer resource]\<rparr>)"

definition createWatchReadCloser ::
    "encoder \<Rightarrow> resource_type \<Rightarrow> selector \<Rightarrow> 'e resource_store \<Rightarrow> watch_env \<Rightarrow> watch_env \<times> nat outcome" where
  "createWatchReadCloser enc resource sel s e =
     (case map_of (watcherReadGetters e) resource of
        None \<Rightarrow> (e, Err (not_recognized resource))
      | Some rg \<Rightarrow>
          (let i = length (we_bufs e); e' = register_watcher resource (sel_String sel) rg e in
           case rc_List resource sel s of
             Ok (ROList _ items) \<Rightarrow>
               (case replay enc i items e' of (e'', Ok _) \<Rightarrow> (e'', Ok i)
                | (e'', Err x) \<Rightarrow> (e'', Err x) | (e'', Panic p) \<Rightarrow> (e'', Panic p))
           | Ok (ROSingle _) \<Rightarrow> (e', Ok i)
           | Err x \<Rightarrow> (e', Err x)
           | Panic p \<Rightarrow> (e', Panic p)))"

section \<open>Bodies for list and get\<close>

datatype body = BytesBody string | WatchBody nat

definition createReadCloser :: "encoder \<Rightarrow> runtime_object \<Rightarrow> body outcome" where
  "createReadCloser enc ro = bind_outcome (EncodeOrDie enc ro) (\<lambda>bs. Ok (BytesBody bs))"

definition createListReadCloser ::
    "encoder \<Rightarrow> resource_type \<Rightarrow> selector \<Rightarrow> 'e resource_store \<Rightarrow> body outcome" where
  "createListReadCloser enc resource sel s =
     bind_outcome (rc_List resource sel s) (createReadCloser enc)"

text \<open>The namespace a get compares with the requested one; a node has none.\<close>

definition item_namespace :: "obj \<Rightarrow> string" where
  "item_namespace o' =
     (case o' of NodeO _ \<Rightarrow> [] | _ \<Rightarrow> (case obj_meta o' of Some m \<Rightarrow> om_Namespace m | None \<Rightarrow> []))"

definition createGetReadCloser ::
    "encoder \<Rightarrow> resource_type \<Rightarrow> string \<Rightarrow> string \<Rightarrow> 'e resource_store \<Rightarrow> body outcome" where
  "createGetReadCloser enc resource resourceName namespace s =
     (let key = (if namespace \<noteq> [] then namespace @ ''/'' else []) @ resourceName in
      case rs_GetByKey resource key s of
        Panic p \<Rightarrow> Panic p
      | Err e \<Rightarrow> Err (''Unable to retrieve requested '' @ resource @ '' resource '' @ resourceName @ '': '' @ e)
      | Ok None \<Rightarrow> Err (''Requested '' @ resource @ '' resource '' @ resourceName @ '' not found'')
      | Ok (Some item) \<Rightarrow>
          if resource \<notin> {Pods, Services, PersistentVolumes, PersistentVolumeClaims, Nodes} then
            Err (''Resource '' @ resource @ '' not recognized'')
          else if \<not> has_type resource item then Panic ''interface conversion''
          else if namespace \<noteq> [] \<and> item_namespace item \<noteq> namespace then
            Err (''Requested '' @ resource @ '' resource '' @ resourceName @
                 '' not found. Namespace does not match'')
          else createReadCloser enc (ROSingle item))"

section \<open>The request router\<close>

record http_request =
  req_Path :: string
  req_Query :: "(string, string list) gomap"

record http_response =
  resp_StatusCode :: nat
  resp_ContentType :: string
  resp_Body :: body

record rest_client =
  rc_Req :: "http_request option"
  rc_Resp :: "http_response option"
  rc_Err :: "go_error option"
  rc_name :: string

text \<open>The clients of the verbs \<open>GET\<close>, \<open>PUT\<close> and so on.\<close>

record rest_request =
  rr_verb :: string
  rr_host :: string
  rr_content :: string
  rr_timeout_seconds :: nat

definition rc_request :: "string \<Rightarrow> rest_request" where
  "rc_request verb = \<lparr>rr_verb = verb, rr_host = ''localhost'', rr_content = ContentTypeJSON,
     rr_timeout_seconds = 30\<rparr>"

definition rc_Verb :: "string \<Rightarrow> rest_request" where "rc_Verb verb = rc_request verb"
definition rc_Get :: rest_request where "rc_Get = rc_request ''GET''"
definition rc_Put :: rest_request where "rc_Put = rc_request ''PUT''"
definition rc_Patch :: rest_request where "rc_Patch = rc_request ''PATCH''"
definition rc_Post :: rest_request where "rc_Post = rc_request ''POST''"
definition rc_Delete :: rest_request where "rc_Delete = rc_request ''DELETE''"

text \<open>No rate limiter; the group and the version of the core API.\<close>

definition rc_GetRateLimiter :: "unit option" where "rc_GetRateLimiter = None"
definition rc_APIVersion :: "string \<times> string" where "rc_APIVersion = ([], ''v1'')"

definition splitPath :: "string \<Rightarrow> string list" where
  "splitPath path =
     (let path = Trim (CHR ''/'') path in if path = [] then [] else Split (CHR ''/'') path)"

text \<open>\<open>value[0]\<close> of a query parameter: out of range panics.\<close>

definition first_value :: "string list \<Rightarrow> string outcome" where
  "first_value vs = (case vs of [] \<Rightarrow> Panic ''index out of range'' | v # _ \<Rightarrow> Ok v)"

definition fields_selector :: "http_request \<Rightarrow> selector outcome" where
  "fields_selector req =
     (case map_of (req_Query req) ''fieldSelector'' of
        None \<Rightarrow> Ok Everything
      | Some vs \<Rightarrow> bind_outcome (first_value vs) ParseSelectorOrDie)"

text \<open>Whether the request is a watch, and the path segments left.\<close>

definition watch_parts :: "http_request \<Rightarrow> string list \<Rightarrow> (bool \<times> string list) outcome" where
  "watch_parts req parts =
     (if hd parts = ''watch'' then Ok (True, tl parts)
      else case map_of (req_Query req) ''watch'' of
        None \<Rightarrow> Ok (False, parts)
      | Some vs \<Rightarrow> bind_outcome (first_value vs) (\<lambda>v. Ok (v = ''true'', parts)))"

definition unable :: "string \<Rightarrow> string \<Rightarrow> go_error" where
  "unable what part = ''Unable to create '' @ what @ '' for '' @ part @ [CHR 0x0A]"

definition resource_of :: "string \<Rightarrow> resource_type outcome" where
  "resource_of part = wrap_err ''Unable to process request: '' (StringToResourceType part)"

text \<open>The error of a failed getter is replaced by the router's own, quoting it.\<close>

definition getter_err :: "string \<Rightarrow> body outcome \<Rightarrow> body outcome" where
  "getter_err part r =
     (case r of Err e \<Rightarrow> Err (''Unable to create getter for '' @ part @ '': '' @ e @ [CHR 0x0A]) | _ \<Rightarrow> r)"

definition lister_err :: "string \<Rightarrow> body outcome \<Rightarrow> body outcome" where
  "lister_err part r = (case r of Err e \<Rightarrow> Err (unable ''lister'' part) | _ \<Rightarrow> r)"

definition expected_namespaces :: "http_request \<Rightarrow> string \<Rightarrow> go_error" where
  "expected_namespaces req part =
     ''Unable to decode query url: '' @ req_Path req @ ''. Expected namespaces, got '' @ part"

text \<open>The body of a request that is not a watch, by the number of path segments.\<close>

definition do_get :: "encoder \<Rightarrow> http_request \<Rightarrow> string list \<Rightarrow> selector \<Rightarrow> 'e resource_store \<Rightarrow> body outcome" where
  "do_get enc req parts sel s =
     (case parts of
        [r] \<Rightarrow>
          bind_outcome (resource_of r)
            (\<lambda>resource. lister_err r (createListReadCloser enc resource sel s))
      | [r, name] \<Rightarrow>
          bind_outcome (resource_of r)
            (\<lambda>resource. getter_err r (createGetReadCloser enc resource name [] s))
      | [p0, ns, r] \<Rightarrow>
          if p0 \<noteq> ''namespaces'' then Err (expected_namespaces req p0)
          else bind_outcome (resource_of r)
            (\<lambda>resource. bind_outcome (ParseSelectorOrDie (''Namespace='' @ ns))
               (\<lambda>nssel. lister_err p0 (createListReadCloser enc resource nssel s)))
      | p0 # ns # r # name # rest \<Rightarrow>
          if length rest > 1 then
            Err (''Cluster capacity RESTClient not implemented: unable to decode query url: '' @ req_Path req)
          else if length rest = 1 \<and> \<not> EqualFold (hd rest) ''status'' then
            Err (''Cluster capacity RESTClient not implemented: query url does not end with status: '' @ req_Path req)
          else if p0 \<noteq> ''namespaces'' then Err (expected_namespaces req p0)
          else bind_outcome (resource_of r)
            (\<lambda>resource. getter_err p0 (createGetReadCloser enc resource name ns s))
      | [] \<Rightarrow>
          Err (''Cluster capacity RESTClient not implemented: unable to decode query url: '' @ req_Path req))"

text \<open>The body of a watch request.\<close>

definition do_watch ::
    "encoder \<Rightarrow> string list \<Rightarrow> selector \<Rightarrow> 'e resource_store \<Rightarrow> watch_env \<Rightarrow> watch_env \<times> body outcome" where
  "do_watch enc parts sel s e =
     (case parts of
        [] \<Rightarrow> (e, Err ''Missing resource in REST client request url'')
      | p # _ \<Rightarrow>
          (case resource_of p of
             Err x \<Rightarrow> (e, Err x)
           | Panic x \<Rightarrow> (e, Panic x)
           | Ok resource \<Rightarrow>
               (case createWatchReadCloser enc resource sel s e of
                  (e', Ok i) \<Rightarrow> (e', Ok (WatchBody i))
                | (e', Err _) \<Rightarrow> (e', Err (unable ''watcher'' p))
                | (e', Panic x) \<Rightarrow> (e', Panic x))))"

definition respond :: "rest_client \<Rightarrow> body outcome \<Rightarrow> rest_client \<times> http_response outcome" where
  "respond c b =
     (case b of
        Ok body \<Rightarrow>
          (let resp = \<lparr>resp_StatusCode = 200, resp_ContentType = ContentTypeJSON, resp_Body = body\<rparr>
           in (c\<lparr>rc_Resp := Some resp\<rparr>, Ok resp))
      | Err e \<Rightarrow> (c, Err e)
      | Panic p \<Rightarrow> (c, Panic p))"

definition rc_Do ::
    "encoder \<Rightarrow> http_request \<Rightarrow> 'e resource_store \<Rightarrow> rest_client \<times> watch_env \<Rightarrow>
       (rest_client \<times> watch_env) \<times> http_response outcome" where
  "rc_Do enc req s ce =
     (let c = fst ce; e = snd ce in
      case rc_Err c of
        Some err \<Rightarrow> (ce, Err err)
      | None \<Rightarrow>
          (let c = c\<lparr>rc_Req := Some req\<rparr>; parts = splitPath (req_Path req) in
           if length parts < 1 then ((c, e), Err ''Missing resource in REST client request url'')
           else case fields_selector req of
             Err x \<Rightarrow> ((c, e), Err x)
           | Panic p \<Rightarrow> ((c, e), Panic p)
           | Ok sel \<Rightarrow>
               (case watch_parts req parts of
                  Err x \<Rightarrow> ((c, e), Err x)
                | Panic p \<Rightarrow> ((c, e), Panic p)
                | Ok (True, ps) \<Rightarrow>
                    (case do_watch enc ps sel s e of
                       (e', b) \<Rightarrow> (case respond c b of (c', r) \<Rightarrow> ((c', e'), r)))
                | Ok (False, ps) \<Rightarrow>
                    (case respond c (do_get enc req ps sel s) of (c', r) \<Rightarrow> ((c', e), r)))))"

definition NewRESTClient :: "string \<Rightarrow> resource_type list \<Rightarrow> rest_client \<times> watch_env" where
  "NewRESTClient name rs =
     (\<lparr>rc_Req = None, rc_Resp = None, rc_Err = None, rc_name = name\<rparr>,
      \<lparr>watcherReadGetters = map (\<lambda>r. (r, [])) rs, we_bufs = []\<rparr>)"

section \<open>Field reading is pure on the fields an object has\<close>

definition field_val :: "obj \<Rightarrow> string \<Rightarrow> string" where
  "field_val o' f = (case map_of (obj_fields o') (go_field f) of Some v \<Rightarrow> html_escape v | None \<Rightarrow> [])"

definition readable_field :: "obj \<Rightarrow> string \<Rightarrow> bool" where
  "readable_field o' f = (map_of (obj_fields o') (go_field f) \<noteq> None)"

interpretation acc: field_reader acc_Get "field_val o'" "readable_field o'" "\<lambda>a. acc_obj a = o'" for o'
  by unfold_locales
    (auto simp: acc_Get_def exec_template_def field_val_def readable_field_def acc_Write_def)

lemma accessor_Matches:
  assumes "list_all (readable_field o') (sel_fields sel)"
  shows "\<exists>a. sel_Matches acc_Get sel (NewObjectFieldsAccessor o') = Ok (a, sel_sem (field_val o') sel)"
  using acc.matches_sem [of "NewObjectFieldsAccessor o'" o' sel] assms
  by (auto simp: NewObjectFieldsAccessor_def)

lemma select_items_filter:
  "\<forall>x \<in> set os. list_all (readable_field x) (sel_fields sel) \<Longrightarrow> \<forall>x \<in> set os. is_kind x \<Longrightarrow>
     select_items is_kind sel os = Ok (filter (\<lambda>x. sel_sem (field_val x) sel) os)"
proof (induction os)
  case (Cons x os)
  obtain a where "sel_Matches acc_Get sel (NewObjectFieldsAccessor x) = Ok (a, sel_sem (field_val x) sel)"
    using accessor_Matches Cons.prems(1) by fastforce
  with Cons show ?case by simp
qed simp

definition watched_types :: "resource_type list" where
  "watched_types = [Pods, Services, PersistentVolumes, PersistentVolumeClaims, Nodes]"

lemma rc_List_eq:
  "rc_List r sel s =
     (if r \<in> set watched_types
      then bind_outcome (select_items (has_type r) sel (rs_List r s)) (\<lambda>xs. Ok (ROList r xs))
      else Err (not_recognized r))"
  by (auto simp: rc_List_def watched_types_def rc_Pods_def rc_Services_def rc_PersistentVolumes_def
      rc_PersistentVolumeClaims_def rc_Nodes_def)

lemma rc_List_typed:
  assumes "rs_typed s" "r \<in> set watched_types"
    and "\<forall>x \<in> set (rs_List r s). list_all (readable_field x) (sel_fields sel)"
  shows "rc_List r sel s = Ok (ROList r (filter (\<lambda>x. sel_sem (field_val x) sel) (rs_List r s)))"
  using assms by (simp add: rc_List_eq select_items_filter rs_List_typed)

section \<open>Emission\<close>

definition enc_total :: "encoder \<Rightarrow> (runtime_object \<Rightarrow> string) \<Rightarrow> bool" where
  "enc_total enc f = (\<forall>ro. EncodeOrDie enc ro = Ok (f ro))"

definition event_text :: "(runtime_object \<Rightarrow> string) \<Rightarrow> string \<Rightarrow> obj \<Rightarrow> string" where
  "event_text f eType o' = event_bytes eType (f (ROSingle o'))"

definition feed :: "string \<Rightarrow> watch_buffer \<Rightarrow> watch_buffer" where
  "feed txt w = w\<lparr>wb_buf := wb_buf w @ txt\<rparr>"

lemma EmitWatchEvent_open:
  "enc_total enc f \<Longrightarrow> \<not> wb_closed w \<Longrightarrow> EmitWatchEvent enc w t o' = (feed (event_text f t o') w, Ok ())"
  by (simp add: EmitWatchEvent_def enc_total_def wb_Write_def event_text_def feed_def)

lemma EmitWatchEvent_closed:
  "enc_total enc f \<Longrightarrow> wb_closed w \<Longrightarrow> EmitWatchEvent enc w t o' = (w, Err EOF)"
  by (simp add: EmitWatchEvent_def enc_total_def wb_Write_def)

text \<open>The environment after every buffer of \<open>I\<close> was fed.\<close>

definition fed :: "nat set \<Rightarrow> string \<Rightarrow> watch_env \<Rightarrow> watch_env \<Rightarrow> bool" where
  "fed I txt e e' =
     (watcherReadGetters e' = watcherReadGetters e \<and> length (we_bufs e') = length (we_bufs e) \<and>
      (\<forall>i < length (we_bufs e).
         we_bufs e' ! i = (if i \<in> I then feed txt (we_bufs e ! i) else we_bufs e ! i)))"

lemma fed_empty [simp]: "fed {} txt e e' \<longleftrightarrow> e' = e"
  by (cases e; cases e') (auto simp: fed_def intro: nth_equalityI)

lemma fed_trans: "fed I txt e e' \<Longrightarrow> fed J txt e' e'' \<Longrightarrow> I \<inter> J = {} \<Longrightarrow> fed (I \<union> J) txt e e''"
  by (auto simp: fed_def)

lemma fed_put_buf: "i < length (we_bufs e) \<Longrightarrow> fed {i} txt e (put_buf i (feed txt (we_bufs e ! i)) e)"
  by (auto simp: fed_def put_buf_def nth_list_update)

definition all_open :: "nat set \<Rightarrow> watch_env \<Rightarrow> bool" where
  "all_open I e = (\<forall>i \<in> I. i < length (we_bufs e) \<and> \<not> wb_closed (we_bufs e ! i))"

lemma fed_closed: "fed I txt e e' \<Longrightarrow> i < length (we_bufs e) \<Longrightarrow>
    wb_closed (we_bufs e' ! i) = wb_closed (we_bufs e ! i)"
  by (simp add: fed_def feed_def)

lemma fed_all_open: "fed I txt e e' \<Longrightarrow> all_open J e' = all_open J e"
  using fed_closed [of I _ e e'] by (auto simp: all_open_def fed_def)

lemma emit_to_open:
  assumes "enc_total enc f"
  shows "distinct is \<Longrightarrow> all_open (set is) e \<Longrightarrow>
    \<exists>e'. emit_to enc t o' is e = (e', Ok ()) \<and> fed (set is) (event_text f t o') e e'"
proof (induction "is" arbitrary: e)
  case (Cons i "is")
  let ?e = "put_buf i (feed (event_text f t o') (we_bufs e ! i)) e"
  from Cons.prems have i: "i < length (we_bufs e)" "\<not> wb_closed (we_bufs e ! i)"
    by (auto simp: all_open_def)
  note one = fed_put_buf [OF i(1), of "event_text f t o'"]
  from Cons.prems have "all_open (set is) e" by (auto simp: all_open_def)
  with one have "all_open (set is) ?e" by (simp add: fed_all_open)
  with Cons obtain e' where e': "emit_to enc t o' is ?e = (e', Ok ())"
      "fed (set is) (event_text f t o') ?e e'" by auto
  from fed_trans [OF one e'(2)] Cons.prems(1) have "fed (set (i # is)) (event_text f t o') e e'" by simp
  moreover from e'(1) i(2) assms have "emit_to enc t o' (i # is) e = (e', Ok ())"
    by (simp add: EmitWatchEvent_open)
  ultimately show ?case by blast
qed simp

text \<open>
  Once a watcher of a selector is closed, the watchers registered after it get nothing any more:
  the loop returns at the closed one's error.
\<close>

lemma emit_to_closed:
  assumes "enc_total enc f" "distinct (is @ i # js)" "all_open (set is) e"
    "i < length (we_bufs e)" "wb_closed (we_bufs e ! i)"
  shows "\<exists>e'. emit_to enc t o' (is @ i # js) e = (e', Err EOF) \<and> fed (set is) (event_text f t o') e e'"
  using assms(2-)
proof (induction "is" arbitrary: e)
  case Nil
  then show ?case
    using EmitWatchEvent_closed [OF assms(1)] by (cases e) (simp add: put_buf_def)
next
  case (Cons k "is")
  let ?e = "put_buf k (feed (event_text f t o') (we_bufs e ! k)) e"
  from Cons.prems have k: "k < length (we_bufs e)" "\<not> wb_closed (we_bufs e ! k)"
    by (auto simp: all_open_def)
  note one = fed_put_buf [OF k(1), of "event_text f t o'"]
  from Cons.prems(2) have "all_open (set is) e" by (auto simp: all_open_def)
  then have "all_open (set is) ?e" by (simp add: fed_all_open [OF one])
  moreover have "i < length (we_bufs ?e)" "wb_closed (we_bufs ?e ! i)"
    using Cons.prems by (auto simp: put_buf_def)
  ultimately obtain e' where e': "emit_to enc t o' (is @ i # js) ?e = (e', Err EOF)"
      "fed (set is) (event_text f t o') ?e e'" using Cons by auto
  from fed_trans [OF one e'(2)] Cons.prems(1) have "fed (set (k # is)) (event_text f t o') e e'" by simp
  moreover from e'(1) k(2) assms(1) have "emit_to enc t o' ((k # is) @ i # js) e = (e', Err EOF)"
    by (simp add: EmitWatchEvent_open)
  ultimately show ?case by blast
qed

text \<open>A selector string that parses and reads only fields of the object hits or misses it.\<close>

definition sel_decided :: "obj \<Rightarrow> string \<Rightarrow> bool" where
  "sel_decided o' k = (\<exists>sel. ParseSelector k = Ok sel \<and> list_all (readable_field o') (sel_fields sel))"

definition sel_hits :: "obj \<Rightarrow> string \<Rightarrow> bool" where
  "sel_hits o' k = (case ParseSelector k of Ok sel \<Rightarrow> sel_sem (field_val o') sel | _ \<Rightarrow> False)"

definition hit_watchers :: "obj \<Rightarrow> watcher_map \<Rightarrow> nat set" where
  "hit_watchers o' rg = {i. \<exists>(k, is) \<in> set rg. sel_hits o' k \<and> i \<in> set is}"

definition rg_watchers :: "watcher_map \<Rightarrow> nat list" where
  "rg_watchers rg = concat (map snd rg)"

lemma hit_watchers_Cons:
  "hit_watchers o' ((k, is) # rg) = (if sel_hits o' k then set is else {}) \<union> hit_watchers o' rg"
  by (auto simp: hit_watchers_def)

lemma hit_watchers_subset: "hit_watchers o' rg \<subseteq> set (rg_watchers rg)"
  by (auto simp: hit_watchers_def rg_watchers_def)

lemma sel_decided_match:
  assumes "sel_decided o' k"
  shows "\<exists>a. bind_outcome (ParseSelectorOrDie k)
      (\<lambda>sel. sel_Matches acc_Get sel (NewObjectFieldsAccessor o')) = Ok (a, sel_hits o' k)"
  using assms accessor_Matches by (fastforce simp: sel_decided_def sel_hits_def ParseSelectorOrDie_def)

lemma emit_selectors_open:
  assumes "enc_total enc f"
  shows "\<forall>(k, is) \<in> set rg. sel_decided o' k \<Longrightarrow> distinct (rg_watchers rg) \<Longrightarrow>
    all_open (set (rg_watchers rg)) e \<Longrightarrow>
    \<exists>e'. emit_selectors enc t o' rg e = (e', Ok ()) \<and> fed (hit_watchers o' rg) (event_text f t o') e e'"
proof (induction rg arbitrary: e)
  case Nil
  then show ?case by (simp add: hit_watchers_def)
next
  case (Cons x rg)
  obtain k "is" where x: "x = (k, is)" by fastforce
  from Cons.prems x have rest: "\<forall>(k, is) \<in> set rg. sel_decided o' k" "distinct (rg_watchers rg)"
    "all_open (set (rg_watchers rg)) e" and d: "distinct is" "set is \<inter> set (rg_watchers rg) = {}"
    and open_is: "all_open (set is) e" and dec: "sel_decided o' k"
    by (auto simp: rg_watchers_def all_open_def)
  obtain a where m: "bind_outcome (ParseSelectorOrDie k)
      (\<lambda>sel. sel_Matches acc_Get sel (NewObjectFieldsAccessor o')) = Ok (a, sel_hits o' k)"
    using sel_decided_match [OF dec] by blast
  show ?case
  proof (cases "sel_hits o' k")
    case False
    with Cons.IH [OF rest] m x show ?thesis by (auto simp: hit_watchers_Cons)
  next
    case True
    from emit_to_open [OF assms d(1) open_is, of t o'] obtain e1 where
      e1: "emit_to enc t o' is e = (e1, Ok ())" "fed (set is) (event_text f t o') e e1" by blast
    from e1(2) rest(3) have "all_open (set (rg_watchers rg)) e1" by (simp add: fed_all_open)
    with Cons.IH rest(1,2) obtain e2 where
      e2: "emit_selectors enc t o' rg e1 = (e2, Ok ())"
        "fed (hit_watchers o' rg) (event_text f t o') e1 e2" by blast
    have "set is \<inter> hit_watchers o' rg = {}" using d(2) hit_watchers_subset [of o' rg] by blast
    from fed_trans [OF e1(2) e2(2) this] e1(1) e2(1) m True x show ?thesis
      by (auto simp: hit_watchers_Cons)
  qed
qed

lemma emit_selectors_append:
  "emit_selectors enc t o' rg1 e = (e1, Ok ()) \<Longrightarrow>
     emit_selectors enc t o' (rg1 @ rg2) e = emit_selectors enc t o' rg2 e1"
proof (induction rg1 arbitrary: e)
  case (Cons x rg1)
  obtain k "is" where x: "x = (k, is)" by fastforce
  obtain e' r where emit: "emit_to enc t o' is e = (e', r)" by fastforce
  from Cons.prems show ?case
    unfolding x append_Cons emit_selectors.simps emit
    by (auto intro: Cons.IH split: outcome.splits if_splits)
qed simp

section \<open>Properties\<close>

text \<open>
  C32: an event reaches exactly the watchers it should: when every selector registered for the
  resource can be decided on the object and the watchers are open, the emission succeeds, the buffers
  of the watchers whose selector the object matches get the event appended, and no other buffer
  changes.
\<close>

theorem emission_reaches_watchers:
  assumes "enc_total enc f" "map_of (watcherReadGetters e) r = Some rg"
    and "\<forall>(k, is) \<in> set rg. sel_decided x k" "distinct (rg_watchers rg)" "all_open (set (rg_watchers rg)) e"
  shows "\<exists>e'. EmitObjectWatchEvent enc r t x e = (e', Ok ()) \<and>
    watcherReadGetters e' = watcherReadGetters e \<and>
    (\<forall>i < length (we_bufs e). we_bufs e' ! i =
       (if \<exists>(k, is) \<in> set rg. sel_hits x k \<and> i \<in> set is
        then (we_bufs e ! i)\<lparr>wb_buf := wb_buf (we_bufs e ! i) @ event_text f t x\<rparr> else we_bufs e ! i))"
proof -
  obtain e' where "emit_selectors enc t x rg e = (e', Ok ())" "fed (hit_watchers x rg) (event_text f t x) e e'"
    using emit_selectors_open [OF assms(1,3,4,5), of t] by blast
  then show ?thesis using assms(2)
    by (intro exI [of _ e']) (auto simp: EmitObjectWatchEvent_def fed_def hit_watchers_def feed_def)
qed

theorem emission_reaches_watchers_witness:
  "let e = \<lparr>watcherReadGetters = [(Pods, [([], [0])])], we_bufs = [NewWatchBuffer Pods]\<rparr> in
   \<exists>e'. EmitObjectWatchEvent (Some (\<lambda>_. Some ''x'')) Pods ''ADDED'' (PodO empty_pod) e = (e', Ok ()) \<and>
     wb_buf (we_bufs e' ! 0) = event_text (\<lambda>_. ''x'') ''ADDED'' (PodO empty_pod)"
proof -
  let ?e = "\<lparr>watcherReadGetters = [(Pods, [([], [0])])], we_bufs = [NewWatchBuffer Pods]\<rparr>"
  have parse: "ParseSelector [] = Ok (AndTerm [])"
    by (simp add: ParseSelector_def parseSelector_def splitTerms_def)
  then have "sel_decided (PodO empty_pod) []" "sel_hits (PodO empty_pod) []"
    by (simp_all add: sel_decided_def sel_hits_def)
  moreover have "enc_total (Some (\<lambda>_. Some ''x'')) (\<lambda>_. ''x'')" by (simp add: enc_total_def EncodeOrDie_def)
  ultimately show ?thesis
    using emission_reaches_watchers [of "Some (\<lambda>_. Some ''x'')" "\<lambda>_. ''x''" ?e Pods "[([], [0])]" "PodO empty_pod" "''ADDED''"]
    by (simp add: rg_watchers_def all_open_def NewWatchBuffer_def) fastforce
qed

text \<open>
  C37: when an emission comes to a closed watcher, \<open>EmitObjectWatchEvent\<close> returns that watcher's error at
  once: the event has reached the watchers that come before the closed one and whose selector matches, and no
  other buffer changes; in particular the watchers after it, of the same selector and of all selectors that the
  iteration over the map would have reached later, get nothing, open or not.
\<close>

theorem closed_watcher_starves:
  assumes "enc_total enc f"
    and reg: "map_of (watcherReadGetters e) r = Some (rg1 @ (k, is @ i # js) # rg2)"
    and "distinct (rg_watchers (rg1 @ (k, is @ i # js) # rg2))"
    and "\<forall>(k', is') \<in> set rg1. sel_decided x k'" "sel_decided x k" "sel_hits x k"
    and "all_open (set (rg_watchers rg1) \<union> set is) e"
    and "i < length (we_bufs e)" "wb_closed (we_bufs e ! i)"
  shows "\<exists>e'. EmitObjectWatchEvent enc r t x e = (e', Err EOF) \<and>
    (\<forall>j < length (we_bufs e). we_bufs e' ! j =
       (if j \<in> hit_watchers x rg1 \<union> set is then feed (event_text f t x) (we_bufs e ! j) else we_bufs e ! j)) \<and>
    (\<forall>j \<in> set (js @ rg_watchers rg2). j < length (we_bufs e) \<longrightarrow> we_bufs e' ! j = we_bufs e ! j)"
proof -
  have d: "distinct (rg_watchers rg1)" "distinct (is @ i # js)" "set (rg_watchers rg1) \<inter> set is = {}"
    "set (js @ rg_watchers rg2) \<inter> (set (rg_watchers rg1) \<union> set is) = {}" "i \<notin> set (rg_watchers rg1)"
    using assms(3) by (auto simp: rg_watchers_def)
  have o1: "all_open (set (rg_watchers rg1)) e" "all_open (set is) e" using assms(7) by (auto simp: all_open_def)
  obtain e1 where e1: "emit_selectors enc t x rg1 e = (e1, Ok ())" "fed (hit_watchers x rg1) (event_text f t x) e e1"
    using emit_selectors_open [OF assms(1,4) d(1) o1(1)] by blast
  have "all_open (set is) e1" "i < length (we_bufs e1)" "wb_closed (we_bufs e1 ! i)"
    using fed_all_open [OF e1(2)] fed_closed [OF e1(2)] o1(2) assms(8,9) e1(2) by (simp_all add: fed_def)
  from emit_to_closed [OF assms(1) d(2) this] obtain e2 where
    e2: "emit_to enc t x (is @ i # js) e1 = (e2, Err EOF)" "fed (set is) (event_text f t x) e1 e2" by blast
  obtain a where m: "bind_outcome (ParseSelectorOrDie k)
      (\<lambda>sel. sel_Matches acc_Get sel (NewObjectFieldsAccessor x)) = Ok (a, sel_hits x k)"
    using sel_decided_match [OF assms(5)] by blast
  have "emit_selectors enc t x ((k, is @ i # js) # rg2) e1 = (e2, Err EOF)"
    using e2(1) assms(6) unfolding emit_selectors.simps m by simp
  then have "EmitObjectWatchEvent enc r t x e = (e2, Err EOF)"
    using reg by (simp only: EmitObjectWatchEvent_def emit_selectors_append [OF e1(1)] option.case)
  moreover have "hit_watchers x rg1 \<inter> set is = {}" using d(3) hit_watchers_subset [of x rg1] by blast
  then have "fed (hit_watchers x rg1 \<union> set is) (event_text f t x) e e2" by (rule fed_trans [OF e1(2) e2(2)])
  moreover have "j \<notin> hit_watchers x rg1 \<union> set is" if "j \<in> set (js @ rg_watchers rg2)" for j
    using that d(4) hit_watchers_subset [of x rg1] by blast
  ultimately show ?thesis by (intro exI [of _ e2]) (simp add: fed_def)
qed

theorem closed_watcher_starves_witness:
  "let e = \<lparr>watcherReadGetters = [(Pods, [([], [0, 1, 2]), ([], [3])])],
         we_bufs = [NewWatchBuffer Pods, wb_Close (NewWatchBuffer Pods), NewWatchBuffer Pods, NewWatchBuffer Pods]\<rparr> in
   \<exists>e'. EmitObjectWatchEvent (Some (\<lambda>_. Some ''x'')) Pods ''ADDED'' (PodO empty_pod) e = (e', Err EOF) \<and>
     wb_buf (we_bufs e' ! 0) = event_text (\<lambda>_. ''x'') ''ADDED'' (PodO empty_pod) \<and>
     we_bufs e' ! 2 = NewWatchBuffer Pods \<and> we_bufs e' ! 3 = NewWatchBuffer Pods"
proof -
  let ?e = "\<lparr>watcherReadGetters = [(Pods, [([], [0, 1, 2]), ([], [3])])],
         we_bufs = [NewWatchBuffer Pods, wb_Close (NewWatchBuffer Pods), NewWatchBuffer Pods, NewWatchBuffer Pods]\<rparr>"
  have parse: "ParseSelector [] = Ok (AndTerm [])"
    by (simp add: ParseSelector_def parseSelector_def splitTerms_def)
  then have s: "sel_decided (PodO empty_pod) []" "sel_hits (PodO empty_pod) []"
    by (simp_all add: sel_decided_def sel_hits_def)
  have enc: "enc_total (Some (\<lambda>_. Some ''x'')) (\<lambda>_. ''x'')" by (simp add: enc_total_def EncodeOrDie_def)
  have reg: "map_of (watcherReadGetters ?e) Pods = Some ([] @ ([], [0] @ 1 # [2]) # [([], [3])])" by simp
  obtain e' where e': "EmitObjectWatchEvent (Some (\<lambda>_. Some ''x'')) Pods ''ADDED'' (PodO empty_pod) ?e = (e', Err EOF)"
    "\<forall>j < length (we_bufs ?e). we_bufs e' ! j =
       (if j \<in> hit_watchers (PodO empty_pod) [] \<union> set [0] then feed (event_text (\<lambda>_. ''x'') ''ADDED'' (PodO empty_pod)) (we_bufs ?e ! j)
        else we_bufs ?e ! j)"
    using closed_watcher_starves [OF enc reg, of "PodO empty_pod" "''ADDED''"] s
    by (auto simp: rg_watchers_def all_open_def NewWatchBuffer_def wb_Close_def)
  have "we_bufs e' ! 0 = feed (event_text (\<lambda>_. ''x'') ''ADDED'' (PodO empty_pod)) (NewWatchBuffer Pods)"
    "we_bufs e' ! 2 = NewWatchBuffer Pods" "we_bufs e' ! 3 = NewWatchBuffer Pods"
    using e'(2) by (auto simp: hit_watchers_def)
  with e'(1) show ?thesis by (auto simp: Let_def feed_def NewWatchBuffer_def)
qed

end
