(* ===== verification/Rest_Router.thy ===== *)
theory Rest_Router
  imports Rest_Client
begin

text \<open>
  The request router \<open>Do\<close> against its specification: a path names a resource, an object
  or a namespace, and the response is the encoding of exactly the objects of the resource store
  the path selects.
\<close>

section \<open>Paths\<close>

definition segment :: "string \<Rightarrow> bool" where
  "segment w = (w \<noteq> [] \<and> CHR ''/'' \<notin> set w)"

definition path_of :: "string list \<Rightarrow> string" where
  "path_of ws = ''/'' @ Join ''/'' ws"

lemma dropWhile_segment: "segment w \<Longrightarrow> dropWhile (\<lambda>x. x = CHR ''/'') (w @ s) = w @ s"
  by (cases w) (auto simp: segment_def)

lemma Join_ends:
  "ws \<noteq> [] \<Longrightarrow> (\<exists>s. Join ''/'' ws = hd ws @ s) \<and> (\<exists>t. Join ''/'' ws = t @ last ws)"
proof (induction "''/''" ws rule: Join.induct)
  case (3 w v ws)
  then obtain t where "Join ''/'' (v # ws) = t @ last (v # ws)" by blast
  then have "Join ''/'' (w # v # ws) = (w @ ''/'' @ t) @ last (w # v # ws)" by simp
  then show ?case by auto
qed simp_all

lemma splitPath_path_of:
  assumes "ws \<noteq> []" "list_all segment ws"
  shows "splitPath (path_of ws) = ws"
proof -
  obtain s t where j: "Join ''/'' ws = hd ws @ s" "Join ''/'' ws = t @ last ws"
    using Join_ends [OF assms(1)] by blast
  have hd: "segment (hd ws)" and last: "segment (last ws)" using assms by (auto simp: list_all_iff)
  have "dropWhile (\<lambda>x. x = CHR ''/'') (path_of ws) = Join ''/'' ws"
    using dropWhile_segment [OF hd, of s] by (simp add: path_of_def j(1))
  moreover have "dropWhile (\<lambda>x. x = CHR ''/'') (rev (Join ''/'' ws)) = rev (Join ''/'' ws)"
    using dropWhile_segment [of "rev (last ws)" "rev t"] last by (simp add: j(2) segment_def)
  ultimately have "Trim (CHR ''/'') (path_of ws) = Join ''/'' ws" by (simp add: Trim_def)
  moreover have "Join ''/'' ws \<noteq> []" using j(1) hd by (simp add: segment_def)
  moreover have "Split (CHR ''/'') (Join ''/'' ws) = ws"
    using Split_Join assms by (simp add: list_all_iff segment_def)
  ultimately show ?thesis by (simp add: splitPath_def Let_def)
qed

section \<open>Namespaces\<close>

definition plain_name :: "string \<Rightarrow> bool" where
  "plain_name s =
     (s \<noteq> [] \<and> list_all (\<lambda>c. c \<notin> set ''/,=&+<>'' \<and> c \<noteq> CHR 0x5C \<and> c \<noteq> CHR 0x22 \<and>
        c \<noteq> CHR 0x27 \<and> c \<noteq> CHR 0x00 \<and> c \<noteq> CHR 0xEF) s)"

lemma plain_name_segment: "plain_name s \<Longrightarrow> segment s"
  by (auto simp: plain_name_def segment_def list_all_iff)

lemma html_escape_no_special:
  "list_all (\<lambda>c. c \<notin> set ''&+<>'' \<and> c \<noteq> CHR 0x22 \<and> c \<noteq> CHR 0x27 \<and> c \<noteq> CHR 0x00) v \<Longrightarrow> html_escape v = v"
  by (induction v) auto

lemma html_escape_special:
  "list_all (\<lambda>c. c \<noteq> CHR ''&'' \<and> c \<noteq> CHR 0xEF) (html_escape x) \<Longrightarrow> html_escape x = x"
  by (induction x) (auto split: if_splits)

lemma html_escape_plain:
  assumes "plain_name v" shows "html_escape x = v \<longleftrightarrow> x = v"
proof
  assume "html_escape x = v"
  moreover from this assms have "list_all (\<lambda>c. c \<noteq> CHR ''&'' \<and> c \<noteq> CHR 0xEF) (html_escape x)"
    by (auto simp: plain_name_def list_all_iff)
  ultimately show "x = v" using html_escape_special [of x] by simp
next
  assume "x = v"
  with assms show "html_escape x = v"
    using html_escape_no_special [of v] by (auto simp: plain_name_def list_all_iff)
qed

lemma EscapeValue_plain_name: "plain_name v \<Longrightarrow> EscapeValue v = v"
proof -
  have "list_all (\<lambda>c. c \<notin> set '',='' \<and> c \<noteq> CHR 0x5C) v \<Longrightarrow> EscapeValue v = v"
    by (induction v) auto
  then show "plain_name v \<Longrightarrow> EscapeValue v = v"
    by (auto simp: plain_name_def list_all_iff)
qed

lemma go_field_Namespace [simp]: "go_field ''Namespace'' = ''Namespace''"
  by code_simp

lemma parse_namespace:
  assumes "plain_name ns"
  shows "ParseSelectorOrDie (''Namespace='' @ ns) = Ok (HasTerm ''Namespace'' ns)"
proof -
  have "field_ok ''Namespace''" by code_simp
  then have "ParseSelector (sel_String (HasTerm ''Namespace'' ns)) = Ok (HasTerm ''Namespace'' ns)"
    using parse_terms [of "[HasTerm ''Namespace'' ns]"] by simp
  with assms show ?thesis by (simp add: ParseSelectorOrDie_def EscapeValue_plain_name)
qed

definition obj_namespace :: "obj \<Rightarrow> string" where
  "obj_namespace x = (case obj_meta x of Some m \<Rightarrow> om_Namespace m | None \<Rightarrow> [])"

lemma Namespace_field:
  "has_type r x \<Longrightarrow> map_of (obj_fields x) ''Namespace'' = Some (obj_namespace x)"
  by (cases x) (auto simp: has_type_def obj_namespace_def meta_fields_def)

lemma list_namespace:
  assumes "rs_typed s" "r \<in> set watched_types" "plain_name ns"
  shows "rc_List r (HasTerm ''Namespace'' ns) s = Ok (ROList r (filter (\<lambda>x. obj_namespace x = ns) (rs_List r s)))"
proof -
  have fld: "x \<in> set (rs_List r s) \<Longrightarrow> map_of (obj_fields x) ''Namespace'' = Some (obj_namespace x)" for x
    using rs_List_typed [OF assms(1)] Namespace_field by blast
  then have "filter (\<lambda>x. sel_sem (field_val x) (HasTerm ''Namespace'' ns)) (rs_List r s) =
      filter (\<lambda>x. obj_namespace x = ns) (rs_List r s)"
    by (intro filter_cong) (auto simp: field_val_def html_escape_plain [OF assms(3)])
  with fld rc_List_typed [OF assms(1,2), of "HasTerm ''Namespace'' ns"] show ?thesis
    by (simp add: readable_field_def)
qed

section \<open>Requests\<close>

definition GET :: "string list \<Rightarrow> http_request" where
  "GET ws = \<lparr>req_Path = path_of ws, req_Query = []\<rparr>"

definition ok_response :: "body \<Rightarrow> http_response" where
  "ok_response b = \<lparr>resp_StatusCode = 200, resp_ContentType = ContentTypeJSON, resp_Body = b\<rparr>"

lemma Do_GET:
  assumes "rc_Err c = None" "ws \<noteq> []" "list_all segment ws" "hd ws \<noteq> ''watch''"
  shows "rc_Do enc (GET ws) s (c, e) =
    (case respond (c\<lparr>rc_Req := Some (GET ws)\<rparr>) (do_get enc (GET ws) ws Everything s) of
       (c', r) \<Rightarrow> ((c', e), r))"
  using assms
  by (simp add: rc_Do_def Let_def fields_selector_def watch_parts_def GET_def splitPath_path_of
      not_less Suc_le_eq)

lemma watched_type_ok:
  assumes "r \<in> set watched_types"
  shows "StringToResourceType r = Ok r" "segment r" "r \<noteq> ''watch''" "resource_of r = Ok r"
proof -
  show 1: "StringToResourceType r = Ok r"
    using assms by (auto simp: StringToResourceType_Ok_iff watched_types_def ObjectType_def resource_type_defs)
  then show "resource_of r = Ok r" by (simp add: resource_of_def)
  show "segment r" "r \<noteq> ''watch''"
    using assms by (auto simp: watched_types_def segment_def resource_type_defs)
qed

lemma Do_GET_Ok:
  assumes "rc_Err c = None" "ws \<noteq> []" "list_all segment ws" "hd ws \<noteq> ''watch''"
    and "do_get enc (GET ws) ws Everything s = Ok b"
  shows "snd (rc_Do enc (GET ws) s (c, e)) = Ok (ok_response b)"
  using assms by (simp add: Do_GET respond_def ok_response_def Let_def)

lemma Do_list:
  assumes "rc_Err c = None" "enc_total enc f" "rs_typed s" "r \<in> set watched_types"
  shows "snd (rc_Do enc (GET [r]) s (c, e)) = Ok (ok_response (BytesBody (f (ROList r (rs_List r s)))))"
proof -
  have "rc_List r Everything s = Ok (ROList r (rs_List r s))"
    using rc_List_typed [OF assms(3,4), of Everything] by (simp add: Everything_def)
  with assms watched_type_ok [OF assms(4)] show ?thesis
    by (intro Do_GET_Ok)
      (simp_all add: do_get_def createListReadCloser_def createReadCloser_def enc_total_def lister_err_def)
qed

lemma Do_namespace:
  assumes "rc_Err c = None" "enc_total enc f" "rs_typed s" "r \<in> set watched_types" "plain_name ns"
  shows "snd (rc_Do enc (GET [''namespaces'', ns, r]) s (c, e)) =
    Ok (ok_response (BytesBody (f (ROList r (filter (\<lambda>x. obj_namespace x = ns) (rs_List r s))))))"
proof -
  have "segment ''namespaces''" by (simp add: segment_def)
  with assms watched_type_ok [OF assms(4)] parse_namespace [OF assms(5)] show ?thesis
    by (intro Do_GET_Ok)
      (simp_all add: do_get_def plain_name_segment createListReadCloser_def
        list_namespace createReadCloser_def enc_total_def lister_err_def)
qed

text \<open>The namespace of a path is pasted into a selector unescaped.\<close>

lemma Do_namespace_panic:
  assumes "rc_Err c = None" "r \<in> set watched_types" "segment ns" "ParseSelector (''Namespace='' @ ns) = Err x"
  shows "panics (snd (rc_Do enc (GET [''namespaces'', ns, r]) s (c, e)))"
proof -
  have "segment ''namespaces''" by (simp add: segment_def)
  with assms watched_type_ok [OF assms(2)] show ?thesis
    by (simp add: Do_GET do_get_def ParseSelectorOrDie_def respond_def)
qed

section \<open>Getting one object\<close>

definition ns_key :: "string \<Rightarrow> string \<Rightarrow> string" where
  "ns_key ns name = (if ns \<noteq> [] then ns @ ''/'' else []) @ name"

lemma createGet_found:
  assumes "enc_total enc f" "rs_typed s" "r \<in> set watched_types" "r \<in> set (Resources s)"
    and "rs_lookup s r (ns_key ns name) = Some x" "ns \<noteq> [] \<longrightarrow> item_namespace x = ns"
  shows "createGetReadCloser enc r name ns s = Ok (BytesBody (f (ROSingle x)))"
proof -
  have "has_type r x"
    using assms(2,5)
    by (auto simp: rs_typed_def rs_lookup_def cache_List_def split: option.splits dest!: map_of_SomeD)
      fastforce
  then show ?thesis
    using assms
    by (auto simp: createGetReadCloser_def Let_def rs_GetByKey_lookup ns_key_def watched_types_def
        createReadCloser_def enc_total_def)
qed

lemma Do_get:
  assumes "rc_Err c = None" "enc_total enc f" "rs_typed s" "r \<in> set watched_types"
    and "r \<in> set (Resources s)" "segment ns" "segment name"
    and "rs_lookup s r (ns_key ns name) = Some x" "item_namespace x = ns"
  shows "snd (rc_Do enc (GET [''namespaces'', ns, r, name]) s (c, e)) =
    Ok (ok_response (BytesBody (f (ROSingle x))))"
proof -
  have "segment ''namespaces''" by (simp add: segment_def)
  with assms watched_type_ok [OF assms(4)] createGet_found [OF assms(2-5,8)] show ?thesis
    by (intro Do_GET_Ok) (simp_all add: do_get_def getter_err_def)
qed

lemma Do_get_missing:
  assumes "rc_Err c = None" "r \<in> set watched_types" "r \<in> set (Resources s)"
    and "segment ns" "segment name" "rs_lookup s r (ns_key ns name) = None"
  shows "snd (rc_Do enc (GET [''namespaces'', ns, r, name]) s (c, e)) =
    Err (''Unable to create getter for namespaces: Requested '' @ r @ '' resource '' @ name @
         '' not found'' @ [CHR 0x0A])"
proof -
  have "segment ''namespaces''" by (simp add: segment_def)
  moreover have "createGetReadCloser enc r name ns s =
      Err (''Requested '' @ r @ '' resource '' @ name @ '' not found'')"
    using assms by (simp add: createGetReadCloser_def Let_def rs_GetByKey_lookup ns_key_def)
  ultimately show ?thesis
    using assms watched_type_ok [OF assms(2)]
    by (simp add: Do_GET do_get_def getter_err_def respond_def)
qed

text \<open>Everything outside the routes is an error, and the state of the watchers is untouched.\<close>

lemma Do_long_path:
  assumes "rc_Err c = None" "length ws > 5" "list_all segment ws" "hd ws \<noteq> ''watch''"
  shows "\<exists>x. snd (rc_Do enc (GET ws) s (c, e)) = Err x"
proof -
  obtain p0 p1 p2 p3 p4 p5 rest where "ws = p0 # p1 # p2 # p3 # p4 # p5 # rest"
    using assms(2) by (auto simp: length_Suc_conv Suc_le_length_iff less_eq_Suc_le numeral_eq_Suc)
  with assms show ?thesis by (simp add: Do_GET do_get_def respond_def)
qed

lemma Do_GET_watchers:
  assumes "rc_Err c = None" "ws \<noteq> []" "list_all segment ws" "hd ws \<noteq> ''watch''"
  shows "snd (fst (rc_Do enc (GET ws) s (c, e))) = e"
  using assms by (simp add: Do_GET split: prod.split)

text \<open>
  Resource types the store does not keep are refused, config maps among them: a scheduling policy
  cannot be read from a config map through this client.
\<close>

lemma Do_unknown_resource:
  assumes "rc_Err c = None" "segment ns" "segment r" "segment name" "ObjectType r = None"
  shows "snd (rc_Do enc (GET [''namespaces'', ns, r, name]) s (c, e)) =
    Err (''Unable to process request: Resource type '' @ r @ '' not recognized'')"
proof -
  have "segment ''namespaces''" by (simp add: segment_def)
  moreover have "StringToResourceType r = Err (''Resource type '' @ r @ '' not recognized'')"
    using assms(5) by (simp add: StringToResourceType_def ObjectType_def split: if_splits)
  ultimately show ?thesis using assms by (simp add: Do_GET do_get_def resource_of_def respond_def)
qed

section \<open>Properties\<close>

text \<open>
  Listing a resource type of a namespace returns the encoding of exactly the stored objects of
  this type and namespace.
\<close>

lemma namespace_listing:
  assumes "rc_Err c = None" "enc_total enc f" "rs_inv s" "r \<in> set watched_types" "plain_name ns"
  shows "snd (rc_Do enc (GET [''namespaces'', ns, r]) s (c, e)) =
    Ok (ok_response (BytesBody (f (ROList r (filter (\<lambda>x. obj_namespace x = ns) (rs_List r s))))))"
  using Do_namespace [OF assms(1,2) _ assms(4,5), of s e] assms(3) by (simp add: rs_inv_def)

text \<open>
  A request for a config map is refused with an error, so a scheduling policy that names a config
  map can never be loaded through this client.
\<close>

lemma configmap_policy_unreadable:
  assumes "rc_Err c = None" "segment ns" "segment name"
  shows "snd (rc_Do enc (GET [''namespaces'', ns, ''configmaps'', name]) s (c, e)) =
    Err ''Unable to process request: Resource type configmaps not recognized''"
proof -
  have "ObjectType ''configmaps'' = None" "segment ''configmaps''" by code_simp+
  with Do_unknown_resource [OF assms(1,2) _ assms(3), of "''configmaps''" enc s e] show ?thesis by simp
qed

text \<open>
  The namespace of a path is put into a selector text unescaped: a namespace with an equals sign
  makes the router panic instead of returning an error.
\<close>

lemma namespace_selector_panics:
  assumes "rc_Err c = None" "r \<in> set watched_types"
  shows "panics (snd (rc_Do enc (GET [''namespaces'', ''a=b'', r]) s (c, e)))"
proof -
  have "\<not> is_ok (ParseSelector ''Namespace=a=b'')" by code_simp
  moreover have "\<not> panics (ParseSelector ''Namespace=a=b'')" by code_simp
  ultimately obtain x where "ParseSelector (''Namespace='' @ ''a=b'') = Err x"
    by (cases "ParseSelector ''Namespace=a=b''") auto
  moreover have "segment ''a=b''" by (simp add: segment_def)
  ultimately show ?thesis using Do_namespace_panic [OF assms] by blast
qed

end
