(* ===== verification/Watch_Mirror.thy ===== *)
theory Watch_Mirror
  imports Rest_Client
begin

text \<open>
  What a watcher of the REST client can rely on.  The specification is a log: the bytes written to
  a watch buffer are the renderings of a list of events, and applying these events to an empty
  cache gives the contents of the resource store.  \<open>createWatchReadCloser\<close> establishes
  this (\<open>mirror_created\<close>), an emission keeps it (\<open>mirror_emit\<close>) and so does
  every read, which only moves bytes from the buffer to the reader.
\<close>

section \<open>The specification\<close>

type_synonym watch_event = "string \<times> obj"

definition apply_event :: "watch_event \<Rightarrow> cache_store \<Rightarrow> cache_store" where
  "apply_event ev c =
     (if fst ev = ''DELETED'' then fst (cache_Delete c (snd ev)) else fst (cache_Add c (snd ev)))"

definition events_text :: "(runtime_object \<Rightarrow> string) \<Rightarrow> watch_event list \<Rightarrow> string" where
  "events_text f evs = concat (map (\<lambda>(t, x). event_text f t x) evs)"

text \<open>\<open>got\<close> is what the client has read so far from buffer \<open>i\<close>.\<close>

definition mirrors ::
    "(runtime_object \<Rightarrow> string) \<Rightarrow> string \<Rightarrow> (string \<Rightarrow> obj option) \<Rightarrow> watch_env \<Rightarrow> nat \<Rightarrow> bool" where
  "mirrors f got contents e i =
     (\<exists>evs. got @ wb_buf (we_bufs e ! i) = events_text f evs \<and>
        map_of (fold apply_event evs []) = contents)"

lemma events_text_simps [simp]:
  "events_text f [] = []" "events_text f (evs @ [(t, x)]) = events_text f evs @ event_text f t x"
  by (simp_all add: events_text_def)

lemma cache_wf_apply: "cache_wf c \<Longrightarrow> cache_wf (fold apply_event evs c)"
  by (induction evs arbitrary: c) (auto simp: apply_event_def kc.invar_put kc.invar_del)

text \<open>The store's contents after the write that the event reports.\<close>

definition event_effect :: "watch_event \<Rightarrow> (string \<Rightarrow> obj option) \<Rightarrow> string \<Rightarrow> obj option" where
  "event_effect ev m =
     (case obj_key (snd ev) of
        None \<Rightarrow> m
      | Some k \<Rightarrow> if fst ev = ''DELETED'' then m(k := None) else m(k \<mapsto> snd ev))"

lemma apply_event_effect: "cache_wf c \<Longrightarrow> map_of (apply_event ev c) = event_effect ev (map_of c)"
  by (auto simp: apply_event_def event_effect_def kc.get_put kc.get_del kc.no_key split: option.split)

lemma mirrors_event:
  assumes "mirrors f got m e i" "wb_buf (we_bufs e' ! i) = wb_buf (we_bufs e ! i) @ event_text f t x"
  shows "mirrors f got (event_effect (t, x) m) e' i"
proof -
  from assms obtain evs where evs: "got @ wb_buf (we_bufs e ! i) = events_text f evs"
      "map_of (fold apply_event evs []) = m" by (auto simp: mirrors_def)
  have "got @ wb_buf (we_bufs e' ! i) = events_text f (evs @ [(t, x)])"
    using assms(2) evs(1) by (simp flip: append_assoc)
  moreover have "map_of (fold apply_event (evs @ [(t, x)]) []) = event_effect (t, x) m"
    using evs(2) by (simp add: apply_event_effect cache_wf_apply)
  ultimately show ?thesis unfolding mirrors_def by blast
qed

text \<open>A read moves a prefix of the buffer to the client.\<close>

lemma mirrors_read:
  assumes "mirrors f got m e i" "wb_buf (we_bufs e ! i) = p @ wb_buf (we_bufs e' ! i)"
  shows "mirrors f (got @ p) m e' i"
  using assms by (simp add: mirrors_def)

section \<open>Watchers of everything\<close>

lemma sel_String_Everything [simp]: "sel_String Everything = []"
  by (simp add: Everything_def)

lemma Everything_sem [simp]: "sel_fields Everything = []" "sel_sem v Everything"
  by (simp_all add: Everything_def)

lemma ParseSelector_Nil: "ParseSelector [] = Ok Everything"
  by (simp add: ParseSelector_def parseSelector_def splitTerms_def Everything_def)

lemma Nil_decided [simp]: "sel_decided x []" and Nil_hits [simp]: "sel_hits x []"
  by (simp_all add: sel_decided_def sel_hits_def ParseSelector_Nil)

text \<open>The watch environment in which an emission for \<open>r\<close> reaches every watcher it should.\<close>

definition watch_ready :: "resource_type \<Rightarrow> watch_env \<Rightarrow> bool" where
  "watch_ready r e =
     (\<exists>rg. map_of (watcherReadGetters e) r = Some rg \<and> gomap_wf rg \<and> distinct (rg_watchers rg) \<and>
        all_open (set (rg_watchers rg)) e)"

definition registered :: "resource_type \<Rightarrow> string \<Rightarrow> nat \<Rightarrow> watch_env \<Rightarrow> bool" where
  "registered r k i e =
     (\<exists>rg is. map_of (watcherReadGetters e) r = Some rg \<and> map_of rg k = Some is \<and> i \<in> set is)"

definition decided :: "resource_type \<Rightarrow> watch_env \<Rightarrow> obj \<Rightarrow> bool" where
  "decided r e x =
     (\<forall>(k, is) \<in> set (case map_of (watcherReadGetters e) r of Some rg \<Rightarrow> rg | None \<Rightarrow> []). sel_decided x k)"

lemma fed_watch_ready: "fed I s e e' \<Longrightarrow> watch_ready r e' = watch_ready r e"
  using fed_all_open [of I s e e'] by (simp add: watch_ready_def fed_def)

lemma Emit_ready:
  assumes "enc_total enc f" "watch_ready r e" "decided r e x"
  shows "\<exists>e' I. EmitObjectWatchEvent enc r t x e = (e', Ok ()) \<and> fed I (event_text f t x) e e' \<and>
    (\<forall>i. registered r [] i e \<longrightarrow> i \<in> I \<and> i < length (we_bufs e))"
proof -
  from assms(2) obtain rg where rg: "map_of (watcherReadGetters e) r = Some rg"
      "distinct (rg_watchers rg)" "all_open (set (rg_watchers rg)) e"
    by (auto simp: watch_ready_def)
  with assms emit_selectors_open [OF assms(1), of rg x e t] obtain e' where
    e': "emit_selectors enc t x rg e = (e', Ok ())" "fed (hit_watchers x rg) (event_text f t x) e e'"
    by (auto simp: decided_def)
  have "i \<in> hit_watchers x rg" if "registered r [] i e" for i
    using that rg(1) by (force simp: registered_def hit_watchers_def dest: map_of_SomeD)
  then show ?thesis
    using e' rg hit_watchers_subset [of x rg]
    by (intro exI [of _ e'] exI [of _ "hit_watchers x rg"])
      (auto simp: EmitObjectWatchEvent_def all_open_def)
qed

text \<open>An emission extends the log of every watcher of everything by its event.\<close>

lemma mirror_emit:
  assumes "enc_total enc f" "watch_ready r e" "decided r e x" "registered r [] i e"
    and "mirrors f got m e i"
  shows "\<exists>e'. EmitObjectWatchEvent enc r t x e = (e', Ok ()) \<and> watch_ready r e' \<and>
    registered r [] i e' \<and> watcherReadGetters e' = watcherReadGetters e \<and>
    wb_buf (we_bufs e' ! i) = wb_buf (we_bufs e ! i) @ event_text f t x \<and>
    mirrors f got (event_effect (t, x) m) e' i"
proof -
  from Emit_ready [OF assms(1-3)] assms(4) obtain e' I where
    e': "EmitObjectWatchEvent enc r t x e = (e', Ok ())" "fed I (event_text f t x) e e'"
      "i \<in> I" "i < length (we_bufs e)" by blast
  then have buf: "wb_buf (we_bufs e' ! i) = wb_buf (we_bufs e ! i) @ event_text f t x"
    by (simp add: fed_def feed_def)
  with assms(5) have "mirrors f got (event_effect (t, x) m) e' i" by (rule mirrors_event)
  moreover have "watch_ready r e'" "registered r [] i e'" "watcherReadGetters e' = watcherReadGetters e"
    using fed_watch_ready [OF e'(2)] assms(2,4) e'(2) by (auto simp: registered_def fed_def)
  ultimately show ?thesis using e'(1) buf by blast
qed

section \<open>Opening a watch\<close>

lemma replay_open:
  assumes "enc_total enc f"
  shows "i < length (we_bufs e) \<Longrightarrow> \<not> wb_closed (we_bufs e ! i) \<Longrightarrow>
    replay enc i os e =
      (put_buf i (feed (events_text f (map (Pair ''ADDED'') os)) (we_bufs e ! i)) e, Ok ())"
proof (induction os arbitrary: e)
  case Nil
  then show ?case by (simp add: feed_def put_buf_def)
next
  case (Cons x os)
  then show ?case
    by (simp add: EmitWatchEvent_open [OF assms] put_buf_def feed_def events_text_def)
qed

lemma registered_register_watcher:
  "map_of (watcherReadGetters e) r = Some rg \<Longrightarrow>
     registered r k (length (we_bufs e)) (register_watcher r k rg e)"
  by (auto simp: registered_def register_watcher_def Let_def)

lemma mirror_listed:
  assumes "rs_wf s" "r \<in> set (Resources s)"
  shows "map_of (fold apply_event (map (Pair ''ADDED'') (rs_List r s)) []) = rs_lookup s r"
proof -
  from assms(2) obtain c where c: "map_of (resourceToCache s) r = Some c" by (auto simp: Resources_iff)
  have "fold apply_event (map (Pair ''ADDED'') os) d = fold (\<lambda>x s. fst (cache_Add s x)) os d" for os d
    by (induction os arbitrary: d) (auto simp: apply_event_def)
  moreover have "map_of (fold (\<lambda>x s. fst (cache_Add s x)) (cache_List c) []) = map_of c"
    using kc.rebuild [of c "[]"] rs_cache_wf [OF assms(1) c] by simp
  ultimately show ?thesis using c by (simp add: rs_List_def rs_lookup_def [abs_def])
qed

section \<open>Readiness is kept\<close>

lemma rg_watchers_update:
  "gomap_wf rg \<Longrightarrow>
     mset (rg_watchers (AList.update k ((case map_of rg k of Some ws \<Rightarrow> ws | None \<Rightarrow> []) @ [i]) rg)) =
     add_mset i (mset (rg_watchers rg))"
proof (induction rg)
  case (Cons x rg)
  have "k \<notin> fst ` set rg \<Longrightarrow> AList.update k v rg = rg @ [(k, v)]" for v
    by (induction rg) auto
  with Cons show ?case by (cases x) (auto simp: rg_watchers_def)
qed (simp add: rg_watchers_def)

lemma register_watcher_ready:
  assumes "watch_ready r e" "map_of (watcherReadGetters e) r0 = Some rg" "r0 = r \<or> watch_ready r0 e"
  shows "watch_ready r (register_watcher r0 k rg e)"
proof (cases "r0 = r")
  case True
  let ?ws = "(case map_of rg k of Some ws \<Rightarrow> ws | None \<Rightarrow> []) @ [length (we_bufs e)]"
  let ?rg = "AList.update k ?ws rg"
  from assms True have rg: "gomap_wf rg" "distinct (rg_watchers rg)" "all_open (set (rg_watchers rg)) e"
    by (auto simp: watch_ready_def)
  then have m: "mset (rg_watchers ?rg) = mset (length (we_bufs e) # rg_watchers rg)"
    by (simp add: rg_watchers_update)
  have "length (we_bufs e) \<notin> set (rg_watchers rg)" using rg(3) by (auto simp: all_open_def)
  then have "distinct (rg_watchers ?rg)"
    using rg(2) mset_eq_imp_distinct_iff [OF m] by simp
  moreover have "all_open (set (rg_watchers ?rg)) (register_watcher r0 k rg e)"
    using rg(3) mset_eq_setD [OF m]
    by (auto simp: all_open_def register_watcher_def Let_def nth_append NewWatchBuffer_def)
  ultimately show ?thesis
    using True rg(1) by (auto simp: watch_ready_def register_watcher_def Let_def)
next
  case False
  with assms(1) obtain rg' where "map_of (watcherReadGetters e) r = Some rg'" "gomap_wf rg'"
      "distinct (rg_watchers rg')" "all_open (set (rg_watchers rg')) e"
    by (auto simp: watch_ready_def)
  with False show ?thesis
    by (auto simp: watch_ready_def register_watcher_def Let_def all_open_def nth_append)
qed

text \<open>
  A new watch of everything succeeds on a well-typed store, is registered, and its buffer replays
  the whole store.
\<close>

lemma mirror_created:
  assumes enc: "enc_total enc f" and inv: "rs_inv s" and r: "r \<in> set watched_types"
    and reg: "map_of (watcherReadGetters e) r = Some rg"
  defines "i \<equiv> length (we_bufs e)"
  shows "\<exists>e'. createWatchReadCloser enc r Everything s e = (e', Ok i) \<and>
    registered r [] i e' \<and> wb_buf (we_bufs e' ! i) = events_text f (map (Pair ''ADDED'') (rs_List r s)) \<and>
    mirrors f [] (rs_lookup s r) e' i"
proof -
  let ?e1 = "register_watcher r [] rg e"
  let ?txt = "events_text f (map (Pair ''ADDED'') (rs_List r s))"
  let ?e2 = "put_buf i (feed ?txt (we_bufs ?e1 ! i)) ?e1"
  have new: "we_bufs ?e1 ! i = NewWatchBuffer r" "i < length (we_bufs ?e1)"
    by (simp_all add: i_def register_watcher_def Let_def)
  have "rc_List r Everything s = Ok (ROList r (rs_List r s))"
    using rc_List_typed [of s r Everything] inv r by (simp add: rs_inv_def)
  with new reg replay_open [OF enc new(2), of "rs_List r s"]
  have "createWatchReadCloser enc r Everything s e = (?e2, Ok i)"
    by (simp add: createWatchReadCloser_def Let_def NewWatchBuffer_def flip: i_def)
  moreover have "registered r [] i ?e2"
    using registered_register_watcher [OF reg, of "[]"] by (simp add: registered_def put_buf_def i_def)
  moreover have "wb_buf (we_bufs ?e2 ! i) = ?txt"
    using new by (simp add: put_buf_def feed_def NewWatchBuffer_def)
  moreover have "mirrors f [] (rs_lookup s r) ?e2 i"
    unfolding mirrors_def
    by (rule exI [of _ "map (Pair ''ADDED'') (rs_List r s)"])
      (use new mirror_listed [of s r] inv r in
        \<open>auto simp: put_buf_def feed_def NewWatchBuffer_def rs_inv_def watched_types_def\<close>)
  ultimately show ?thesis by blast
qed

end
