(* ===== verification/Strategy.thy ===== *)
theory Strategy
  imports Resource_Store
begin

text \<open>
  The predictive strategy (\<open>pkg/framework/strategy/strategy.go\<close>): a bound pod is marked
  running and written back to the resource store.  The strategy's own state is the store it was
  given; its \<open>nodeInfo\<close> map is never filled.  \<open>Add\<close> mutates the pod it is passed
  (\<open>obj\<close> in the result).  The locale \<open>pod_strategy\<close> is what the simulator relies on.
\<close>

definition PodRunning :: string where "PodRunning = ''Running''"

definition strategy_addPod :: "pod \<Rightarrow> 'e rs_state \<Rightarrow> ('e rs_state \<times> pod) \<times> unit outcome" where
  "strategy_addPod p st =
     (let p' = p\<lparr>pod_Phase := PodRunning\<rparr> in
      case rs_Update ''pods'' (PodO p') st of
        (st', r) \<Rightarrow> ((st', p'), wrap_err ''Unable to add new node: '' r))"

definition strategy_Add :: "obj \<Rightarrow> 'e rs_state \<Rightarrow> ('e rs_state \<times> obj) \<times> unit outcome" where
  "strategy_Add o' st =
     (case o' of
        PodO p \<Rightarrow> (case strategy_addPod p st of ((st', p'), r) \<Rightarrow> ((st', PodO p'), r))
      | _ \<Rightarrow> ((st, o'), Err ''resource kind not recognized''))"

definition strategy_Update :: "obj \<Rightarrow> 'e rs_state \<Rightarrow> ('e rs_state \<times> obj) \<times> unit outcome" where
  "strategy_Update o' st = ((st, o'), Err ''Not implemented yet'')"

definition strategy_Delete :: "obj \<Rightarrow> 'e rs_state \<Rightarrow> ('e rs_state \<times> obj) \<times> unit outcome" where
  "strategy_Delete o' st = ((st, o'), Err ''Not implemented yet'')"

definition NewPredictiveStrategy :: "'e rs_state \<Rightarrow> 'e rs_state" where
  "NewPredictiveStrategy st = st"

section \<open>The contract\<close>

definition pod_key :: "pod \<Rightarrow> string" where
  "pod_key p =
     (if om_Namespace (pod_meta p) = [] then om_Name (pod_meta p)
      else om_Namespace (pod_meta p) @ ''/'' @ om_Name (pod_meta p))"

lemma obj_key_PodO [simp]: "obj_key (PodO p) = Some (pod_key p)"
  by (simp add: obj_key_meta pod_key_def)

locale pod_strategy =
  fixes add :: "obj \<Rightarrow> 'w \<Rightarrow> ('w \<times> obj) \<times> unit outcome"
    and lookup :: "'w \<Rightarrow> resource_type \<Rightarrow> string \<Rightarrow> obj option"
    and known :: "'w \<Rightarrow> resource_type list"
    and good :: "'w \<Rightarrow> bool"
  assumes add_ok:
      "good w \<Longrightarrow> Pods \<in> set (known w) \<Longrightarrow>
         \<exists>w'. add (PodO p) w = ((w', PodO (p\<lparr>pod_Phase := PodRunning\<rparr>)), Ok ()) \<and> good w' \<and>
           known w' = known w \<and>
           lookup w' = (lookup w)(Pods := (lookup w Pods)(pod_key p \<mapsto> PodO (p\<lparr>pod_Phase := PodRunning\<rparr>)))"
    and add_other: "\<not> has_type Pods x \<Longrightarrow> fst (fst (add x w)) = w \<and> \<not> is_ok (snd (add x w))"
begin

text \<open>Writing a bound pod twice is writing it once.\<close>

lemma add_idem:
  assumes "good w" "Pods \<in> set (known w)"
  shows "lookup (fst (fst (add (PodO p) (fst (fst (add (PodO p) w)))))) = lookup (fst (fst (add (PodO p) w)))"
proof -
  from add_ok [OF assms, of p] obtain w' where w': "add (PodO p) w = ((w', PodO (p\<lparr>pod_Phase := PodRunning\<rparr>)), Ok ())"
      "good w'" "known w' = known w"
      "lookup w' = (lookup w)(Pods := (lookup w Pods)(pod_key p \<mapsto> PodO (p\<lparr>pod_Phase := PodRunning\<rparr>)))" by blast
  with add_ok [of w' p] assms show ?thesis by auto
qed

end

lemma pod_key_update [simp]: "pod_key (p\<lparr>pod_Phase := s\<rparr>) = pod_key p" "pod_key (p\<lparr>pod_NodeName := n\<rparr>) = pod_key p"
  by (simp_all add: pod_key_def)

interpretation strat: pod_strategy strategy_Add "\<lambda>st. rs_lookup (fst st)" "\<lambda>st. Resources (fst st)" "good_state I" for I
proof (unfold_locales, goal_cases)
  case (1 st p)
  let ?p = "p\<lparr>pod_Phase := PodRunning\<rparr>"
  have "is_runtime_object (PodO ?p)" by (simp add: is_runtime_object_def)
  with rsu.write_ok [of I st Pods "PodO ?p" "pod_key p"] 1 show ?case
    by (auto simp: strategy_Add_def strategy_addPod_def Let_def case_prod_unfold Pods_def)
next
  case (2 x st)
  then show ?case by (cases x) (auto simp: strategy_Add_def has_type_def)
qed

end
