(* ===== verification/Recorder.thy ===== *)
theory Recorder
  imports Prelude
begin

text \<open>
  The event recorder (\<open>pkg/framework/record/recorder.go\<close>): a buffered channel of events.
  A send on a full channel blocks, which is \<open>None\<close>; so does a receive from an empty one.
  A recorder whose channel is nil drops events.
\<close>

record event =
  ev_Eventtype :: string
  ev_Reason :: string
  ev_Message :: string

record channel =
  ch_items :: "event list"
  ch_cap :: nat

record recorder =
  Events :: "channel option"

definition chan_send :: "event \<Rightarrow> channel \<Rightarrow> channel option" where
  "chan_send x c = (if length (ch_items c) < ch_cap c then Some (c\<lparr>ch_items := ch_items c @ [x]\<rparr>) else None)"

definition chan_recv :: "channel \<Rightarrow> (event \<times> channel) option" where
  "chan_recv c = (case ch_items c of [] \<Rightarrow> None | x # xs \<Rightarrow> Some (x, c\<lparr>ch_items := xs\<rparr>))"

definition rec_Event :: "recorder \<Rightarrow> string \<Rightarrow> string \<Rightarrow> string \<Rightarrow> recorder option" where
  "rec_Event e eventtype reason message =
     (case Events e of
        None \<Rightarrow> Some e
      | Some c \<Rightarrow>
          map_option (\<lambda>c'. e\<lparr>Events := Some c'\<rparr>)
            (chan_send \<lparr>ev_Eventtype = eventtype, ev_Reason = reason, ev_Message = message\<rparr> c))"

text \<open>\<open>Eventf\<close> sends the formatted message.\<close>

definition rec_Eventf :: "recorder \<Rightarrow> string \<Rightarrow> string \<Rightarrow> string \<Rightarrow> recorder option" where
  "rec_Eventf e eventtype reason formatted =
     (case Events e of
        None \<Rightarrow> Some e
      | Some c \<Rightarrow>
          map_option (\<lambda>c'. e\<lparr>Events := Some c'\<rparr>)
            (chan_send \<lparr>ev_Eventtype = eventtype, ev_Reason = reason, ev_Message = formatted\<rparr> c))"

definition rec_PastEventf :: "recorder \<Rightarrow> string \<Rightarrow> string \<Rightarrow> string \<Rightarrow> recorder" where
  "rec_PastEventf e eventtype reason formatted = e"

definition NewRecorder :: "nat \<Rightarrow> recorder" where
  "NewRecorder bufferSize = \<lparr>Events = Some \<lparr>ch_items = [], ch_cap = bufferSize\<rparr>\<rparr>"

section \<open>The channel is a bounded queue\<close>

definition rec_items :: "recorder \<Rightarrow> event list" where
  "rec_items e = (case Events e of Some c \<Rightarrow> ch_items c | None \<Rightarrow> [])"

definition rec_bounded :: "nat \<Rightarrow> recorder \<Rightarrow> bool" where
  "rec_bounded n e = (\<exists>c. Events e = Some c \<and> ch_cap c = n \<and> length (ch_items c) \<le> n)"

lemma rec_Eventf_iff:
  "rec_bounded n e \<Longrightarrow>
     rec_Eventf e t r m =
       (if length (rec_items e) < n
        then Some (e\<lparr>Events := Some \<lparr>ch_items = rec_items e @ [\<lparr>ev_Eventtype = t, ev_Reason = r, ev_Message = m\<rparr>],
               ch_cap = n\<rparr>\<rparr>)
        else None)"
  by (auto simp: rec_bounded_def rec_Eventf_def chan_send_def rec_items_def)

lemma NewRecorder_bounded: "rec_bounded n (NewRecorder n)" "rec_items (NewRecorder n) = []"
  by (simp_all add: NewRecorder_def rec_bounded_def rec_items_def)

text \<open>Events are received in the order they were sent.\<close>

lemma chan_fifo:
  "chan_send x c = Some c' \<Longrightarrow> ch_items c = y # ys \<Longrightarrow> chan_recv c' = Some (y, c\<lparr>ch_items := ys @ [x]\<rparr>)"
  by (auto simp: chan_send_def chan_recv_def split: if_splits)

end
