(* ===== verification/Resource_Names.thy ===== *)
theory Resource_Names
  imports Prelude
begin

text \<open>
  Classification of resource names, which decides what the report counts as a scalar resource
  (\<open>vendor/k8s.io/kubernetes/pkg/apis/core/v1/helper/helpers.go\<close> and
  \<open>vendor/k8s.io/apimachinery/pkg/util/validation/validation.go\<close>).  The validators return
  a list of messages of which the callers only test the length, so they are predicates here.
\<close>

definition ResourceCPU :: string where "ResourceCPU = ''cpu''"
definition ResourceMemory :: string where "ResourceMemory = ''memory''"
definition ResourceNvidiaGPU :: string where "ResourceNvidiaGPU = ''alpha.kubernetes.io/nvidia-gpu''"
definition ResourcePods :: string where "ResourcePods = ''pods''"
definition ResourceEphemeralStorage :: string where "ResourceEphemeralStorage = ''ephemeral-storage''"

definition lower_alnum :: "char \<Rightarrow> bool" where
  "lower_alnum c = (let n = (of_char c :: nat) in 48 \<le> n \<and> n \<le> 57 \<or> 97 \<le> n \<and> n \<le> 122)"

definition alnum :: "char \<Rightarrow> bool" where
  "alnum c = (lower_alnum c \<or> (let n = (of_char c :: nat) in 65 \<le> n \<and> n \<le> 90))"

text \<open>A label: inner characters allowed by \<open>ext\<close>, first and last by \<open>edge\<close>.\<close>

definition label_ok :: "(char \<Rightarrow> bool) \<Rightarrow> (char \<Rightarrow> bool) \<Rightarrow> string \<Rightarrow> bool" where
  "label_ok edge ext s = (s \<noteq> [] \<and> edge (hd s) \<and> edge (last s) \<and> list_all ext s)"

definition IsDNS1123Subdomain :: "string \<Rightarrow> bool" where
  "IsDNS1123Subdomain v =
     (length v \<le> 253 \<and>
      list_all (label_ok lower_alnum (\<lambda>c. lower_alnum c \<or> c = CHR ''-'')) (Split (CHR ''.'') v))"

definition name_part_ok :: "string \<Rightarrow> bool" where
  "name_part_ok name =
     (name \<noteq> [] \<and> length name \<le> 63 \<and>
      label_ok alnum (\<lambda>c. alnum c \<or> c \<in> set ''-_.'') name)"

definition IsQualifiedName :: "string \<Rightarrow> bool" where
  "IsQualifiedName v =
     (case Split (CHR ''/'') v of
        [name] \<Rightarrow> name_part_ok name
      | [prefix, name] \<Rightarrow> prefix \<noteq> [] \<and> IsDNS1123Subdomain prefix \<and> name_part_ok name
      | _ \<Rightarrow> False)"

definition IsDefaultNamespaceResource :: "string \<Rightarrow> bool" where
  "IsDefaultNamespaceResource name = (\<not> Contains name ''/'' \<or> Contains name ''kubernetes.io/'')"

definition IsHugePageResourceName :: "string \<Rightarrow> bool" where
  "IsHugePageResourceName name = HasPrefix name ''hugepages-''"

definition IsExtendedResourceName :: "string \<Rightarrow> bool" where
  "IsExtendedResourceName name =
     (if IsDefaultNamespaceResource name \<or> HasPrefix name ''requests.'' then False
      else IsQualifiedName (''requests.'' @ name))"

definition IsScalarResourceName :: "string \<Rightarrow> bool" where
  "IsScalarResourceName name = (IsExtendedResourceName name \<or> IsHugePageResourceName name)"

lemmas resource_name_defs =
  ResourceCPU_def ResourceMemory_def ResourceNvidiaGPU_def ResourcePods_def ResourceEphemeralStorage_def

lemma resource_names_distinct [simp]:
  "distinct [ResourceCPU, ResourceMemory, ResourceNvidiaGPU, ResourcePods, ResourceEphemeralStorage]"
  by (simp add: resource_name_defs)

lemmas resource_name_neqs [simp] =
  resource_names_distinct [unfolded distinct.simps list.set insert_iff, simplified]

lemma Contains_char: "Contains s [c] \<longleftrightarrow> c \<in> set s"
  by (induction s) (auto simp: HasPrefix_def)

lemma Split_length: "length (Split sep s) = Suc (count_list s sep)"
  by (induction s) (auto split: list.splits)

text \<open>An extended resource name has exactly one slash, so its vendor domain is unambiguous.\<close>

lemma extended_one_slash:
  assumes "IsExtendedResourceName name" shows "count_list name (CHR ''/'') = 1"
proof -
  have "CHR ''/'' \<in> set name"
    using assms by (auto simp: IsExtendedResourceName_def IsDefaultNamespaceResource_def Contains_char split: if_splits)
  then have "count_list name (CHR ''/'') \<noteq> 0" by (simp add: count_list_0_iff)
  moreover have "length (Split (CHR ''/'') (''requests.'' @ name)) \<le> 2"
    using assms by (auto simp: IsExtendedResourceName_def IsQualifiedName_def split: if_splits list.splits)
  ultimately show ?thesis unfolding Split_length by simp
qed

lemma primary_not_scalar:
  "\<not> IsScalarResourceName ResourceCPU" "\<not> IsScalarResourceName ResourceMemory"
  "\<not> IsScalarResourceName ResourceNvidiaGPU" "\<not> IsScalarResourceName ResourcePods"
  "\<not> IsScalarResourceName ResourceEphemeralStorage"
  by code_simp+

end
