(* ===== verification/Quantity_Text.thy ===== *)
theory Quantity_Text
  imports Quantity
begin

text \<open>
  The text of a quantity: \<open>Quantity.String\<close>, with which the report prints, down to the canonical forms in
  base 10 and 1024 and the suffix table (\<open>apimachinery/pkg/api/resource\<close>, \<open>gopkg.in/inf.v0\<close>).  Scales and
  exponents are int32, as in the code, so that their sums and differences wrap (\<open>wrap32\<close>); only the
  count of factors a big integer is divided by is not cut, since that would take an integer of more than
  \<open>2 ^ 31\<close> digits.  A quantity that was parsed may keep its text; the printer then returns this text, the
  second argument of \<open>q_String\<close>.

  Shown: for values that are a whole number of nano-units and fit 63 bits (\<open>plain_val\<close>) every scale and
  exponent on the way is far from the limits of int32, and the canonical forms and the roundings behind them
  keep the value, so that the number and the exponent that are printed stand for the value of the quantity
  (\<open>printed_sound\<close>).
\<close>

section \<open>Canonical amounts\<close>

text \<open>The loops that move factors of a base into the exponent; the program only uses the bases 10 and 1024.\<close>

function remove_factors :: "int \<Rightarrow> int \<Rightarrow> int \<Rightarrow> int \<times> int" where
  "remove_factors base r n =
     (if 1 < base \<and> base \<le> r \<and> r smod base = 0 then remove_factors base (r sdiv base) (n + 1) else (r, n))"
  by pat_completeness auto
termination
proof (relation "measure (\<lambda>(base, r, n). nat r)", goal_cases)
  case (2 base r n)
  then have "r sdiv base = r div base" by (intro trunc_nonneg) auto
  with 2 int_div_less_self [of r base] show ?case by simp
qed simp

definition removeInt64Factors :: "int \<Rightarrow> int \<Rightarrow> int \<times> int" where
  "removeInt64Factors v base =
     (case remove_factors base (if v < 0 then wrap64 (- v) else v) 0 of
        (r, n) \<Rightarrow> (if v < 0 then wrap64 (- r) else r, n))"

function remove_big_factors :: "int \<Rightarrow> int \<Rightarrow> int \<Rightarrow> int \<times> int" where
  "remove_big_factors factor d n =
     (if 1 < factor \<and> d \<noteq> 0 \<and> d mod factor = 0 then remove_big_factors factor (d div factor) (n + 1) else (d, n))"
  by pat_completeness auto
termination
proof (relation "measure (\<lambda>(factor, d, n). nat \<bar>d\<bar>)", goal_cases)
  case (2 factor d n)
  then obtain k where k: "d = factor * k" by (auto elim: dvdE)
  with 2 have "k \<noteq> 0" "d div factor = k" by auto
  with 2 k show ?case by (simp add: abs_mult)
qed simp

definition removeBigIntFactors :: "int \<Rightarrow> int \<Rightarrow> int \<times> int" where
  "removeBigIntFactors d factor = remove_big_factors factor d 0"

declare remove_factors.simps [simp del] remove_big_factors.simps [simp del]

lemma smod_zero_iff: "(e :: int) smod 3 = 0 \<longleftrightarrow> e mod 3 = 0"
  by (simp add: signed_modulo_int_def sgn_if) presburger

text \<open>
  The loop that makes the exponent a multiple of 3.  The exponent is an int32: below the least one it goes on
  with the greatest, and the loop still ends after at most four rounds.
\<close>

definition align_rounds :: "int \<Rightarrow> nat" where
  "align_rounds e =
     (if \<not> int32_range e then 6 else if e = - (2 ^ 31) + 1 then 5 else if e = - (2 ^ 31) then 4 else nat (e mod 3))"

lemma align_rounds_less:
  assumes "e mod 3 \<noteq> 0" shows "align_rounds (wrap32 (e - 1)) < align_rounds e"
proof -
  consider "\<not> int32_range e" | "e = - (2 ^ 31)" | "e = - (2 ^ 31) + 1" | "int32_range e" "- (2 ^ 31) + 1 < e"
    unfolding int32_range_def by linarith
  then show ?thesis
  proof cases
    case 1
    have "nat (x mod 3) < 6" for x :: int by (simp add: pos_mod_bound [THEN order_less_le_trans] nat_less_iff)
    with 1 show ?thesis by (simp add: align_rounds_def)
  next
    case 4
    then have "e \<noteq> - (2 ^ 31) + 2" using assms by auto
    with 4 have w: "wrap32 (e - 1) = e - 1" "int32_range (e - 1)" "e - 1 \<noteq> - (2 ^ 31) + 1" "e - 1 \<noteq> - (2 ^ 31)"
      by (simp_all add: int32_range_def)
    have "(e - 1) mod 3 < e mod 3" "0 \<le> (e - 1) mod 3" using assms by presburger+
    then have "nat ((e - 1) mod 3) < nat (e mod 3)" by simp
    with 4 w show ?thesis by (simp add: align_rounds_def)
  qed (simp_all add: align_rounds_def int32_range_def wrap32_def)
qed

function align_exponent :: "int \<Rightarrow> int \<Rightarrow> int \<times> int" where
  "align_exponent amount e =
     (if e smod 3 \<noteq> 0 then align_exponent (amount * 10) (wrap32 (e - 1)) else (amount, e))"
  by pat_completeness auto

termination
proof (relation "measure (\<lambda>(amount, e). align_rounds e)", goal_cases)
  case (2 amount e)
  then show ?case using align_rounds_less [of e] by (simp add: smod_zero_iff)
qed simp

declare align_exponent.simps [simp del]

text \<open>\<open>infDecAmount.AsCanonicalBytes\<close> and \<open>int64Amount.AsCanonicalBytes\<close>: the amount and its exponent.\<close>

definition dec_canonical :: "infDec \<Rightarrow> int \<times> int" where
  "dec_canonical d =
     (case removeBigIntFactors (dec_unscaled d) 10 of
        (amount, n) \<Rightarrow> align_exponent amount (wrap32 (wrap32 (- dec_scale d) + n)))"

definition amt_canonical :: "int64Amount \<Rightarrow> int \<times> int" where
  "amt_canonical a =
     (case removeInt64Factors (amt_value a) 10 of
        (amount, n) \<Rightarrow>
          (let e = wrap32 (amt_scale a + n); r = e smod 3 in
           if r = 1 \<or> r = -2 then
             (case int64MultiplyScale amount 10 of (x, ok) \<Rightarrow> if ok then (x, wrap32 (e - 1)) else dec_canonical (AsDec a))
           else if r = 2 \<or> r = -1 then
             (case int64MultiplyScale amount 100 of (x, ok) \<Rightarrow> if ok then (x, wrap32 (e - 2)) else dec_canonical (AsDec a))
           else (amount, e)))"

text \<open>\<open>Dec.Round\<close> with \<open>RoundUp\<close>, away from zero, and \<open>Dec.Cmp\<close>.\<close>

definition dec_RoundUp :: "infDec \<Rightarrow> int \<Rightarrow> infDec" where
  "dec_RoundUp x s =
     (let shift = wrap32 (s - dec_scale x);
          ix = (if shift > 0 then dec_unscaled x * 10 ^ nat shift else dec_unscaled x);
          iy = (if shift < 0 then 10 ^ nat (wrap32 (- shift)) else 1);
          rem = ix smod iy
      in \<lparr>dec_unscaled = ix sdiv iy + (if rem \<noteq> 0 then sgn rem * sgn iy else 0), dec_scale = s\<rparr>)"

definition dec_Cmp :: "infDec \<Rightarrow> infDec \<Rightarrow> int" where
  "dec_Cmp x y = (case dec_upscale x y of (xx, yy) \<Rightarrow> sgn (dec_unscaled xx - dec_unscaled yy))"

text \<open>The canonical form in base 1024.\<close>

definition dec_canonical1024 :: "infDec \<Rightarrow> int \<times> int" where
  "dec_canonical1024 d = removeBigIntFactors (dec_unscaled (dec_RoundUp d 0)) 1024"

definition amt_canonical1024 :: "int64Amount \<Rightarrow> int \<times> int" where
  "amt_canonical1024 a =
     (case AsScaledInt64 a 0 of
        (v, ok) \<Rightarrow> if ok then removeInt64Factors v 1024 else dec_canonical1024 (AsDec a))"

section \<open>Comparison and rounding of quantities\<close>

text \<open>
  For a negative scale, which only a wrapped difference can be, \<open>pow10Int64\<close> is 0 and the code divides by
  zero, a panic; here the divisor is 1.  No value the results below speak of gets there.
\<close>

definition divideByScaleInt64 :: "int \<Rightarrow> int \<Rightarrow> int \<times> int \<times> bool" where
  "divideByScaleInt64 base scale =
     (if scale = 0 then (base, 0, True)
      else if scale \<ge> 18 then (0, base, False)
      else (base sdiv 10 ^ nat scale, base smod 10 ^ nat scale, True))"

definition amount_Cmp :: "int64Amount \<Rightarrow> int64Amount \<Rightarrow> int" where
  "amount_Cmp a b =
     (if amt_scale a = amt_scale b then sgn (amt_value a - amt_value b)
      else if amt_scale a > amt_scale b then
        (case divideByScaleInt64 (amt_value b) (wrap32 (amt_scale a - amt_scale b)) of
           (result, remainder, exact) \<Rightarrow>
             if \<not> exact then dec_Cmp (AsDec a) (AsDec b)
             else if result = amt_value a then - sgn remainder
             else sgn (amt_value a - result))
      else
        (case divideByScaleInt64 (amt_value a) (wrap32 (amt_scale b - amt_scale a)) of
           (result, remainder, exact) \<Rightarrow>
             if \<not> exact then dec_Cmp (AsDec a) (AsDec b)
             else if result = amt_value b then sgn remainder
             else sgn (result - amt_value b)))"

definition CmpInt64 :: "quantity \<Rightarrow> int \<Rightarrow> int" where
  "CmpInt64 q y =
     (case q_d q of
        Some d \<Rightarrow> dec_Cmp d \<lparr>dec_unscaled = y, dec_scale = 0\<rparr>
      | None \<Rightarrow> amount_Cmp (q_i q) \<lparr>amt_value = y, amt_scale = 0\<rparr>)"

datatype canonical_value = CInt int64Amount | CDec infDec

definition amt_AsScale :: "int64Amount \<Rightarrow> int \<Rightarrow> int64Amount \<times> bool" where
  "amt_AsScale a scale =
     (if amt_scale a \<ge> scale then (a, True)
      else case negativeScaleInt64 (amt_value a) (wrap32 (scale - amt_scale a)) of
        (result, exact) \<Rightarrow> (\<lparr>amt_value = result, amt_scale = scale\<rparr>, exact))"

definition dec_AsScale :: "infDec \<Rightarrow> int \<Rightarrow> infDec \<times> bool" where
  "dec_AsScale d scale = (let tmp = dec_RoundUp d (wrap32 (- scale)) in (tmp, dec_Cmp tmp d = 0))"

definition q_AsScale :: "quantity \<Rightarrow> int \<Rightarrow> canonical_value \<times> bool" where
  "q_AsScale q scale =
     (case q_d q of
        Some d \<Rightarrow> (case dec_AsScale d scale of (d', exact) \<Rightarrow> (CDec d', exact))
      | None \<Rightarrow> (case amt_AsScale (q_i q) scale of (a, exact) \<Rightarrow> (CInt a, exact)))"

definition q_canonical :: "quantity \<Rightarrow> int \<times> int" where
  "q_canonical q = (case q_d q of Some d \<Rightarrow> dec_canonical d | None \<Rightarrow> amt_canonical (q_i q))"

definition value_canonical1024 :: "canonical_value \<Rightarrow> int \<times> int" where
  "value_canonical1024 v = (case v of CInt a \<Rightarrow> amt_canonical1024 a | CDec d \<Rightarrow> dec_canonical1024 d)"

section \<open>Suffixes\<close>

definition DecimalExponent :: string where "DecimalExponent = ''DecimalExponent''"
definition BinarySI :: string where "BinarySI = ''BinarySI''"
definition DecimalSI :: string where "DecimalSI = ''DecimalSI''"

text \<open>\<open>strconv.AppendInt\<close> in base 10.\<close>

definition int_text :: "int \<Rightarrow> string" where
  "int_text i = (if i < 0 then CHR ''-'' # nat_digits (nat (- i)) else nat_digits (nat i))"

text \<open>
  A \<open>listSuffixer\<close> maps suffixes to pairs of base and exponent and back (the two reverse maps of the code
  hold the same text); \<open>addSuffix\<close> overwrites.  The empty suffix is added twice: the pair it stands for is
  the second, \<open>10 ^ 0\<close>, and both pairs lead back to it.
\<close>

record listSuffixer =
  suffixToBE :: "(string, int \<times> int) gomap"
  beToSuffix :: "(int \<times> int, string) gomap"

definition addSuffix :: "string \<times> int \<times> int \<Rightarrow> listSuffixer \<Rightarrow> listSuffixer" where
  "addSuffix p ls =
     \<lparr>suffixToBE = AList.update (fst p) (snd p) (suffixToBE ls),
      beToSuffix = AList.update (snd p) (fst p) (beToSuffix ls)\<rparr>"

definition binSuffixes :: listSuffixer where
  "binSuffixes = fold addSuffix
     [(''Ki'', 2, 10), (''Mi'', 2, 20), (''Gi'', 2, 30), (''Ti'', 2, 40), (''Pi'', 2, 50), (''Ei'', 2, 60)]
     \<lparr>suffixToBE = [], beToSuffix = []\<rparr>"

definition decSuffixes :: listSuffixer where
  "decSuffixes = fold addSuffix
     [([], 2, 0), (''n'', 10, -9), (''u'', 10, -6), (''m'', 10, -3), ([], 10, 0), (''k'', 10, 3),
      (''M'', 10, 6), (''G'', 10, 9), (''T'', 10, 12), (''P'', 10, 15), (''E'', 10, 18)]
     \<lparr>suffixToBE = [], beToSuffix = []\<rparr>"

definition suffix_of :: "listSuffixer \<Rightarrow> int \<Rightarrow> int \<Rightarrow> string \<times> bool" where
  "suffix_of ls base e = (case map_of (beToSuffix ls) (base, e) of Some s \<Rightarrow> (s, True) | None \<Rightarrow> ([], False))"

definition constructBytes :: "int \<Rightarrow> int \<Rightarrow> string \<Rightarrow> string \<times> bool" where
  "constructBytes base e fmt =
     (if fmt = DecimalSI then suffix_of decSuffixes base e
      else if fmt = BinarySI then suffix_of binSuffixes base e
      else if fmt = DecimalExponent then
        (if base \<noteq> 10 then ([], False)
         else if e = 0 then ([], True)
         else (CHR ''e'' # int_text e, True))
      else ([], False))"

section \<open>Printing\<close>

text \<open>\<open>CanonicalizeBytes\<close>: the amount, the base, the exponent and the format that are printed.\<close>

definition printed_parts :: "quantity \<Rightarrow> int \<times> int \<times> int \<times> string" where
  "printed_parts q =
     (let fmt = q_Format q in
      if fmt = BinarySI \<and> \<not> (CmpInt64 q (-1024) > 0 \<and> CmpInt64 q 1024 < 0) \<and> snd (q_AsScale q 0) then
        (case value_canonical1024 (fst (q_AsScale q 0)) of (amount, e) \<Rightarrow> (amount, 2, wrap32 (e * 10), BinarySI))
      else
        (case q_canonical q of (amount, e) \<Rightarrow>
           (amount, 10, e, if fmt = BinarySI \<or> fmt = DecimalSI then DecimalSI else DecimalExponent)))"

definition CanonicalizeBytes :: "quantity \<Rightarrow> string \<times> string" where
  "CanonicalizeBytes q =
     (if IsZero q then (''0'', [])
      else case printed_parts q of (amount, base, e, fmt) \<Rightarrow> (int_text amount, fst (constructBytes base e fmt)))"

definition q_String :: "quantity \<Rightarrow> string \<Rightarrow> string" where
  "q_String q s = (if s = [] then (case CanonicalizeBytes q of (number, suffix) \<Rightarrow> number @ suffix) else s)"

section \<open>Canonical amounts keep the value\<close>

lemma remove_factors_sound:
  assumes "remove_factors b r n = (r', n')" "1 < b"
  shows "\<exists>k. n' = n + int k \<and> r = r' * b ^ k \<and> (0 < r \<longrightarrow> 0 < r' \<and> \<not> b dvd r')"
  using assms
proof (induction b r n rule: remove_factors.induct)
  case (1 b r n)
  show ?case
  proof (cases "b \<le> r \<and> r smod b = 0")
    case True
    then have quot: "r sdiv b = r div b" "r mod b = 0" using 1(3) trunc_nonneg [of r b] by auto
    from True 1 obtain k where "n' = n + 1 + int k" "r sdiv b = r' * b ^ k" "0 < r sdiv b \<longrightarrow> 0 < r' \<and> \<not> b dvd r'"
      by (auto simp: remove_factors.simps [of b r n])
    moreover have "0 < r div b" using True 1(3) by (simp add: pos_imp_zdiv_pos_iff)
    moreover have "r = r div b * b" using quot(2) by (simp add: dvd_eq_mod_eq_0)
    ultimately show ?thesis using quot(1) by (intro exI [of _ "Suc k"]) simp
  next
    case False
    with 1 have "r' = r" "n' = n" by (auto simp: remove_factors.simps [of b r n])
    moreover have "\<not> b dvd r" if "0 < r"
    proof
      assume "b dvd r"
      then have "b \<le> r" "r smod b = 0"
        using that 1(3) trunc_nonneg(2) [of r b] zdvd_imp_le [of b r] by simp_all
      with False show False by simp
    qed
    ultimately show ?thesis by (intro exI [of _ 0]) simp
  qed
qed

lemma mostNegative_minus [simp]: "wrap64 (- mostNegative) = mostNegative"
  by (simp add: wrap64_def mostNegative_def)

lemma removeInt64Factors_sound:
  assumes "removeInt64Factors v b = (r, n)" "int64_range v" "1 < b"
  shows "\<exists>k. n = int k \<and> v = r * b ^ k \<and> int64_range r \<and> (v \<noteq> 0 \<and> v \<noteq> mostNegative \<longrightarrow> \<not> b dvd r)"
proof (cases "v = mostNegative")
  case True
  then have "v < 0" by (simp add: mostNegative_def)
  then have "remove_factors b v 0 = (v, 0)"
    using assms(3) by (subst remove_factors.simps) simp
  with True assms(1) \<open>v < 0\<close> have "r = v" "n = 0" by (simp_all add: removeInt64Factors_def)
  with True assms(2) show ?thesis by (intro exI [of _ 0]) simp
next
  case False
  obtain r' where r': "remove_factors b \<bar>v\<bar> 0 = (r', n)" "r = (if v < 0 then wrap64 (- r') else r')"
    using assms(1,2) False by (auto simp: removeInt64Factors_def int64_defs split: prod.splits if_splits)
  from remove_factors_sound [OF r'(1) assms(3)] obtain k where
    k: "n = int k" "\<bar>v\<bar> = r' * b ^ k" "v \<noteq> 0 \<Longrightarrow> 0 < r' \<and> \<not> b dvd r'" by auto
  have "1 \<le> b ^ k" using assms(3) by simp
  then have "\<bar>r'\<bar> \<le> \<bar>r'\<bar> * b ^ k" by (simp add: mult_le_cancel_left1)
  also have "\<dots> = \<bar>\<bar>v\<bar>\<bar>" using assms(3) by (simp only: k(2) abs_mult) simp
  finally have le: "\<bar>r'\<bar> \<le> \<bar>v\<bar>" by simp
  then have "int64_range (- r')" "int64_range r'" using assms(2) False unfolding int64_defs by linarith+
  with k r'(2) show ?thesis by (intro exI [of _ k]) (auto split: if_splits)
qed

lemma remove_big_sound:
  assumes "remove_big_factors b d n = (r, n')" "1 < b" "d \<noteq> 0"
  shows "\<exists>k. n' = n + int k \<and> d = r * b ^ k \<and> \<not> b dvd r"
  using assms
proof (induction b d n rule: remove_big_factors.induct)
  case (1 b d n)
  show ?case
  proof (cases "b dvd d")
    case True
    then have "d = d div b * b" by simp
    with 1(4) have nz: "d div b \<noteq> 0" by force
    from True nz 1 obtain k where "n' = n + 1 + int k" "d div b = r * b ^ k" "\<not> b dvd r"
      by (auto simp: remove_big_factors.simps [of b d n] dvd_eq_mod_eq_0)
    with \<open>d = d div b * b\<close> show ?thesis by (intro exI [of _ "Suc k"]) simp
  next
    case False
    with 1 have "r = d" "n' = n" by (auto simp: remove_big_factors.simps [of b d n] dvd_eq_mod_eq_0)
    with False show ?thesis by (intro exI [of _ 0]) simp
  qed
qed

text \<open>The amount and the exponent of the canonical form: the same value, an exponent with a suffix in steps of three, and no step left to take.\<close>

definition canonical_for :: "rat \<Rightarrow> int \<times> int \<Rightarrow> bool" where
  "canonical_for v p = (of_int (fst p) * 10 powi snd p = v \<and> 3 dvd snd p \<and> \<not> 1000 dvd fst p)"

lemma align_exponent_eq:
  assumes "- (2 ^ 31) \<le> e - e mod 3" "e < 2 ^ 31"
  shows "align_exponent a e = (a * 10 ^ nat (e mod 3), e - e mod 3)"
  using assms
proof (induction a e rule: align_exponent.induct)
  case (1 a e)
  show ?case
  proof (cases "e mod 3 = 0")
    case False
    then have m: "e mod 3 = (e - 1) mod 3 + 1" "0 \<le> (e - 1) mod 3" by presburger+
    then have "nat (e mod 3) = Suc (nat ((e - 1) mod 3))" by linarith
    moreover have w: "wrap32 (e - 1) = e - 1"
      using 1(2,3) m by (intro wrap32_id) (simp add: int32_range_def)
    moreover have "- (2 ^ 31) \<le> e - 1 - (e - 1) mod 3" "e - 1 < 2 ^ 31" using 1(2,3) m by linarith+
    ultimately show ?thesis using m False 1(1) by (simp add: align_exponent.simps [of a e] smod_zero_iff)
  qed (simp add: align_exponent.simps [of a e] smod_zero_iff)
qed

lemma aligned_canonical:
  assumes "\<not> 10 dvd a"
  shows "canonical_for (of_int a * 10 powi e) (a * 10 ^ nat (e mod 3), e - e mod 3)"
proof -
  have "of_int (a * 10 ^ nat (e mod 3)) * 10 powi (e - e mod 3) = (of_int a * 10 powi e :: rat)"
    using amount_val_rescale [of "e - e mod 3" e a] by simp
  moreover have "\<not> 1000 dvd a * 10 ^ nat (e mod 3)"
  proof
    assume "1000 dvd a * 10 ^ nat (e mod 3)"
    then obtain c where "a * 10 ^ nat (e mod 3) = 1000 * c" by (elim dvdE)
    moreover have "e mod 3 = 0 \<or> e mod 3 = 1 \<or> e mod 3 = 2" by presburger
    ultimately have "a = 10 * (100 * c) \<or> a = 10 * (10 * c) \<or> a = 10 * c" by auto
    then show False using assms dvd_triv_left by metis
  qed
  ultimately show ?thesis by (simp add: canonical_for_def)
qed

text \<open>
  The values the results are about: a whole number of nano-units, of at most 63 bits.  Written as an integer
  times a power of ten, such a number has a small exponent.
\<close>

definition plain_val :: "rat \<Rightarrow> bool" where
  "plain_val v = ((\<exists>n. v * 10 ^ 9 = of_int n) \<and> \<bar>v\<bar> \<le> of_int mostPositive)"

lemma nano_units: "v * 10 ^ 9 * 10 powi -9 = (v :: rat)"
proof -
  have "(10 :: rat) powi 9 * 10 powi -9 = 10 powi (9 + -9)" by (subst power_int_add) auto
  also have "\<dots> = 1" by simp
  finally have "(10 :: rat) ^ 9 * 10 powi -9 = 1" unfolding power_int_numeral .
  then show ?thesis by (simp only: mult.assoc mult_1_right)
qed

lemma plain_exponent_low:
  assumes "plain_val v" "v = of_int a * 10 powi e" "\<not> 10 ^ j dvd a" shows "-9 - int j < e"
proof (rule ccontr)
  assume "\<not> -9 - int j < e"
  then have e: "e \<le> -9" "j \<le> nat (-9 - e)" by linarith+
  obtain n where n: "v * 10 ^ 9 = of_int n" using assms(1) by (auto simp: plain_val_def)
  have "of_int (n * 10 ^ nat (-9 - e)) * 10 powi e = of_int n * (10 powi -9 :: rat)"
    using amount_val_rescale [of e "-9" n] e(1) by simp
  also have "\<dots> = of_int a * 10 powi e"
    by (simp only: n [symmetric] nano_units assms(2))
  finally have "(of_int (n * 10 ^ nat (-9 - e)) :: rat) = of_int a" by (rule mult_right_cancel [THEN iffD1, rotated]) simp
  then have "a = n * 10 ^ nat (-9 - e)" by (simp only: of_int_eq_iff)
  moreover have "(10 :: int) ^ j dvd 10 ^ nat (-9 - e)" using e(2) by (rule le_imp_power_dvd)
  ultimately show False using assms(3) by simp
qed

lemma plain_exponent_high:
  assumes "plain_val v" "v = of_int a * 10 powi e" "a \<noteq> 0" shows "e \<le> 18"
proof (rule ccontr)
  assume "\<not> e \<le> 18"
  then have "v = of_int (a * 10 ^ nat e)" using powi_nonneg [of e a] assms(2) by simp
  then have "\<bar>a * 10 ^ nat e\<bar> \<le> mostPositive"
    using assms(1) by (metis of_int_abs of_int_le_iff plain_val_def)
  moreover have "1 \<le> \<bar>a\<bar>" using assms(3) by simp
  then have "10 ^ nat e \<le> \<bar>a * 10 ^ nat e\<bar>" by (simp add: abs_mult mult_le_cancel_right1)
  moreover have "(10 :: int) ^ 19 \<le> 10 ^ nat e" using \<open>\<not> e \<le> 18\<close> by (intro power_increasing) auto
  ultimately show False by (simp add: mostPositive_def)
qed

lemma plain_amount_scale:
  assumes "plain_val (amount_val a)" "amt_value a \<noteq> 0" "int64_range (amt_value a)"
  shows "-28 < amt_scale a" "amt_scale a \<le> 18"
proof -
  have "\<not> 10 ^ 19 dvd amt_value a"
    using zdvd_imp_le [of "10 ^ 19" "\<bar>amt_value a\<bar>"] assms(2,3) by (auto simp: int64_defs)
  with plain_exponent_low [OF assms(1) amount_val_def this] show "-28 < amt_scale a" by simp
  show "amt_scale a \<le> 18" using plain_exponent_high [OF assms(1) amount_val_def assms(2)] .
qed

lemma plain_dec_scale: "plain_val (dec_val d) \<Longrightarrow> dec_unscaled d \<noteq> 0 \<Longrightarrow> -18 \<le> dec_scale d"
  using plain_exponent_high [OF _ dec_val_def, of d] by simp

lemma plain_q_scale:
  assumes "q_wf q" "\<not> IsZero q" "plain_val (q_val q)" shows "\<bar>q_scale q\<bar> < 2 ^ 31"
proof (cases "q_d q")
  case None
  with plain_amount_scale [of "q_i q"] assms show ?thesis
    by (simp add: q_wf_def q_val_def IsZero_def q_scale_def abs_less_iff)
next
  case (Some d)
  with plain_dec_scale [of d] assms show ?thesis
    by (simp add: q_wf_def q_val_def IsZero_def q_scale_def abs_less_iff int32_range_def)
qed

lemma dec_canonical_sound:
  assumes "dec_unscaled d \<noteq> 0" "plain_val (dec_val d)" shows "canonical_for (dec_val d) (dec_canonical d)"
proof -
  obtain r n where r: "remove_big_factors 10 (dec_unscaled d) 0 = (r, n)" by fastforce
  from remove_big_sound [OF r _ assms(1)] obtain k where
    k: "n = int k" "dec_unscaled d = r * 10 ^ k" "\<not> 10 dvd r" by auto
  have val: "dec_val d = of_int r * 10 powi (- dec_scale d + n)"
    using amount_val_rescale [of "- dec_scale d" "n - dec_scale d" r] k by (simp add: dec_val_def)
  have "r \<noteq> 0" using k(3) by auto
  with plain_exponent_low [OF assms(2) val, of 1] plain_exponent_high [OF assms(2) val] k(3)
  have e: "-9 \<le> - dec_scale d + n" "- dec_scale d + n \<le> 18" by simp_all
  then have "wrap32 (wrap32 (- dec_scale d) + n) = - dec_scale d + n"
    by (simp only: wrap32_add) (simp add: int32_range_def)
  moreover have "(- dec_scale d + n) mod 3 < 3" by simp
  ultimately show ?thesis
    using aligned_canonical [OF k(3), of "- dec_scale d + n"] r val e
    by (simp add: dec_canonical_def removeBigIntFactors_def align_exponent_eq)
qed

lemma smod_cases:
  fixes e :: int
  shows "e smod 3 = 1 \<or> e smod 3 = -2 \<longleftrightarrow> e mod 3 = 1" "e smod 3 = 2 \<or> e smod 3 = -1 \<longleftrightarrow> e mod 3 = 2"
  by (simp_all add: signed_modulo_int_def sgn_if) presburger+

lemma amt_canonical_sound:
  assumes "int64_range (amt_value a)" "amt_value a \<noteq> 0" "plain_val (amount_val a)"
  shows "canonical_for (amount_val a) (amt_canonical a)"
proof -
  obtain r n where r: "removeInt64Factors (amt_value a) 10 = (r, n)" by fastforce
  from removeInt64Factors_sound [OF r assms(1)] obtain k where
    k: "n = int k" "amt_value a = r * 10 ^ k" "int64_range r" "amt_value a \<noteq> mostNegative \<longrightarrow> \<not> 10 dvd r"
    using assms(2) by auto
  have nd: "\<not> 10 dvd r"
  proof
    assume "10 dvd r"
    then have "10 dvd amt_value a" "amt_value a = mostNegative" using k(2,4) dvd_mult2 by metis+
    then show False by (simp add: mostNegative_def)
  qed
  let ?e = "amt_scale a + n"
  have val: "amount_val a = of_int r * 10 powi ?e"
    using amount_val_rescale [of "amt_scale a" ?e r] k by (simp add: amount_val_def)
  have "r \<noteq> 0" using nd by auto
  with plain_exponent_low [OF assms(3) val, of 1] plain_exponent_high [OF assms(3) val] nd
  have e: "-9 \<le> ?e" "?e \<le> 18" by simp_all
  have w: "wrap32 ?e = ?e" "wrap32 (?e - 1) = ?e - 1" "wrap32 (?e - 2) = ?e - 2"
    by (rule wrap32_id, use e in \<open>simp add: int32_range_def\<close>)+
  note al = aligned_canonical [OF nd, of ?e, folded val]
  have sc: "\<bar>amt_scale a\<bar> < 2 ^ 31" using plain_amount_scale [OF assms(3,2,1)] by simp
  have da: "dec_val (AsDec a) = amount_val a" using dec_val_AsDec [OF sc] .
  have dec: "canonical_for (amount_val a) (dec_canonical (AsDec a))"
    using dec_canonical_sound [of "AsDec a"] assms(2,3) unfolding da by (simp add: AsDec_def)
  have up: "canonical_for (amount_val a)
      (case int64MultiplyScale r (10 ^ nat j) of (x, ok) \<Rightarrow> if ok then (x, ?e - j) else dec_canonical (AsDec a))"
    if "?e mod 3 = j" "j \<in> {1, 2}" for j
  proof -
    have "1 < (10 :: int) ^ nat j" "(10 :: int) ^ nat j < 2 ^ 63" using that(2) by auto
    from int64MultiplyScale_exact [OF k(3) this] al dec that(1) show ?thesis by (auto split: prod.splits)
  qed
  have "?e mod 3 = 0 \<or> ?e mod 3 = 1 \<or> ?e mod 3 = 2" by presburger
  then consider "?e mod 3 = 0" | "?e mod 3 = 1" | "?e mod 3 = 2" by blast
  then show ?thesis
    using al up [of 1] up [of 2] smod_cases [of ?e] unfolding amt_canonical_def r prod.case Let_def w by cases simp_all
qed

lemma q_canonical_sound:
  assumes "q_wf q" "\<not> IsZero q" "plain_val (q_val q)" shows "canonical_for (q_val q) (q_canonical q)"
  using assms amt_canonical_sound [of "q_i q"] dec_canonical_sound
  by (auto simp: q_canonical_def q_val_def q_wf_def IsZero_def split: option.splits)

section \<open>Rounding that loses nothing\<close>

lemma smod_ten_zero: "v smod 10 = 0 \<Longrightarrow> v = v sdiv 10 * (10 :: int)"
  using sdiv_mult_smod_eq [of v 10] by simp

lemma scale_down_loop_exact:
  "(scale_down_loop n base v fr = Inl (r, True) \<longrightarrow> \<not> fr \<and> v = 0 \<and> r = 0) \<and>
   (scale_down_loop n base v fr = Inr (w, False) \<longrightarrow> \<not> fr \<and> v = w * 10 ^ n)"
proof (induction n base v fr rule: scale_down_loop.induct)
  case (2 n base v fr)
  show ?case
  proof (cases "v smod 10 = 0")
    case True
    note ten = smod_ten_zero [OF True]
    show ?thesis
    proof (cases "v sdiv 10 = 0")
      case True
      with ten have "v = 0" by simp
      with True show ?thesis by (simp add: Let_def)
    next
      case False
      with 2 [OF refl refl] True have
        "(scale_down_loop n base (v sdiv 10) fr = Inl (r, True) \<longrightarrow> False) \<and>
         (scale_down_loop n base (v sdiv 10) fr = Inr (w, False) \<longrightarrow> \<not> fr \<and> v sdiv 10 = w * 10 ^ n)"
        by auto
      moreover have "v sdiv 10 = w * 10 ^ n \<Longrightarrow> v = w * 10 ^ Suc n" using ten by simp
      ultimately show ?thesis using False True by (simp add: Let_def) blast
    qed
  next
    case False
    with 2 [OF refl refl] show ?thesis by (auto simp: Let_def)
  qed
qed simp

lemma negativeScaleInt64_exact:
  assumes "negativeScaleInt64 v s = (r, True)" "0 \<le> s" shows "v = r * 10 ^ nat s"
  using assms scale_down_loop_exact [of "nat s" v v False r r]
  by (auto simp: negativeScaleInt64_def split: if_splits sum.splits)

lemma amt_AsScale_exact:
  assumes "amt_AsScale a 0 = (a', True)" "int64_range (amt_value a)" "\<bar>amt_scale a\<bar> < 2 ^ 31"
  shows "amount_val a' = amount_val a \<and> int64_range (amt_value a') \<and> 0 \<le> amt_scale a' \<and> amt_scale a' < 2 ^ 31"
proof (cases "0 \<le> amt_scale a")
  case True
  with assms show ?thesis by (simp add: amt_AsScale_def)
next
  case False
  with assms(1,3) obtain r where
    r: "negativeScaleInt64 (amt_value a) (- amt_scale a) = (r, True)" "a' = \<lparr>amt_value = r, amt_scale = 0\<rparr>"
    by (auto simp: amt_AsScale_def split: prod.splits)
  have v: "amt_value a = r * 10 ^ nat (- amt_scale a)"
    using negativeScaleInt64_exact [OF r(1)] False by simp
  then have "int64_range r" using assms(2) int64_range_scaled by metis
  then show ?thesis
    using amount_val_rescale [of "amt_scale a" 0 r] False r(2) v by (simp add: amount_val_def)
qed

lemma dec_Cmp_vals:
  assumes "\<bar>dec_scale x - dec_scale y\<bar> < 2 ^ 31"
  shows "dec_Cmp x y = 0 \<longleftrightarrow> dec_val x = dec_val y" "0 < dec_Cmp x y \<longleftrightarrow> dec_val y < dec_val x"
    "dec_Cmp x y < 0 \<longleftrightarrow> dec_val x < dec_val y"
proof -
  obtain xx yy where u: "dec_upscale x y = (xx, yy)" by fastforce
  note v = dec_upscale_sound [OF u assms]
  have s: "dec_scale xx = dec_scale yy" using v by simp
  have pos: "0 < (10 :: rat) powi - dec_scale yy" by simp
  show "dec_Cmp x y = 0 \<longleftrightarrow> dec_val x = dec_val y" "0 < dec_Cmp x y \<longleftrightarrow> dec_val y < dec_val x"
    "dec_Cmp x y < 0 \<longleftrightarrow> dec_val x < dec_val y"
    unfolding v(1,2) [symmetric] using u s pos by (simp_all add: dec_Cmp_def dec_val_def sgn_if)
qed

text \<open>The comparison of int64 amounts agrees with the one of decimals, for all signs and all scales whose difference does not wrap.\<close>

lemma sgn_scaled_diff:
  fixes u v :: int
  assumes "0 < d"
  shows "sgn (u * d - v) = (if v sdiv d = u then - sgn (v smod d) else sgn (u - v sdiv d))"
proof -
  let ?r = "v sdiv d" and ?m = "v smod d"
  have v: "v = ?r * d + ?m" using sdiv_mult_smod_eq [of v d] by simp
  have m: "\<bar>?m\<bar> < d" using smod_int_range [of d v] assms by auto
  show ?thesis
  proof (cases ?r u rule: linorder_cases)
    case less
    then have "(?r + 1) * d \<le> u * d" using assms by (intro mult_right_mono) auto
    with m have "0 < u * d - (?r * d + ?m)" by (simp add: distrib_right)
    with less v show ?thesis by simp
  next
    case equal
    then have "u * d - v = - ?m" using v by simp
    moreover have "sgn (- ?m) = - sgn ?m" by (simp add: sgn_if)
    ultimately show ?thesis using equal by (simp only: refl if_True)
  next
    case greater
    then have "u * d \<le> (?r - 1) * d" using assms by (intro mult_right_mono) auto
    with m have "u * d - (?r * d + ?m) < 0" by (simp add: left_diff_distrib)
    with greater v show ?thesis by simp
  qed
qed

lemma scaled_diff_sgn:
  fixes u v :: int
  assumes "0 < d"
  shows "sgn (v - u * d) = (if v sdiv d = u then sgn (v smod d) else sgn (v sdiv d - u))"
proof -
  have flip: "sgn (x - y) = - sgn (y - x)" for x y :: int by (simp add: sgn_if)
  show ?thesis
    unfolding flip [of v] flip [of "v sdiv d"] sgn_scaled_diff [OF assms] by simp
qed

lemma amount_Cmp_dec:
  assumes "\<bar>amt_scale a\<bar> < 2 ^ 31" "\<bar>amt_scale b\<bar> < 2 ^ 31" "\<bar>amt_scale a - amt_scale b\<bar> < 2 ^ 31"
  shows "amount_Cmp a b = dec_Cmp (AsDec a) (AsDec b)"
proof -
  have w [simp]: "wrap32 (amt_scale b - amt_scale a) = amt_scale b - amt_scale a"
    "wrap32 (amt_scale a - amt_scale b) = amt_scale a - amt_scale b"
    using assms by (simp_all add: abs_minus_commute)
  have d: "AsDec a = \<lparr>dec_unscaled = amt_value a, dec_scale = - amt_scale a\<rparr>"
    "AsDec b = \<lparr>dec_unscaled = amt_value b, dec_scale = - amt_scale b\<rparr>"
    using assms by (simp_all add: AsDec_def)
  show ?thesis
  proof (cases "amt_scale a" "amt_scale b" rule: linorder_cases)
    case less
    then show ?thesis
      using scaled_diff_sgn [of "10 ^ nat (amt_scale b - amt_scale a)" "amt_value a" "amt_value b"] assms(3)
      by (simp add: amount_Cmp_def divideByScaleInt64_def dec_Cmp_def dec_upscale_def dec_rescale_up d)
  next
    case equal
    then show ?thesis by (simp add: amount_Cmp_def dec_Cmp_def dec_upscale_def d)
  next
    case greater
    then show ?thesis
      using sgn_scaled_diff [of "10 ^ nat (amt_scale a - amt_scale b)" "amt_value a" "amt_value b"] assms(3)
      by (simp add: amount_Cmp_def divideByScaleInt64_def dec_Cmp_def dec_upscale_def dec_rescale_up d)
  qed
qed

lemma CmpInt64_vals:
  assumes "\<bar>q_scale q\<bar> < 2 ^ 31"
  shows "CmpInt64 q y = 0 \<longleftrightarrow> q_val q = of_int y" "0 < CmpInt64 q y \<longleftrightarrow> of_int y < q_val q"
    "CmpInt64 q y < 0 \<longleftrightarrow> q_val q < of_int y"
proof -
  let ?y = "\<lparr>dec_unscaled = y, dec_scale = 0\<rparr>"
  have d: "dec_val (q_AsDec q) = q_val q" "\<bar>dec_scale (q_AsDec q)\<bar> < 2 ^ 31"
    using assms dec_val_AsDec [of "q_i q"]
    by (simp_all add: q_scale_def q_AsDec_def q_val_def AsDec_def split: option.splits)
  have "CmpInt64 q y = dec_Cmp (q_AsDec q) ?y"
    using assms amount_Cmp_dec [of "q_i q" "\<lparr>amt_value = y, amt_scale = 0\<rparr>"]
    by (auto simp: CmpInt64_def q_AsDec_def q_scale_def AsDec_def [of "\<lparr>amt_value = y, amt_scale = 0\<rparr>"] split: option.splits)
  with dec_Cmp_vals [of "q_AsDec q" ?y] d
  show "CmpInt64 q y = 0 \<longleftrightarrow> q_val q = of_int y" "0 < CmpInt64 q y \<longleftrightarrow> of_int y < q_val q"
    "CmpInt64 q y < 0 \<longleftrightarrow> q_val q < of_int y"
    by (simp_all add: dec_val_def [of ?y])
qed

lemma dec_RoundUp_finer:
  "dec_scale d \<le> s \<Longrightarrow> s - dec_scale d < 2 ^ 31 \<Longrightarrow> dec_RoundUp d s = \<lparr>dec_unscaled = dec_unscaled d * 10 ^ nat (s - dec_scale d), dec_scale = s\<rparr>"
  by (cases "dec_scale d = s") (simp_all add: dec_RoundUp_def Let_def signed_divide_int_def signed_modulo_int_def sgn_mult_abs)

lemma dec_RoundUp_val: "dec_scale d \<le> s \<Longrightarrow> s - dec_scale d < 2 ^ 31 \<Longrightarrow> dec_val (dec_RoundUp d s) = dec_val d"
  using amount_val_rescale [of "- s" "- dec_scale d" "dec_unscaled d"]
  by (simp add: dec_RoundUp_finer dec_val_def algebra_simps)

lemma dec_AsScale_exact:
  "dec_AsScale d 0 = (d', True) \<Longrightarrow> \<bar>dec_scale d\<bar> < 2 ^ 31 \<Longrightarrow> dec_val d' = dec_val d \<and> dec_scale d' = 0"
  using dec_Cmp_vals(1) [of "dec_RoundUp d 0" d]
  by (auto simp: dec_AsScale_def Let_def) (simp_all add: dec_RoundUp_def Let_def)

section \<open>Canonical form in base 1024\<close>

definition canonical1024_for :: "rat \<Rightarrow> int \<times> int \<Rightarrow> bool" where
  "canonical1024_for v p = (\<exists>k. snd p = int k \<and> of_int (fst p * 1024 ^ k) = v)"

lemma dec_canonical1024_sound:
  assumes "dec_scale d \<le> 0" "- (2 ^ 31) < dec_scale d" "dec_val d \<noteq> 0" shows "canonical1024_for (dec_val d) (dec_canonical1024 d)"
proof -
  let ?d = "dec_RoundUp d 0"
  have v: "dec_val d = of_int (dec_unscaled ?d)"
    using dec_RoundUp_val [OF assms(1)] assms(2)
    by (simp add: dec_RoundUp_finer [OF assms(1)] dec_val_def [of "\<lparr>dec_unscaled = _, dec_scale = 0\<rparr>"])
  obtain r n where r: "remove_big_factors 1024 (dec_unscaled ?d) 0 = (r, n)" by fastforce
  from v assms(3) have "dec_unscaled ?d \<noteq> 0" by auto
  from remove_big_sound [OF r _ this] obtain k where "n = int k" "dec_unscaled ?d = r * 1024 ^ k" by auto
  moreover from r have "dec_canonical1024 d = (r, n)" by (simp add: dec_canonical1024_def removeBigIntFactors_def)
  ultimately show ?thesis unfolding v by (simp add: canonical1024_for_def)
qed

lemma amt_canonical1024_sound:
  assumes "0 \<le> amt_scale a" "int64_range (amt_value a)" "amount_val a \<noteq> 0" "amt_scale a < 2 ^ 31"
  shows "canonical1024_for (amount_val a) (amt_canonical1024 a)"
proof -
  let ?x = "amt_value a * 10 ^ nat (amt_scale a)"
  note up = positiveScaleInt64_exact [OF assms(2,1)]
  have val: "amount_val a = of_int ?x" using powi_nonneg [OF assms(1), of "amt_value a"] by (simp add: amount_val_def)
  have dec: "canonical1024_for (amount_val a) (dec_canonical1024 (AsDec a))"
    using dec_canonical1024_sound [of "AsDec a"] assms dec_val_AsDec [of a] by (simp add: AsDec_def)
  show ?thesis
  proof (cases "int64_range ?x")
    case True
    obtain r n where r: "removeInt64Factors ?x 1024 = (r, n)" by fastforce
    from removeInt64Factors_sound [OF r True] obtain k where "n = int k" "?x = r * 1024 ^ k" by auto
    moreover have "AsScaledInt64 a 0 = (?x, True)"
      using up True assms(1,4) by (simp add: AsScaledInt64_def prod_eq_iff)
    with r have "amt_canonical1024 a = (r, n)" by (simp add: amt_canonical1024_def)
    ultimately show ?thesis unfolding val by (simp add: canonical1024_for_def)
  next
    case False
    with up(1) assms(1,4) obtain v where "AsScaledInt64 a 0 = (v, False)"
      by (cases "positiveScaleInt64 (amt_value a) (amt_scale a)") (simp add: AsScaledInt64_def)
    with dec show ?thesis by (simp add: amt_canonical1024_def)
  qed
qed

lemma q_val_zero: "IsZero q \<longleftrightarrow> q_val q = 0"
  by (simp add: IsZero_def q_val_def dec_val_def amount_val_def split: option.split)

section \<open>What is printed has the value of the quantity\<close>

lemma binary_exponent:
  assumes "\<bar>of_int (a * 2 ^ (10 * k)) :: rat\<bar> \<le> of_int mostPositive" "a \<noteq> 0" shows "k \<le> 6"
proof (rule ccontr)
  assume "\<not> k \<le> 6"
  then have "(2 :: int) ^ 70 \<le> 2 ^ (10 * k)" by (intro power_increasing) auto
  moreover have "1 \<le> \<bar>a\<bar>" using assms(2) by simp
  then have "2 ^ (10 * k) \<le> \<bar>a * 2 ^ (10 * k)\<bar>" by (simp add: abs_mult mult_le_cancel_right1)
  moreover have "\<bar>a * 2 ^ (10 * k)\<bar> \<le> mostPositive" using assms(1) by (metis of_int_abs of_int_le_iff)
  ultimately show False by (simp add: mostPositive_def)
qed

lemma rounded_canonical1024:
  assumes "q_wf q" "\<not> IsZero q" "plain_val (q_val q)" "q_AsScale q 0 = (v, True)"
  shows "canonical1024_for (q_val q) (value_canonical1024 v)"
proof (cases "q_d q")
  case None
  then obtain a' where a': "amt_AsScale (q_i q) 0 = (a', True)" "v = CInt a'"
    using assms(4) by (auto simp: q_AsScale_def split: prod.splits)
  have "\<bar>amt_scale (q_i q)\<bar> < 2 ^ 31" using plain_q_scale [OF assms(1-3)] None by (simp add: q_scale_def)
  with amt_AsScale_exact [OF a'(1)] assms(1)
  have "amount_val a' = q_val q" "int64_range (amt_value a')" "0 \<le> amt_scale a'" "amt_scale a' < 2 ^ 31"
    using None by (simp_all add: q_wf_def q_val_def)
  with amt_canonical1024_sound [of a'] assms(2) q_val_zero a'(2) show ?thesis by (simp add: value_canonical1024_def)
next
  case (Some d)
  then obtain d' where d': "dec_AsScale d 0 = (d', True)" "v = CDec d'"
    using assms(4) by (auto simp: q_AsScale_def split: prod.splits)
  have "\<bar>dec_scale d\<bar> < 2 ^ 31" using plain_q_scale [OF assms(1-3)] Some by (simp add: q_scale_def)
  with dec_AsScale_exact [OF d'(1)] Some have "dec_val d' = q_val q" "dec_scale d' = 0" by (simp_all add: q_val_def)
  with dec_canonical1024_sound [of d'] assms(2) q_val_zero d'(2) show ?thesis by (simp add: value_canonical1024_def)
qed

lemma printed_sound:
  assumes "q_wf q" "\<not> IsZero q" "plain_val (q_val q)" "printed_parts q = (a, b, e, fmt)"
  shows "b = 2 \<and> fmt = BinarySI \<and> (\<exists>k. e = 10 * int k \<and> of_int (a * 2 ^ (10 * k)) = q_val q) \<or>
    b = 10 \<and> (fmt = DecimalSI \<or> fmt = DecimalExponent) \<and> canonical_for (q_val q) (a, e)"
proof (cases "q_Format q = BinarySI \<and> \<not> (CmpInt64 q (-1024) > 0 \<and> CmpInt64 q 1024 < 0) \<and> snd (q_AsScale q 0)")
  case True
  obtain v where v: "q_AsScale q 0 = (v, True)" using True by (cases "q_AsScale q 0") auto
  obtain k where k: "snd (value_canonical1024 v) = int k" "of_int (fst (value_canonical1024 v) * 1024 ^ k) = q_val q"
    using rounded_canonical1024 [OF assms(1-3) v] by (auto simp: canonical1024_for_def)
  have pow: "(2 :: int) ^ (10 * k) = 1024 ^ k" by (simp add: power_mult)
  have "q_val q \<noteq> 0" using assms(2) q_val_zero by blast
  then have "fst (value_canonical1024 v) \<noteq> 0" unfolding k(2) [symmetric] by auto
  moreover have "\<bar>of_int (fst (value_canonical1024 v) * 2 ^ (10 * k)) :: rat\<bar> \<le> of_int mostPositive"
    using assms(3) unfolding pow k(2) plain_val_def by blast
  ultimately have "k \<le> 6" by (rule binary_exponent [rotated])
  then have "wrap32 (int k * 10) = int k * 10" by simp
  then have "a = fst (value_canonical1024 v)" "b = 2" "e = int k * 10" "fmt = BinarySI"
    using True assms(4) v k(1) by (auto simp: printed_parts_def Let_def split: prod.splits)
  then show ?thesis using k(2) pow by (intro disjI1 conjI exI [of _ k]) simp_all
next
  case False
  then have "b = 10" "fmt = DecimalSI \<or> fmt = DecimalExponent" "q_canonical q = (a, e)"
    using assms(4) by (auto simp: printed_parts_def Let_def split: prod.splits)
  with q_canonical_sound [OF assms(1-3)] show ?thesis by simp
qed

text \<open>A binary quantity between -1024 and 1024 is printed with a decimal suffix.\<close>

lemma small_binary_decimal:
  assumes "q_Format q = BinarySI" "\<bar>q_val q\<bar> < 1024" "\<bar>q_scale q\<bar> < 2 ^ 31"
  shows "\<exists>a e. printed_parts q = (a, 10, e, DecimalSI)"
proof -
  have "CmpInt64 q (-1024) > 0" "CmpInt64 q 1024 < 0"
    using assms(2) by (simp_all add: CmpInt64_vals [OF assms(3)] abs_less_iff)
  with assms(1) show ?thesis by (simp add: printed_parts_def split: prod.split)
qed

end
