(* ===== verification/Quantity_Parse.thy ===== *)
theory Quantity_Parse
  imports Quantity_Text
begin

text \<open>
  Reading a quantity: \<open>ParseQuantity\<close> with its scanner, the suffix table read backwards, the fast path for
  numbers that fit 64 bits and the decimal path with its rounding and its cap (\<open>apimachinery/pkg/api/resource\<close>,
  \<open>Dec.SetString\<close> of \<open>gopkg.in/inf.v0\<close>).  The result is the quantity and the text it keeps, empty unless
  the parser takes the text for canonical.

  Shown: the printed text of every quantity that is a whole number of nano-units and fits 63 bits reads back
  as the same value, in every format and representation (\<open>quantity_text_exact\<close>); outside these bounds a
  printed text can be wrong (\<open>large_text_wrong\<close>, \<open>exponent_wraps\<close>).
\<close>

section \<open>Numbers as text\<close>

definition is_digit :: "char \<Rightarrow> bool" where
  "is_digit c = (c \<in> set ''0123456789'')"

definition digits_value :: "string \<Rightarrow> int" where
  "digits_value s = foldl (\<lambda>n c. n * 10 + (of_char c - 48)) 0 s"

text \<open>
  \<open>big.Int.SetString\<close> in base 10 and \<open>strconv.ParseInt(s, 10, 64)\<close>: an optional sign and at least one
  digit; \<open>ParseInt\<close> also fails outside int64.
\<close>

definition unsigned_text :: "string \<Rightarrow> string" where
  "unsigned_text s = (case s of c # cs \<Rightarrow> if c = CHR ''-'' \<or> c = CHR ''+'' then cs else s | [] \<Rightarrow> [])"

definition big_SetString :: "string \<Rightarrow> int option" where
  "big_SetString s =
     (let ds = unsigned_text s in
      if ds = [] \<or> (\<exists>c \<in> set ds. \<not> is_digit c) then None
      else Some (if hd s = CHR ''-'' then - digits_value ds else digits_value ds))"

definition ParseInt :: "string \<Rightarrow> int option" where
  "ParseInt s = (case big_SetString s of Some n \<Rightarrow> if int64_range n then Some n else None | None \<Rightarrow> None)"

section \<open>Scanning\<close>

definition ErrFormatWrong :: string where
  "ErrFormatWrong = ''quantities must match the regular expression '^([+-]?[0-9.]+)([eEinumkKMGTP]*[-+]?[0-9]*)$'' @ [CHR 0x27]"

definition ErrNumeric :: string where "ErrNumeric = ''unable to parse numeric part of quantity''"
definition ErrSuffix :: string where "ErrSuffix = ''unable to parse quantity's suffix''"

text \<open>The end of \<open>parseQuantityString\<close>: letters, an optional sign, digits, and nothing after them.\<close>

definition suffix_scans :: "string \<Rightarrow> bool" where
  "suffix_scans s =
     (let r = dropWhile (\<lambda>c. c \<in> set ''eEinumkKMGTP'') s;
          r' = (case r of c # cs \<Rightarrow> if c = CHR ''-'' \<or> c = CHR ''+'' then cs else r | [] \<Rightarrow> [])
      in dropWhile is_digit r' = [])"

text \<open>
  \<open>parseQuantityString\<close>: sign, value, numerator, denominator and suffix.  A loop that runs to the end of
  the text returns at once; \<open>value\<close> is the text up to the suffix.
\<close>

definition parseQuantityString :: "string \<Rightarrow> (bool \<times> string \<times> string \<times> string \<times> string) outcome" where
  "parseQuantityString str =
     (let positive = (str = [] \<or> hd str \<noteq> CHR ''-'');
          body = dropWhile (\<lambda>c. c = CHR ''0'') (unsigned_text str);
          num = takeWhile is_digit body;
          rest = dropWhile is_digit body
      in
      if body = [] then Ok (positive, ''0'', ''0'', [], [])
      else if rest = [] then Ok (positive, str, num, [], [])
      else
        (let num' = (if num = [] then ''0'' else num);
             denom = (if hd rest = CHR ''.'' then takeWhile is_digit (tl rest) else []);
             rest' = (if hd rest = CHR ''.'' then dropWhile is_digit (tl rest) else rest)
         in
         if rest' = [] then Ok (positive, str, num', denom, [])
         else if suffix_scans rest' then Ok (positive, take (length str - length rest') str, num', denom, rest')
         else Err ErrFormatWrong))"

section \<open>Suffixes\<close>

definition handler_interpret :: "string \<Rightarrow> (int \<times> int \<times> string) option" where
  "handler_interpret s =
     (case map_of (suffixToBE decSuffixes) s of
        Some (b, e) \<Rightarrow> Some (b, e, DecimalSI)
      | None \<Rightarrow>
          (case map_of (suffixToBE binSuffixes) s of
             Some (b, e) \<Rightarrow> Some (b, e, BinarySI)
           | None \<Rightarrow>
               if length s > 1 \<and> (hd s = CHR ''E'' \<or> hd s = CHR ''e'') then
                 (case ParseInt (tl s) of Some n \<Rightarrow> Some (10, wrap32 n, DecimalExponent) | None \<Rightarrow> None)
               else None))"

definition interpret_suffix :: "string \<Rightarrow> (int \<times> int \<times> string) option" where
  "interpret_suffix s =
     (if s = [] then Some (10, 0, DecimalSI)
      else if s = ''n'' then Some (10, -9, DecimalSI)
      else if s = ''u'' then Some (10, -6, DecimalSI)
      else if s = ''m'' then Some (10, -3, DecimalSI)
      else if s = ''k'' then Some (10, 3, DecimalSI)
      else if s = ''M'' then Some (10, 6, DecimalSI)
      else if s = ''G'' then Some (10, 9, DecimalSI)
      else handler_interpret s)"

section \<open>The fast path\<close>

definition int64Multiply :: "int \<Rightarrow> int \<Rightarrow> int \<times> bool" where
  "int64Multiply a b =
     (if a = 0 \<or> b = 0 \<or> a = 1 \<or> b = 1 then (wrap64 (a * b), True)
      else if a = mostNegative \<or> b = mostNegative then (0, False)
      else (let c = wrap64 (a * b) in (c, c sdiv b = a)))"

text \<open>Precision, scale and mantissa; the float32 product of the code is exact at the exponents of the binary table.\<close>

definition parse_precision :: "int \<Rightarrow> string \<Rightarrow> string \<Rightarrow> string \<Rightarrow> int \<times> int \<times> int" where
  "parse_precision e fmt num denom =
     (if fmt = DecimalExponent \<or> fmt = DecimalSI then (18 - int (length num + length denom), e, 1)
      else if e \<ge> 0 \<and> denom = [] then (15 - int (length num) - e * 3 div 10 - 1, 0, wrap64 (2 ^ nat e))
      else (-1, 0, 1))"

definition HasSuffix :: "string \<Rightarrow> string \<Rightarrow> bool" where
  "HasSuffix s p = (drop (length s - length p) s = p)"

text \<open>Whether the fast path keeps the text.\<close>

definition keeps_text :: "int \<Rightarrow> string \<Rightarrow> int \<Rightarrow> string \<Rightarrow> int \<Rightarrow> bool" where
  "keeps_text e fmt scale shifted value =
     (if fmt = BinarySI then e smod 10 = 0 \<and> value mod 8 \<noteq> 0
      else scale smod 3 = 0 \<and> \<not> HasSuffix shifted ''000'' \<and> hd shifted \<noteq> CHR ''0'')"

text \<open>\<open>None\<close>: the fast path does not apply.\<close>

definition parse_fast ::
    "string \<Rightarrow> bool \<Rightarrow> string \<Rightarrow> string \<Rightarrow> int \<Rightarrow> string \<Rightarrow> (quantity \<times> string) outcome option" where
  "parse_fast str positive num denom e fmt =
     (case parse_precision e fmt num denom of (precision, scale0, mantissa) \<Rightarrow>
       (let scale = wrap32 (scale0 - int (length denom)); shifted = num @ denom in
        if precision \<ge> 0 \<and> scale \<ge> -9 then
          (case ParseInt shifted of
             None \<Rightarrow> Some (Err ErrNumeric)
           | Some v \<Rightarrow>
               (case int64Multiply v mantissa of (r, ok) \<Rightarrow>
                  if ok then
                    Some (Ok (\<lparr>q_i = \<lparr>amt_value = (if positive then r else wrap64 (- r)), amt_scale = scale\<rparr>,
                               q_d = None, q_Format = fmt\<rparr>,
                              if keeps_text e fmt scale shifted v then str else []))
                  else None))
        else None))"

section \<open>The decimal path\<close>

text \<open>\<open>Dec.scan\<close>: the digits with their sign, the position of the point and of the first digit, and the rest.\<close>

fun dec_scan :: "string \<Rightarrow> string \<Rightarrow> int \<Rightarrow> int \<Rightarrow> string \<times> int \<times> int \<times> string" where
  "dec_scan [] unscaled dp dg = (unscaled, dp, dg, [])"
| "dec_scan (c # cs) unscaled dp dg =
     (if c = CHR ''+'' \<or> c = CHR ''-'' then
        (if unscaled \<noteq> [] \<or> dp \<ge> 0 then (unscaled, dp, dg, c # cs) else dec_scan cs (unscaled @ [c]) dp dg)
      else if c = CHR ''.'' then
        (if dp \<ge> 0 then (unscaled, dp, dg, c # cs) else dec_scan cs unscaled (int (length unscaled)) dg)
      else if is_digit c then
        dec_scan cs (unscaled @ [c]) dp (if dg = -1 then int (length unscaled) else dg)
      else (unscaled, dp, dg, c # cs))"

definition dec_SetString :: "string \<Rightarrow> infDec option" where
  "dec_SetString s =
     (case dec_scan s [] (-1) (-1) of (unscaled, dp, dg, rest) \<Rightarrow>
        if dg = -1 then None
        else (case big_SetString unscaled of
                None \<Rightarrow> None
              | Some u \<Rightarrow>
                  if rest \<noteq> [] then None
                  else Some \<lparr>dec_unscaled = u, dec_scale = (if dp \<ge> 0 then int (length unscaled) - dp else 0)\<rparr>))"

definition without_suffix :: "infDec \<Rightarrow> int \<Rightarrow> int \<Rightarrow> infDec" where
  "without_suffix d base e =
     (if base = 10 then d\<lparr>dec_scale := wrap32 (dec_scale d + wrap32 (- e))\<rparr>
      else if base = 2 then d\<lparr>dec_unscaled := dec_unscaled d * 2 ^ nat e\<rparr>
      else d)"

definition dec_Neg :: "infDec \<Rightarrow> infDec" where
  "dec_Neg d = d\<lparr>dec_unscaled := - dec_unscaled d\<rparr>"

definition parse_slow :: "string \<Rightarrow> int \<Rightarrow> int \<Rightarrow> string \<Rightarrow> (quantity \<times> string) outcome" where
  "parse_slow value base e fmt =
     (case dec_SetString value of
        None \<Rightarrow> Err ErrNumeric
      | Some d \<Rightarrow>
          (let d1 = without_suffix d base e;
               negative = (dec_unscaled d1 < 0);
               d2 = (if negative then dec_Neg d1 else d1);
               d3 = (if dec_unscaled d2 = 0 then d2 else dec_RoundUp d2 9);
               maxAllowed = \<lparr>dec_unscaled = mostPositive, dec_scale = 0\<rparr>;
               d4 = (if fmt = BinarySI \<and> dec_Cmp d3 maxAllowed > 0 then maxAllowed else d3);
               fmt' = (if fmt = BinarySI \<and> dec_Cmp d4 \<lparr>dec_unscaled = 1, dec_scale = 0\<rparr> < 0 \<and>
                          dec_Cmp d4 \<lparr>dec_unscaled = 0, dec_scale = 0\<rparr> > 0
                       then DecimalSI else fmt)
           in Ok (\<lparr>q_i = \<lparr>amt_value = 0, amt_scale = 0\<rparr>, q_d = Some (if negative then dec_Neg d4 else d4),
                   q_Format = fmt'\<rparr>, [])))"

definition ParseQuantity :: "string \<Rightarrow> (quantity \<times> string) outcome" where
  "ParseQuantity str =
     (if str = [] then Err ErrFormatWrong
      else if str = ''0'' then
        Ok (\<lparr>q_i = \<lparr>amt_value = 0, amt_scale = 0\<rparr>, q_d = None, q_Format = DecimalSI\<rparr>, str)
      else case parseQuantityString str of
        Err msg \<Rightarrow> Err msg
      | Panic p \<Rightarrow> Panic p
      | Ok (positive, value, num, denom, suf) \<Rightarrow>
          (case interpret_suffix suf of
             None \<Rightarrow> Err ErrSuffix
           | Some (base, e, fmt) \<Rightarrow>
               (case parse_fast str positive num denom e fmt of
                  Some r \<Rightarrow> r
                | None \<Rightarrow> parse_slow value base e fmt)))"

section \<open>Numbers read back\<close>

lemma digits_value_snoc: "digits_value (s @ [c]) = digits_value s * 10 + (of_char c - 48)"
  by (simp add: digits_value_def)

lemma digit_char:
  assumes "m < 10" shows "is_digit (char_of (48 + m))" "of_char (char_of (48 + m :: nat)) = (48 + int m)"
proof -
  have "\<forall>m \<in> set [0..<10]. is_digit (char_of (48 + m))" by code_simp
  with assms show "is_digit (char_of (48 + m))" by simp
  have "\<forall>m \<in> set [0..<10]. of_char (char_of (48 + m)) = (48 + int m)" by code_simp
  with assms show "of_char (char_of (48 + m :: nat)) = (48 + int m)" by simp
qed

lemma nat_digits_read:
  "digits_value (nat_digits n) = int n \<and> (\<forall>c \<in> set (nat_digits n). is_digit c) \<and> nat_digits n \<noteq> [] \<and>
   (0 < n \<longrightarrow> hd (nat_digits n) \<noteq> CHR ''0'')"
proof (induction n rule: nat_digits.induct)
  case (1 n)
  show ?case
  proof (cases "n < 10")
    case True
    have "char_of (48 + n) \<noteq> CHR ''0''" if "0 < n"
    proof
      assume "char_of (48 + n) = CHR ''0''"
      then have "(of_char (char_of (48 + n)) :: int) = of_char CHR ''0''" by (rule arg_cong)
      with that True digit_char(2) [of n] show False by simp
    qed
    with True digit_char [of n] show ?thesis
      by (simp add: nat_digits.simps [of n] digits_value_def)
  next
    case False
    then have "n mod 10 < 10" "0 < n div 10" by simp_all
    moreover have "int (n div 10) * 10 + int (n mod 10) = int (n div 10 * 10 + n mod 10)" by (simp only: of_nat_add of_nat_mult of_nat_numeral)
    then have "int (n div 10) * 10 + int (n mod 10) = int n" by (simp only: div_mult_mod_eq)
    ultimately show ?thesis
      using False 1 digit_char [of "n mod 10"] by (simp add: nat_digits.simps [of n] digits_value_snoc)
  qed
qed

lemma digits_value_bounds:
  "\<forall>c \<in> set s. is_digit c \<Longrightarrow> 0 \<le> digits_value s \<and> digits_value s < 10 ^ length s"
proof (induction s rule: rev_induct)
  case (snoc c s)
  have "\<forall>c \<in> set ''0123456789''. (0 :: int) \<le> of_char c - 48 \<and> of_char c - 48 < (10 :: int)" by code_simp
  moreover have "c \<in> set ''0123456789''" using snoc.prems unfolding is_digit_def [symmetric] by simp
  ultimately have "(0 :: int) \<le> of_char c - 48" "of_char c - 48 < (10 :: int)" by blast+
  moreover have "0 \<le> digits_value s" "digits_value s < 10 ^ length s" using snoc by simp_all
  ultimately have "0 \<le> digits_value s * 10 + (of_char c - 48)" "digits_value s * 10 + (of_char c - 48) < 10 ^ length s * 10"
    by linarith+
  then show ?case by (simp add: digits_value_snoc mult.commute)
qed (simp add: digits_value_def)

lemma is_digit_sign: "is_digit c \<Longrightarrow> c \<noteq> CHR ''-'' \<and> c \<noteq> CHR ''+'' \<and> c \<noteq> CHR ''.''"
  by (auto simp: is_digit_def)

text \<open>An integer that is not zero and its text.\<close>

lemma int_text_cases:
  assumes "a \<noteq> 0"
  obtains n where "0 < n" "\<bar>a\<bar> = int n" "int_text a = (if a < 0 then [CHR ''-''] else []) @ nat_digits n"
  using that [of "nat \<bar>a\<bar>"] assms by (simp add: int_text_def)

lemma unsigned_int_text: "0 < n \<Longrightarrow> unsigned_text ((if neg then [CHR ''-''] else []) @ nat_digits n @ s) = nat_digits n @ s"
  using nat_digits_read [of n] is_digit_sign [of "hd (nat_digits n)"]
  by (cases "nat_digits n") (auto simp: unsigned_text_def)

lemma big_SetString_int_text:
  assumes "a \<noteq> 0" shows "big_SetString (int_text a) = Some a"
proof -
  obtain n where n: "0 < n" "\<bar>a\<bar> = int n" "int_text a = (if a < 0 then [CHR ''-''] else []) @ nat_digits n"
    using assms by (rule int_text_cases)
  have "hd (nat_digits n) \<noteq> CHR ''-''"
    using nat_digits_read [of n] is_digit_sign [of "hd (nat_digits n)"] by simp
  with n nat_digits_read [of n] unsigned_int_text [of n "a < 0" "[]"] show ?thesis
    by (auto simp: big_SetString_def Let_def)
qed

lemma ParseInt_nat_digits: "0 < n \<Longrightarrow> ParseInt (nat_digits n) = (if int64_range (int n) then Some (int n) else None)"
  using big_SetString_int_text [of "int n"] by (simp add: ParseInt_def int_text_def)

lemma dec_scan_digits:
  "\<forall>c \<in> set ds. is_digit c \<Longrightarrow>
   dec_scan ds u (-1) dg = (u @ ds, -1, if dg = -1 \<and> ds \<noteq> [] then int (length u) else dg, [])"
proof (induction ds arbitrary: u dg)
  case (Cons c ds)
  then show ?case using is_digit_sign [of c] by (auto simp: Cons.IH)
qed simp

lemma dec_SetString_int_text:
  assumes "a \<noteq> 0" shows "dec_SetString (int_text a) = Some \<lparr>dec_unscaled = a, dec_scale = 0\<rparr>"
proof -
  obtain n where n: "0 < n" "int_text a = (if a < 0 then [CHR ''-''] else []) @ nat_digits n"
    using int_text_cases [OF assms] by metis
  have "\<exists>dg. dg \<noteq> -1 \<and> dec_scan (int_text a) [] (-1) (-1) = (int_text a, -1, dg, [])"
    using n nat_digits_read [of n] by (auto simp: dec_scan_digits)
  then show ?thesis using big_SetString_int_text [OF assms] by (auto simp: dec_SetString_def)
qed

section \<open>A printed text is scanned into its parts\<close>

definition scans_after_number :: "string \<Rightarrow> bool" where
  "scans_after_number s \<longleftrightarrow> s = [] \<or> \<not> is_digit (hd s) \<and> hd s \<noteq> CHR ''.'' \<and> suffix_scans s"

lemma parse_int_text:
  assumes "a \<noteq> 0" "scans_after_number s"
  shows "parseQuantityString (int_text a @ s) = Ok (0 < a, int_text a, nat_digits (nat \<bar>a\<bar>), [], s)"
proof -
  obtain n where n: "0 < n" "\<bar>a\<bar> = int n" "int_text a = (if a < 0 then [CHR ''-''] else []) @ nat_digits n"
    using assms(1) by (rule int_text_cases)
  note d = nat_digits_read [of n]
  have u: "unsigned_text (int_text a @ s) = nat_digits n @ s"
    using unsigned_int_text [of n "a < 0" s] n(1,3) by simp
  have z: "dropWhile (\<lambda>c. c = CHR ''0'') (nat_digits n @ s) = nat_digits n @ s"
    using d n(1) by (cases "nat_digits n") auto
  have split: "takeWhile is_digit (nat_digits n @ s) = nat_digits n" "dropWhile is_digit (nat_digits n @ s) = s"
    using d assms(2) by (cases s; auto simp: scans_after_number_def)+
  have sgn: "(hd (int_text a @ s) \<noteq> CHR ''-'') = (0 < a)" "int_text a @ s \<noteq> []"
    using d n assms(1) is_digit_sign [of "hd (nat_digits n)"] by auto
  have abs: "nat \<bar>a\<bar> = n" using n(2) by simp
  show ?thesis
    using assms(2) d sgn
    by (auto simp: parseQuantityString_def u z split abs Let_def scans_after_number_def)
qed

section \<open>A printed suffix is read back\<close>

definition suffix_reads :: "int \<Rightarrow> int \<Rightarrow> string \<Rightarrow> bool" where
  "suffix_reads b e s \<longleftrightarrow> scans_after_number s \<and>
     (case interpret_suffix s of
        None \<Rightarrow> False
      | Some (b', e', fmt) \<Rightarrow>
          b' = 10 \<and> fmt \<noteq> BinarySI \<and> (fmt = DecimalSI \<or> fmt = DecimalExponent) \<and> e' = e \<and> (b = 10 \<or> e = 0) \<or>
          b' = 2 \<and> fmt = BinarySI \<and> e' = e \<and> b = 2)"

lemma decimal_suffix_reads:
  assumes "3 dvd e" "-9 \<le> e" "e \<le> 18" "fmt = DecimalSI \<or> fmt = DecimalExponent"
  shows "suffix_reads 10 e (fst (constructBytes 10 e fmt))"
proof -
  have "\<forall>e \<in> set [-9, -6, -3, 0, 3, 6, 9, 12, 15, 18 :: int].
      suffix_reads 10 e (fst (constructBytes 10 e DecimalSI)) \<and> suffix_reads 10 e (fst (constructBytes 10 e DecimalExponent))"
    by code_simp
  moreover have "e \<in> set [-9, -6, -3, 0, 3, 6, 9, 12, 15, 18]" using assms(1-3) by simp presburger
  ultimately show ?thesis using assms(4) by blast
qed

lemma binary_suffix_reads:
  assumes "k \<le> 6" shows "suffix_reads 2 (10 * int k) (fst (constructBytes 2 (10 * int k) BinarySI))"
proof -
  have "\<forall>k \<in> set [0, 1, 2, 3, 4, 5, 6 :: nat].
      suffix_reads 2 (10 * int k) (fst (constructBytes 2 (10 * int k) BinarySI))"
    by code_simp
  moreover have "k \<in> set [0, 1, 2, 3, 4, 5, 6]" using assms by (simp, arith)
  ultimately show ?thesis by blast
qed

section \<open>Both paths read the value\<close>

lemma int64Multiply_exact:
  assumes "int64_range a" "1 \<le> b" "b < 2 ^ 63" "int64Multiply a b = (r, True)"
  shows "r = a * b \<and> int64_range r"
proof (cases "b = 1")
  case True
  with assms show ?thesis by (simp add: int64Multiply_def)
next
  case False
  then have "int64Multiply a b = int64MultiplyScale a b"
    using assms(2) by (auto simp: int64Multiply_def int64MultiplyScale_def mostNegative_def)
  with int64MultiplyScale_exact [OF assms(1), of b] False assms show ?thesis by auto
qed

text \<open>The factor a base and an exponent stand for.\<close>

definition factor_of :: "int \<Rightarrow> int \<Rightarrow> rat" where
  "factor_of b e = (if b = 2 then of_int (2 ^ nat e) else 10 powi e)"

lemma wrap32_small [simp]: "- (2 ^ 31) \<le> x \<Longrightarrow> x < 2 ^ 31 \<Longrightarrow> wrap32 x = x"
  by (simp add: wrap32_def)

lemma binary_factor_range:
  assumes "e \<le> 60" shows "int64_range (2 ^ nat e) \<and> (2 :: int) ^ nat e < 2 ^ 63"
proof -
  have "x \<le> 2 ^ 60 \<Longrightarrow> 0 \<le> x \<Longrightarrow> int64_range x \<and> x < 2 ^ 63" for x :: int by (simp add: int64_defs)
  moreover have "(2 :: int) ^ nat e \<le> 2 ^ 60" using assms by (intro power_increasing) auto
  ultimately show ?thesis by simp
qed

lemma parse_fast_sound:
  assumes "0 < n" "b = 10 \<and> -9 \<le> e \<and> e \<le> 18 \<and> (fmt = DecimalSI \<or> fmt = DecimalExponent) \<or> b = 2 \<and> 0 \<le> e \<and> e \<le> 60 \<and> fmt = BinarySI"
    and fast: "parse_fast str pos (nat_digits n) [] e fmt = Some r"
  shows "\<exists>q s. r = Ok (q, s) \<and> q_val q = of_int (if pos then int n else - int n) * factor_of b e"
proof -
  obtain p sc m where pre: "parse_precision e fmt (nat_digits n) [] = (p, sc, m)" by (metis prod_cases3)
  have m: "1 \<le> m" "m < 2 ^ 63" "of_int m * 10 powi sc = factor_of b e" "-9 \<le> sc" "sc \<le> 18"
    "0 \<le> p \<Longrightarrow> length (nat_digits n) \<le> 18"
  proof -
    have "wrap64 (2 ^ nat e) = 2 ^ nat e" "(2 :: int) ^ nat e < 2 ^ 63" if "e \<le> 60"
      using binary_factor_range [OF that] by simp_all
    moreover have "BinarySI \<noteq> DecimalSI" "BinarySI \<noteq> DecimalExponent"
      by (simp_all add: BinarySI_def DecimalSI_def DecimalExponent_def)
    ultimately show "1 \<le> m" "m < 2 ^ 63" "of_int m * 10 powi sc = factor_of b e" "-9 \<le> sc" "sc \<le> 18"
      "0 \<le> p \<Longrightarrow> length (nat_digits n) \<le> 18"
      using assms(2) pre by (auto simp: parse_precision_def factor_of_def)
  qed
  have sc: "wrap32 sc = sc" using m by simp
  from fast pre have "0 \<le> p" by (auto simp: parse_fast_def Let_def split: if_splits)
  note d = nat_digits_read [of n]
  have "int n < 10 ^ length (nat_digits n)" using d digits_value_bounds [of "nat_digits n"] by simp
  also have "\<dots> \<le> 10 ^ 18" using m(6) [OF \<open>0 \<le> p\<close>] by (intro power_increasing) auto
  finally have range: "int64_range (int n)" by (simp add: int64_defs)
  then have P: "ParseInt (nat_digits n) = Some (int n)" using ParseInt_nat_digits [OF assms(1)] by simp
  obtain x ok where x: "int64Multiply (int n) m = (x, ok)" by fastforce
  with fast pre P sc have ok: "ok" by (auto simp: parse_fast_def Let_def split: if_splits)
  with int64Multiply_exact [OF range m(1,2)] x have xr: "x = int n * m" "int64_range x" by auto
  then have "0 \<le> x" using m(1) by simp
  with xr(2) have "int64_range (- x)" by (auto simp: int64_defs)
  with fast pre P sc x ok \<open>0 \<le> p\<close> m(4) obtain s where
    r: "r = Ok (\<lparr>q_i = \<lparr>amt_value = (if pos then x else - x), amt_scale = sc\<rparr>, q_d = None, q_Format = fmt\<rparr>, s)"
    by (auto simp: parse_fast_def Let_def split: if_splits)
  show ?thesis unfolding r m(3) [symmetric] xr(1) by (simp add: q_val_def amount_val_def)
qed

lemma dec_Neg_val [simp]: "dec_val (dec_Neg d) = - dec_val d"
  by (simp add: dec_Neg_def dec_val_def)

lemma dec_val_less_zero: "dec_val d < 0 \<longleftrightarrow> dec_unscaled d < 0"
  using powi_sign [of "dec_unscaled d" "- dec_scale d"] by (simp add: dec_val_def not_le [symmetric])

lemma parse_slow_sound:
  assumes "dec_SetString value = Some d" "dec_scale (without_suffix d b e) \<le> 9" "-18 \<le> dec_scale (without_suffix d b e)"
    and "fmt = BinarySI \<longrightarrow> \<bar>dec_val (without_suffix d b e)\<bar> \<le> of_int mostPositive"
  shows "\<exists>q. parse_slow value b e fmt = Ok (q, []) \<and> q_val q = dec_val (without_suffix d b e)"
proof -
  let ?d1 = "without_suffix d b e"
  let ?neg = "dec_unscaled ?d1 < 0"
  let ?d2 = "if ?neg then dec_Neg ?d1 else ?d1"
  let ?d3 = "if dec_unscaled ?d2 = 0 then ?d2 else dec_RoundUp ?d2 9"
  have d2: "dec_scale ?d2 \<le> 9" "9 - dec_scale ?d2 < 2 ^ 31" using assms(2,3) by (simp_all add: dec_Neg_def)
  have "dec_val ?d2 = \<bar>dec_val ?d1\<bar>" using dec_val_less_zero [of ?d1] by auto
  then have d3: "dec_val ?d3 = \<bar>dec_val ?d1\<bar>" using dec_RoundUp_val [OF d2] by (simp only: split: if_split) simp
  have s3: "\<bar>dec_scale ?d3 - dec_scale \<lparr>dec_unscaled = mostPositive, dec_scale = 0\<rparr>\<bar> < 2 ^ 31"
    using assms(2,3) by (auto simp: dec_RoundUp_def Let_def dec_Neg_def)
  have nocap: "\<not> (fmt = BinarySI \<and> dec_Cmp ?d3 \<lparr>dec_unscaled = mostPositive, dec_scale = 0\<rparr> > 0)"
    unfolding dec_Cmp_vals(2) [OF s3] d3 using assms(4)
    by (auto simp: dec_val_def [of "\<lparr>dec_unscaled = mostPositive, dec_scale = 0\<rparr>"] not_less)
  let ?r = "if ?neg then dec_Neg ?d3 else ?d3"
  have "dec_val ?r = dec_val ?d1"
    using d3 dec_val_less_zero [of ?d1] by (simp only: dec_Neg_val split: if_split) linarith
  moreover obtain fmt' where
    "parse_slow value b e fmt = Ok (\<lparr>q_i = \<lparr>amt_value = 0, amt_scale = 0\<rparr>, q_d = Some ?r, q_Format = fmt'\<rparr>, [])"
    unfolding parse_slow_def assms(1) option.case Let_def if_not_P [OF nocap] by blast
  ultimately show ?thesis by (simp add: q_val_def)
qed

section \<open>Printed quantities read back\<close>

text \<open>The exponents that can be printed for a whole number of nano-units of at most 63 bits.\<close>

lemma canonical_exponent:
  assumes "canonical_for v (a, e)" "plain_val v" shows "-9 \<le> e" "e \<le> 18"
proof -
  have v: "v = of_int a * 10 powi e" "3 dvd e" "\<not> 10 ^ 3 dvd a" using assms(1) by (simp_all add: canonical_for_def)
  have "-12 < e" using plain_exponent_low [OF assms(2) v(1,3)] by simp
  with v(2) show "-9 \<le> e" by presburger
  have "a \<noteq> 0" using v(3) by auto
  with plain_exponent_high [OF assms(2) v(1)] show "e \<le> 18" .
qed

text \<open>A number with a suffix that is read back reads as the value it stands for.\<close>

lemma text_reads:
  assumes "a \<noteq> 0" "suffix_reads b e suf" "-9 \<le> e" "b = 10 \<longrightarrow> e \<le> 18" "b = 2 \<longrightarrow> 0 \<le> e \<and> e \<le> 60"
    and "b = 10 \<or> b = 2" "\<bar>of_int a * factor_of b e\<bar> \<le> of_int mostPositive"
  shows "\<exists>q s. ParseQuantity (int_text a @ suf) = Ok (q, s) \<and> q_val q = of_int a * factor_of b e"
proof -
  obtain b' fmt where i: "interpret_suffix suf = Some (b', e, fmt)"
    "b' = 10 \<and> -9 \<le> e \<and> e \<le> 18 \<and> (fmt = DecimalSI \<or> fmt = DecimalExponent) \<and> fmt \<noteq> BinarySI \<or>
     b' = 2 \<and> 0 \<le> e \<and> e \<le> 60 \<and> fmt = BinarySI"
    "factor_of b' e = factor_of b e"
    using assms(2-6) by (auto simp: suffix_reads_def factor_of_def split: option.splits)
  obtain n where n: "0 < n" "\<bar>a\<bar> = int n" "int_text a = (if a < 0 then [CHR ''-''] else []) @ nat_digits n"
    using assms(1) by (rule int_text_cases)
  have "int_text a @ suf \<noteq> []" "int_text a @ suf \<noteq> ''0''"
    using n nat_digits_read [of n] by (cases "nat_digits n"; auto)+
  moreover have "parseQuantityString (int_text a @ suf) = Ok (0 < a, int_text a, nat_digits n, [], suf)"
    using parse_int_text [OF assms(1), of suf] assms(2) n(2) by (simp add: suffix_reads_def)
  ultimately have P: "ParseQuantity (int_text a @ suf) =
      (case parse_fast (int_text a @ suf) (0 < a) (nat_digits n) [] e fmt of
         Some r \<Rightarrow> r | None \<Rightarrow> parse_slow (int_text a) b' e fmt)"
    unfolding ParseQuantity_def by (simp only: i(1) if_False outcome.case prod.case option.case)
  show ?thesis
  proof (cases "parse_fast (int_text a @ suf) (0 < a) (nat_digits n) [] e fmt")
    case (Some r)
    moreover have "(if 0 < a then int n else - int n) = a" using n(2) assms(1) by auto
    ultimately show ?thesis
      using parse_fast_sound [OF n(1) _ Some, of b'] i(2,3) P by auto
  next
    case None
    let ?d = "without_suffix \<lparr>dec_unscaled = a, dec_scale = 0\<rparr> b' e"
    have "dec_val ?d = of_int a * factor_of b e" "dec_scale ?d \<le> 9" "-18 \<le> dec_scale ?d"
      using i(2) unfolding i(3) [symmetric] by (auto simp: without_suffix_def dec_val_def factor_of_def)
    with parse_slow_sound [OF dec_SetString_int_text [OF assms(1)], of b' e fmt] assms(7) None P show ?thesis by auto
  qed
qed

lemma quantity_text_reads:
  assumes "q_wf q" "q_val q * 10 ^ 9 = of_int n" "\<bar>q_val q\<bar> \<le> of_int mostPositive"
  shows "\<exists>q' s. ParseQuantity (q_String q []) = Ok (q', s) \<and> q_val q' = q_val q"
proof (cases "IsZero q")
  case True
  then have "ParseQuantity (q_String q []) =
      Ok (\<lparr>q_i = \<lparr>amt_value = 0, amt_scale = 0\<rparr>, q_d = None, q_Format = DecimalSI\<rparr>, ''0'')"
    by (simp add: q_String_def CanonicalizeBytes_def ParseQuantity_def)
  with True show ?thesis by (simp add: q_val_zero) (simp add: q_val_def amount_val_def)
next
  case False
  obtain a b e fmt where p: "printed_parts q = (a, b, e, fmt)" by (metis prod_cases4)
  have S: "q_String q [] = int_text a @ fst (constructBytes b e fmt)"
    using False p by (simp add: q_String_def CanonicalizeBytes_def)
  have plain: "plain_val (q_val q)" using assms(2,3) by (auto simp: plain_val_def)
  from printed_sound [OF assms(1) False plain p] consider
    (bin) k where "b = 2" "fmt = BinarySI" "e = 10 * int k" "of_int (a * 2 ^ (10 * k)) = q_val q"
    | (dec) "b = 10" "fmt = DecimalSI \<or> fmt = DecimalExponent" "canonical_for (q_val q) (a, e)"
    by blast
  then show ?thesis
  proof cases
    case bin
    have a: "a \<noteq> 0" using bin(4) False q_val_zero [of q] by auto
    have k6: "k \<le> 6" using binary_exponent [of a k] a assms(3) bin(4) by simp
    have "of_int a * factor_of b e = q_val q" using bin by (simp add: factor_of_def nat_mult_distrib)
    with text_reads [OF a binary_suffix_reads [OF k6]] k6 bin(1-3) assms(3) show ?thesis by (simp add: S)
  next
    case dec
    have e: "-9 \<le> e" "e \<le> 18" using canonical_exponent [OF dec(3) plain] by simp_all
    have "a \<noteq> 0" "3 dvd e" "of_int a * factor_of b e = q_val q"
      using dec by (auto simp: canonical_for_def factor_of_def)
    with text_reads [of a b e "fst (constructBytes b e fmt)"] decimal_suffix_reads [OF \<open>3 dvd e\<close> e dec(2)] e dec(1) assms(3)
    show ?thesis by (simp add: S)
  qed
qed

section \<open>Texts outside these bounds\<close>

lemmas parse_evals = ParseQuantity_def parseQuantityString_def unsigned_text_def suffix_scans_def is_digit_def
  interpret_suffix_def handler_interpret_def decSuffixes_def binSuffixes_def addSuffix_def parse_fast_def
  parse_precision_def ParseInt_def big_SetString_def digits_value_def int64Multiply_def wrap32_def wrap64_def
  keeps_text_def HasSuffix_def DecimalSI_def BinarySI_def DecimalExponent_def int64_defs Let_def
  signed_modulo_int_def signed_divide_int_def

lemma char_of_digits:
  "char_of (48 :: nat) = CHR ''0''" "char_of (49 :: nat) = CHR ''1''" "char_of (53 :: nat) = CHR ''5''"
  by code_simp+

lemmas print_evals = char_of_digits q_String_def CanonicalizeBytes_def printed_parts_def IsZero_def q_canonical_def
  amt_canonical_def removeInt64Factors_def remove_factors.simps int_text_def nat_digits.simps constructBytes_def
  suffix_of_def decSuffixes_def binSuffixes_def addSuffix_def DecimalSI_def BinarySI_def DecimalExponent_def Let_def
  signed_modulo_int_def signed_divide_int_def

text \<open>\<open>1000E\<close> is not capped, and its exponent has no suffix when it is printed again: the result is \<open>1\<close>.\<close>

lemma large_text_wrong:
  "\<exists>q. ParseQuantity ''1000E'' = Ok (q, []) \<and> q_val q = 10 ^ 21 \<and> q_String q [] = ''1''"
  by (simp add: parse_evals) (simp add: print_evals q_val_def amount_val_def)

text \<open>The exponent is cut to 32 bits: \<open>1e4294967297\<close> reads as ten.\<close>

lemma exponent_wraps: "\<exists>q. ParseQuantity ''1e4294967297'' = Ok (q, []) \<and> q_val q = 10"
  by (simp add: parse_evals) (simp add: q_val_def amount_val_def)

text \<open>A sign or a suffix alone reads as zero, although it does not match the expression named in the error.\<close>

lemma no_digits_read_as_zero:
  "\<exists>q. ParseQuantity ''-'' = Ok (q, []) \<and> IsZero q" "\<exists>q. ParseQuantity ''k'' = Ok (q, []) \<and> IsZero q"
  by (simp_all add: parse_evals IsZero_def)

text \<open>A text that is not canonical is kept when it only has a sign or trailing zeros too much.\<close>

lemma kept_text_not_canonical: "\<exists>q. ParseQuantity ''+5'' = Ok (q, ''+5'') \<and> q_String q [] = ''5''"
  by (simp add: parse_evals) (simp add: print_evals)

text \<open>A tenth of a milli-unit is kept as it is, not rounded up to one.\<close>

lemma micro_units_kept: "\<exists>q s. ParseQuantity ''0.1m'' = Ok (q, s) \<and> q_val q = 1 / 10000"
  by (simp add: parse_evals) (simp add: q_val_def amount_val_def power_int_minus)

text \<open>A binary quantity without a factor of 1024 loses its format on the way: 5000 bytes come back as \<open>5k\<close>.\<close>

lemma binary_format_lost:
  "q_String (NewQuantity 5000 BinarySI) [] = ''5000'' \<and>
   (\<exists>q. ParseQuantity ''5000'' = Ok (q, []) \<and> q_Format q = DecimalSI \<and> q_String q [] = ''5k'')"
proof
  show "q_String (NewQuantity 5000 BinarySI) [] = ''5000''"
    by (simp add: print_evals NewQuantity_def CmpInt64_def amount_Cmp_def q_AsScale_def amt_AsScale_def
        value_canonical1024_def amt_canonical1024_def AsScaledInt64_def positiveScaleInt64_def)
  show "\<exists>q. ParseQuantity ''5000'' = Ok (q, []) \<and> q_Format q = DecimalSI \<and> q_String q [] = ''5k''"
    by (simp add: parse_evals) (simp add: print_evals)
qed

section \<open>Property\<close>

text \<open>
  C30: a quantity that is a whole number of nano-units and fits 63 bits prints, in every format and
  representation, as a text that \<open>ParseQuantity\<close> accepts and reads as exactly the same value.
\<close>

theorem quantity_text_exact:
  assumes "q_wf q" "q_val q * 10 ^ 9 = of_int n" "\<bar>q_val q\<bar> \<le> of_int mostPositive"
  shows "\<exists>q' s. ParseQuantity (q_String q []) = Ok (q', s) \<and> q_val q' = q_val q"
  using quantity_text_reads [OF assms] .

theorem quantity_text_exact_witness:
  "\<exists>q' s. ParseQuantity (q_String (NewQuantity 5368709120 BinarySI) []) = Ok (q', s) \<and> q_val q' = 5368709120"
  using quantity_text_exact [of "NewQuantity 5368709120 BinarySI" 5368709120000000000]
  by (simp add: NewQuantity_def q_wf_def q_val_def amount_val_def int64_defs int32_range_def)

end
