(* ===== verification/Report.thy ===== *)
theory Report
  imports Api_Objects Resource_Names Quantity_Parse
begin

text \<open>
  The report (\<open>pkg/framework/report.go\<close>): what each list of pods requests and why pods
  failed.

  A \<open>Quantity\<close> copied by a \<open>range\<close> loop shares its \<open>inf.Dec\<close> with the
  pod it was read from, and \<open>Add\<close> on such a quantity works in place.  The functions that
  add up requests therefore return the pod as they leave it (\<open>write_back\<close>).  A total that
  was returned earlier and shares that number is not re-read here: nothing the program prints
  does.  The formatting of quantities and the table writer are third-party code: the former is a
  parameter, and what the latter is given are the rows.
\<close>

section \<open>Data\<close>

record resources =
  PrimaryResources :: "(string, quantity) gomap"
  ScalarResources :: "(string, int) gomap option"

record requirements =
  req_PodName :: string
  req_Resources :: resources
  req_NodeSelectors :: "(string, string) gomap option"

record pod_review_result =
  prr_PodUID :: string
  prr_Host :: string
  prr_PodName :: string
  prr_Reason :: string
  prr_Resources :: resources

record review_spec =
  rsp_Pods :: "pod list"
  rsp_PodRequirements :: "requirements list"

record review_status =
  rst_CreationTimestamp :: int
  rst_Pods :: "pod_review_result list"
  rst_ReasonSummary :: "(string, pod_review_result list) gomap"

record capacity_review =
  rev_Spec :: review_spec
  rev_Status :: review_status

record fail_reason =
  FailType :: string
  FailMessage :: string

record general_review =
  gr_Review :: "(string, capacity_review) gomap"
  gr_FailReason :: fail_reason

record status =
  SuccessfulPods :: "pod list"
  FailedPods :: "pod list"
  ScheduledPods :: "pod list"
  StopReason :: string

section \<open>Operations\<close>

text \<open>\<open>s[:colon]\<close> panics for the index \<open>-1\<close> of a missing colon.\<close>

definition getMainFailReason :: "string \<Rightarrow> fail_reason outcome" where
  "getMainFailReason message =
     (let line = hd (Split (CHR 0x0A) message); colon = Index line (CHR '':'') in
      if colon < 0 then Panic ''slice bounds out of range''
      else Ok \<lparr>FailType = take (nat colon) line,
               FailMessage = Trim (CHR '' '') (drop (nat (colon + 1)) line)\<rparr>)"

definition empty_quantity :: "string \<Rightarrow> quantity" where
  "empty_quantity fmt = \<lparr>q_i = \<lparr>amt_value = 0, amt_scale = 0\<rparr>, q_d = None, q_Format = fmt\<rparr>"

text \<open>The accessors \<open>Cpu\<close>, \<open>Memory\<close> and \<open>NvidiaGPU\<close> of a resource list.\<close>

definition rl_get :: "(string, quantity) gomap \<Rightarrow> string \<Rightarrow> string \<Rightarrow> quantity" where
  "rl_get rl name fmt = (case map_of rl name of Some q \<Rightarrow> q | None \<Rightarrow> empty_quantity fmt)"

definition rl_Cpu :: "(string, quantity) gomap \<Rightarrow> quantity" where
  "rl_Cpu rl = rl_get rl ResourceCPU DecimalSI"

definition rl_Memory :: "(string, quantity) gomap \<Rightarrow> quantity" where
  "rl_Memory rl = rl_get rl ResourceMemory BinarySI"

definition rl_NvidiaGPU :: "(string, quantity) gomap \<Rightarrow> quantity" where
  "rl_NvidiaGPU rl = rl_get rl ResourceNvidiaGPU []"

definition write_back :: "quantity \<Rightarrow> quantity \<Rightarrow> quantity" where
  "write_back q q' = (case q_d q of None \<Rightarrow> q | Some _ \<Rightarrow> q\<lparr>q_d := q_d q'\<rparr>)"

definition add_primary :: "string \<Rightarrow> quantity \<Rightarrow> quantity \<Rightarrow> resources \<Rightarrow> resources \<times> quantity" where
  "add_primary name q acc r =
     (let q' = quantity_Add q acc in
      (r\<lparr>PrimaryResources := AList.update name q' (PrimaryResources r)\<rparr>, write_back q q'))"

definition add_scalar :: "string \<Rightarrow> quantity \<Rightarrow> resources \<Rightarrow> resources" where
  "add_scalar name q r =
     (let m = (case ScalarResources r of None \<Rightarrow> [] | Some m \<Rightarrow> m);
          old = (case map_of m name of Some v \<Rightarrow> v | None \<Rightarrow> 0)
      in r\<lparr>ScalarResources := Some (AList.update name (wrap64 (old + q_Value q)) m)\<rparr>)"

text \<open>One iteration of the inner loop.\<close>

definition add_request :: "string \<Rightarrow> quantity \<Rightarrow> resources \<Rightarrow> resources \<times> quantity" where
  "add_request rName q r =
     (if rName = ResourceMemory then add_primary rName q (rl_Memory (PrimaryResources r)) r
      else if rName = ResourceCPU then add_primary rName q (rl_Cpu (PrimaryResources r)) r
      else if rName = ResourceNvidiaGPU then add_primary rName q (rl_NvidiaGPU (PrimaryResources r)) r
      else if IsScalarResourceName rName then (add_scalar rName q r, q)
      else (r, q))"

fun add_requests :: "(string, quantity) gomap \<Rightarrow> resources \<Rightarrow> resources \<times> (string, quantity) gomap" where
  "add_requests [] r = (r, [])"
| "add_requests ((name, q) # reqs) r =
     (case add_request name q r of
        (r', q') \<Rightarrow> (case add_requests reqs r' of (r'', reqs') \<Rightarrow> (r'', (name, q') # reqs')))"

fun add_containers :: "container list \<Rightarrow> resources \<Rightarrow> resources \<times> container list" where
  "add_containers [] r = (r, [])"
| "add_containers (c # cs) r =
     (case add_requests (ctr_Requests c) r of
        (r', reqs') \<Rightarrow>
          (case add_containers cs r' of (r'', cs') \<Rightarrow> (r'', c\<lparr>ctr_Requests := reqs'\<rparr> # cs')))"

definition no_request :: resources where
  "no_request =
     \<lparr>PrimaryResources =
        [(ResourceCPU, NewMilliQuantity 0 DecimalSI), (ResourceMemory, NewQuantity 0 BinarySI),
         (ResourceNvidiaGPU, NewMilliQuantity 0 DecimalSI)],
      ScalarResources = None\<rparr>"

definition getResourceRequest :: "pod \<Rightarrow> resources \<times> pod" where
  "getResourceRequest p =
     (case add_containers (pod_Containers p) no_request of (r, cs) \<Rightarrow> (r, p\<lparr>pod_Containers := cs\<rparr>))"

fun getPodsRequirements :: "pod list \<Rightarrow> requirements list \<times> pod list" where
  "getPodsRequirements [] = ([], [])"
| "getPodsRequirements (p # ps) =
     (case getResourceRequest p of
        (r, p') \<Rightarrow>
          (case getPodsRequirements ps of
             (reqs, ps') \<Rightarrow>
               (\<lparr>req_PodName = om_Name (pod_meta p), req_Resources = r,
                 req_NodeSelectors = pod_NodeSelector p\<rparr> # reqs, p' # ps')))"

definition getReviewSpec :: "pod list \<Rightarrow> review_spec \<times> pod list" where
  "getReviewSpec pods =
     (case getPodsRequirements pods of
        (reqs, pods') \<Rightarrow> (\<lparr>rsp_Pods = pods', rsp_PodRequirements = reqs\<rparr>, pods'))"

definition pod_result :: "pod \<Rightarrow> resources \<Rightarrow> pod_review_result" where
  "pod_result p r =
     \<lparr>prr_PodUID = om_UID (pod_meta p), prr_Host = pod_NodeName p, prr_PodName = om_Name (pod_meta p),
      prr_Reason = pod_Reason p, prr_Resources = r\<rparr>"

definition add_reason ::
    "pod_review_result \<Rightarrow> (string, pod_review_result list) gomap \<Rightarrow> (string, pod_review_result list) gomap" where
  "add_reason prr m =
     (let m' = (case map_of m (prr_Reason prr) of None \<Rightarrow> AList.update (prr_Reason prr) [] m | Some _ \<Rightarrow> m);
          old = (case map_of m' (prr_Reason prr) of Some xs \<Rightarrow> xs | None \<Rightarrow> [])
      in AList.update (prr_Reason prr) (old @ [prr]) m')"

fun review_pods ::
    "pod list \<Rightarrow> (string, pod_review_result list) gomap \<Rightarrow> pod_review_result list \<Rightarrow>
       ((string, pod_review_result list) gomap \<times> pod_review_result list) \<times> pod list" where
  "review_pods [] summary prrs = ((summary, prrs), [])"
| "review_pods (p # ps) summary prrs =
     (case getResourceRequest p of
        (r, p') \<Rightarrow>
          (let prr = pod_result p r in
           case review_pods ps (add_reason prr summary) (prrs @ [prr]) of
             (x, ps') \<Rightarrow> (x, p' # ps')))"

definition getReviewStatus :: "int \<Rightarrow> pod list \<Rightarrow> review_status \<times> pod list" where
  "getReviewStatus now pods =
     (case review_pods pods [] [] of
        ((summary, prrs), pods') \<Rightarrow>
          (\<lparr>rst_CreationTimestamp = now, rst_Pods = prrs, rst_ReasonSummary = summary\<rparr>, pods'))"

text \<open>
  The spec holds the pods' pointers, so it shows them as the status computation leaves them.
\<close>

definition review_of :: "int \<Rightarrow> pod list \<Rightarrow> capacity_review" where
  "review_of now pods =
     (case getReviewSpec pods of
        (spec, pods1) \<Rightarrow>
          (case getReviewStatus now pods1 of
             (st, pods2) \<Rightarrow> \<lparr>rev_Spec = spec\<lparr>rsp_Pods := pods2\<rparr>, rev_Status = st\<rparr>))"

definition GetReport :: "int \<Rightarrow> status \<Rightarrow> general_review" where
  "GetReport now st =
     \<lparr>gr_Review =
        [(''failed'', review_of now (FailedPods st)), (''success'', review_of now (SuccessfulPods st)),
         (''scheduled'', review_of now (ScheduledPods st))],
      gr_FailReason = \<lparr>FailType = ''Stopped'', FailMessage = StopReason st\<rparr>\<rparr>"

section \<open>Printing\<close>

definition nl :: string where "nl = [CHR 0x0A]"
definition tab :: string where "tab = [CHR 0x09]"

text \<open>
  The text of a quantity: the quantities of a report are sums or new zeros and have no text of their own yet.
  \<open>sc\<close> prints a map of scalar resources and \<open>sel\<close> a node selector.
\<close>

definition quantity_text :: "quantity \<Rightarrow> string" where
  "quantity_text q = q_String q []"

definition print_requirement ::
    "((string, int) gomap \<Rightarrow> string) \<Rightarrow> ((string, string) gomap \<Rightarrow> string) \<Rightarrow>
       requirements \<Rightarrow> string" where
  "print_requirement sc sel req =
     (let rl = PrimaryResources (req_Resources req) in
      req_PodName req @ '' pod requirements:'' @ nl @
      tab @ ''- CPU: '' @ quantity_text (rl_Cpu rl) @ nl @
      tab @ ''- Memory: '' @ quantity_text (rl_Memory rl) @ nl @
      (if \<not> IsZero (rl_NvidiaGPU rl) then tab @ ''- NvidiaGPU: '' @ quantity_text (rl_NvidiaGPU rl) @ nl else []) @
      (case ScalarResources (req_Resources req) of
         Some m \<Rightarrow> tab @ ''- ScalarResources: '' @ sc m @ nl | None \<Rightarrow> []) @
      (case req_NodeSelectors req of
         Some m \<Rightarrow> tab @ ''- NodeSelector: '' @ sel m @ nl | None \<Rightarrow> []) @ nl)"

definition specPrint ::
    "((string, int) gomap \<Rightarrow> string) \<Rightarrow> ((string, string) gomap \<Rightarrow> string) \<Rightarrow>
       review_spec \<Rightarrow> string" where
  "specPrint sc sel spec = concat (map (print_requirement sc sel) (rsp_PodRequirements spec))"

definition statusPrint :: "review_status \<Rightarrow> string" where
  "statusPrint st =
     ''Pods summary:'' @ nl @
     concat (map (\<lambda>(k, v). tab @ ''- '' @ k @ '': '' @ nat_digits (length v) @ nl) (rst_ReasonSummary st))"

definition printHeader :: "string \<Rightarrow> string" where
  "printHeader title =
     replicate 33 (CHR ''='') @ '' '' @ title @ '' '' @ replicate 33 (CHR ''='') @ nl"

text \<open>The rows handed to the table writer.\<close>

definition table_rows :: "capacity_review \<Rightarrow> string list list" where
  "table_rows r =
     map (\<lambda>s. [''CPU: '' @ quantity_text (rl_Cpu (PrimaryResources (prr_Resources s))) @ '', Memory: '' @
                 quantity_text (rl_Memory (PrimaryResources (prr_Resources s))), prr_Host s])
       (rst_Pods (rev_Status r))"

type_synonym table_writer = "string list \<Rightarrow> string list list \<Rightarrow> string"

definition distributePodsPrint :: "table_writer \<Rightarrow> capacity_review \<Rightarrow> string" where
  "distributePodsPrint tw r = tw [''Requirements'', ''Host''] (table_rows r)"

text \<open>A review that is not in the map is the nil pointer, whose fields cannot be read.\<close>

definition review_at :: "string \<Rightarrow> general_review \<Rightarrow> capacity_review outcome" where
  "review_at k r = (case map_of (gr_Review r) k of Some x \<Rightarrow> Ok x | None \<Rightarrow> Panic ''nil pointer dereference'')"

definition successPodsPrint :: "table_writer \<Rightarrow> general_review \<Rightarrow> string outcome" where
  "successPodsPrint tw r =
     bind_outcome (review_at ''success'' r)
       (\<lambda>review. Ok (printHeader ''Successful Pods'' @ distributePodsPrint tw review))"

definition failedPodsPrint :: "table_writer \<Rightarrow> general_review \<Rightarrow> string outcome" where
  "failedPodsPrint tw r =
     bind_outcome (review_at ''failed'' r)
       (\<lambda>review. Ok (printHeader ''Failed Pods'' @ statusPrint (rev_Status review) @
          distributePodsPrint tw review))"

definition ClusterCapacityReviewPrint ::
    "table_writer \<Rightarrow> general_review \<Rightarrow> string outcome" where
  "ClusterCapacityReviewPrint tw r =
     bind_outcome (successPodsPrint tw r)
       (\<lambda>s. bind_outcome (failedPodsPrint tw r) (\<lambda>f. Ok (s @ f)))"

section \<open>Totals are exact\<close>

definition primary :: "string \<Rightarrow> bool" where
  "primary name = (name \<in> {ResourceCPU, ResourceMemory, ResourceNvidiaGPU})"

definition amount_of :: "(string, quantity) gomap \<Rightarrow> string \<Rightarrow> rat" where
  "amount_of rl name = (case map_of rl name of Some q \<Rightarrow> q_val q | None \<Rightarrow> 0)"

text \<open>
  A resource list of machine values whose scales are bounded, so that \<open>Add\<close> is exact on them
  (\<open>quantity_Add_exact\<close>); sums are again such quantities.
\<close>

definition q_addable :: "quantity \<Rightarrow> bool" where
  "q_addable q = (q_wf q \<and> scale_ok q)"

definition rl_wf :: "(string, quantity) gomap \<Rightarrow> bool" where
  "rl_wf rl = (gomap_wf rl \<and> (\<forall>(name, q) \<in> set rl. q_addable q))"

lemmas q_addable_simps = q_addable_def q_wf_def scale_ok_def q_scale_def int32_range_def

definition requests_wf :: "pod \<Rightarrow> bool" where
  "requests_wf p = (\<forall>c \<in> set (pod_Containers p). rl_wf (ctr_Requests c))"

text \<open>What a pod requests: the sum over its containers, as an exact number.\<close>

definition requested :: "pod \<Rightarrow> string \<Rightarrow> rat" where
  "requested p name = sum_list (map (\<lambda>c. amount_of (ctr_Requests c) name) (pod_Containers p))"

lemma empty_quantity_val [simp]: "q_val (empty_quantity fmt) = 0" "q_addable (empty_quantity fmt)"
  by (simp_all add: empty_quantity_def q_val_def amount_val_def q_addable_simps int64_defs)

lemma rl_get_val [simp]: "q_val (rl_get rl name fmt) = amount_of rl name"
  by (simp add: rl_get_def amount_of_def split: option.split)

lemma rl_get_wf: "\<forall>(n, q) \<in> set rl. q_addable q \<Longrightarrow> q_addable (rl_get rl name fmt)"
  by (auto simp: rl_get_def split: option.split dest!: map_of_SomeD)

lemma rl_get_machine: "rl_wf rl \<Longrightarrow> q_wf (rl_get rl name fmt)"
  using rl_get_wf [of rl name fmt] by (simp add: rl_wf_def q_addable_def)

lemma rl_wf_update: "rl_wf rl \<Longrightarrow> q_addable q \<Longrightarrow> rl_wf (AList.update name q rl)"
  unfolding rl_wf_def by (auto simp: gomap_in_set [OF gomap_wf_update] split: if_splits)

lemma add_primary_exact:
  assumes "rl_wf (PrimaryResources r)" "q_addable q" "acc = rl_get (PrimaryResources r) name fmt"
  shows "rl_wf (PrimaryResources (fst (add_primary name q acc r)))"
    and "amount_of (PrimaryResources (fst (add_primary name q acc r))) n =
      amount_of (PrimaryResources r) n + (if n = name then q_val q else 0)"
proof -
  have "q_addable acc" using assms rl_get_wf by (auto simp: rl_wf_def)
  then have add: "q_val (quantity_Add q acc) = q_val q + q_val acc" "q_addable (quantity_Add q acc)"
    using quantity_Add_sound [of q acc] assms(2) by (simp_all add: q_addable_def)
  show "rl_wf (PrimaryResources (fst (add_primary name q acc r)))"
    using assms(1) add
    by (simp add: add_primary_def Let_def rl_wf_update)
  show "amount_of (PrimaryResources (fst (add_primary name q acc r))) n =
      amount_of (PrimaryResources r) n + (if n = name then q_val q else 0)"
    using add assms(3)
    by (simp add: add_primary_def Let_def amount_of_def [of "AList.update name _ _"])
      (simp add: amount_of_def)
qed

lemma add_request_exact:
  assumes "rl_wf (PrimaryResources r)" "q_addable q"
  shows "rl_wf (PrimaryResources (fst (add_request name q r)))"
    and "primary n \<Longrightarrow> amount_of (PrimaryResources (fst (add_request name q r))) n =
      amount_of (PrimaryResources r) n + (if n = name then q_val q else 0)"
  using assms add_primary_exact [OF assms] 
  by (auto simp: add_request_def rl_Memory_def rl_Cpu_def rl_NvidiaGPU_def add_scalar_def Let_def primary_def)

lemma add_requests_exact:
  "rl_wf reqs \<Longrightarrow> rl_wf (PrimaryResources r) \<Longrightarrow> primary n \<Longrightarrow>
     rl_wf (PrimaryResources (fst (add_requests reqs r))) \<and>
     amount_of (PrimaryResources (fst (add_requests reqs r))) n =
       amount_of (PrimaryResources r) n + amount_of reqs n"
proof (induction reqs arbitrary: r)
  case (Cons x reqs)
  obtain name q where x: "x = (name, q)" by fastforce
  obtain r1 q1 where r1: "add_request name q r = (r1, q1)" by fastforce
  from Cons.prems x have q: "q_addable q" and reqs: "rl_wf reqs" and new: "name \<notin> fst ` set reqs"
    by (auto simp: rl_wf_def)
  from add_request_exact(1) [OF Cons.prems(2) q, of name] add_request_exact(2) [OF Cons.prems(2) q Cons.prems(3), of name] r1
  have "rl_wf (PrimaryResources r1)"
    "amount_of (PrimaryResources r1) n = amount_of (PrimaryResources r) n + (if n = name then q_val q else 0)"
    by auto
  moreover have "amount_of (x # reqs) n = (if n = name then q_val q else 0) + amount_of reqs n"
    using new x by (auto simp: amount_of_def map_of_eq_None_iff [THEN iffD2])
  ultimately show ?case
    using Cons.IH [OF reqs, of r1] Cons.prems(3) x r1 by (simp add: case_prod_unfold)
qed (simp add: amount_of_def)

lemma add_containers_exact:
  "\<forall>c \<in> set cs. rl_wf (ctr_Requests c) \<Longrightarrow> rl_wf (PrimaryResources r) \<Longrightarrow> primary n \<Longrightarrow>
     rl_wf (PrimaryResources (fst (add_containers cs r))) \<and>
     amount_of (PrimaryResources (fst (add_containers cs r))) n =
       amount_of (PrimaryResources r) n + sum_list (map (\<lambda>c. amount_of (ctr_Requests c) n) cs)"
proof (induction cs arbitrary: r)
  case (Cons c cs)
  obtain r1 reqs1 where "add_requests (ctr_Requests c) r = (r1, reqs1)" by fastforce
  with Cons add_requests_exact [of "ctr_Requests c" r n] show ?case by (simp add: case_prod_unfold)
qed simp

lemma no_request_wf: "rl_wf (PrimaryResources no_request)"
  by (simp add: no_request_def rl_wf_def q_addable_simps NewQuantity_def NewMilliQuantity_def int64_defs)

lemma no_request_amount: "amount_of (PrimaryResources no_request) n = 0"
  by (auto simp: no_request_def amount_of_def q_val_def amount_val_def NewQuantity_def NewMilliQuantity_def)

lemma getResourceRequest_exact:
  assumes "requests_wf p" "primary n"
  shows "amount_of (PrimaryResources (fst (getResourceRequest p))) n = requested p n"
    and "rl_wf (PrimaryResources (fst (getResourceRequest p)))"
  using add_containers_exact [of "pod_Containers p" no_request n] assms no_request_wf
  by (simp_all add: getResourceRequest_def requests_wf_def requested_def no_request_amount case_prod_unfold)

section \<open>The pod survives when its requests fit int64 amounts\<close>

definition requests_small :: "pod \<Rightarrow> bool" where
  "requests_small p = (\<forall>c \<in> set (pod_Containers p). \<forall>(n, q) \<in> set (ctr_Requests c). q_d q = None)"

lemma add_request_small: "q_d q = None \<Longrightarrow> snd (add_request name q r) = q"
  by (simp add: add_request_def add_primary_def Let_def write_back_def)

lemma add_requests_small: "\<forall>(n, q) \<in> set reqs. q_d q = None \<Longrightarrow> snd (add_requests reqs r) = reqs"
proof (induction reqs arbitrary: r)
  case (Cons x reqs)
  then show ?case
    using add_request_small [of "snd x" "fst x" r] by (cases x) (simp add: case_prod_unfold)
qed simp

lemma add_containers_small:
  "\<forall>c \<in> set cs. \<forall>(n, q) \<in> set (ctr_Requests c). q_d q = None \<Longrightarrow> snd (add_containers cs r) = cs"
proof (induction cs arbitrary: r)
  case (Cons c cs)
  obtain r1 reqs1 where "add_requests (ctr_Requests c) r = (r1, reqs1)" by fastforce
  with Cons add_requests_small [of "ctr_Requests c" r] show ?case by (simp add: case_prod_unfold)
qed simp

lemma getResourceRequest_small: "requests_small p \<Longrightarrow> snd (getResourceRequest p) = p"
  using add_containers_small [of "pod_Containers p" no_request]
  by (simp add: getResourceRequest_def requests_small_def case_prod_unfold)

section \<open>The reviews\<close>

definition results_of :: "pod list \<Rightarrow> pod_review_result list" where
  "results_of ps = map (\<lambda>p. pod_result p (fst (getResourceRequest p))) ps"

definition touched :: "pod list \<Rightarrow> pod list" where
  "touched ps = map (\<lambda>p. snd (getResourceRequest p)) ps"

lemma touched_small: "\<forall>p \<in> set ps. requests_small p \<Longrightarrow> touched ps = ps"
  by (induction ps) (auto simp: touched_def getResourceRequest_small)

lemma getPodsRequirements_snd: "snd (getPodsRequirements ps) = touched ps"
  by (induction ps) (simp_all add: touched_def case_prod_unfold)

lemma review_pods_eq:
  "review_pods ps summary prrs =
     ((fold add_reason (results_of ps) summary, prrs @ results_of ps), touched ps)"
  by (induction ps arbitrary: summary prrs)
    (simp_all add: results_of_def touched_def case_prod_unfold Let_def)

lemma getReviewStatus_eq:
  "getReviewStatus now ps =
     (\<lparr>rst_CreationTimestamp = now, rst_Pods = results_of ps,
       rst_ReasonSummary = fold add_reason (results_of ps) []\<rparr>, touched ps)"
  by (simp add: getReviewStatus_def review_pods_eq)

lemma review_of_small:
  assumes "\<forall>p \<in> set ps. requests_small p"
  shows "rsp_Pods (rev_Spec (review_of now ps)) = ps"
    and "rst_Pods (rev_Status (review_of now ps)) = results_of ps"
  using assms
  by (simp_all add: review_of_def getReviewSpec_def case_prod_unfold getReviewStatus_eq
      getPodsRequirements_snd touched_small)

lemma length_results [simp]: "length (results_of ps) = length ps" "length (touched ps) = length ps"
  by (simp_all add: results_of_def touched_def)

text \<open>The summary groups the results by reason, each group in the order of the pods.\<close>

lemma map_of_add_reason:
  "map_of (add_reason x m) k =
     (if k = prr_Reason x then Some ((case map_of m k of Some xs \<Rightarrow> xs | None \<Rightarrow> []) @ [x]) else map_of m k)"
  by (auto simp: add_reason_def Let_def split: option.split)

lemma gomap_wf_add_reason: "gomap_wf m \<Longrightarrow> gomap_wf (add_reason x m)"
  by (auto simp: add_reason_def Let_def split: option.split)

lemma fold_add_reason:
  "map_of (fold add_reason xs m) k =
     (case (map_of m k, filter (\<lambda>x. prr_Reason x = k) xs) of
        (None, []) \<Rightarrow> None
      | (None, ys) \<Rightarrow> Some ys
      | (Some zs, ys) \<Rightarrow> Some (zs @ ys))"
  by (induction xs arbitrary: m) (auto simp: map_of_add_reason split: option.splits list.splits)

lemma gomap_wf_fold_add_reason: "gomap_wf m \<Longrightarrow> gomap_wf (fold add_reason xs m)"
  by (induction xs arbitrary: m) (auto simp: gomap_wf_add_reason)

lemma summary_count:
  "gomap_wf m \<Longrightarrow> sum_list (map (length \<circ> snd) (add_reason x m)) = Suc (sum_list (map (length \<circ> snd) m))"
proof (induction m)
  case (Cons e m)
  obtain k v where e: "e = (k, v)" by fastforce
  show ?case
  proof (cases "prr_Reason x = k")
    case False
    with e have "add_reason x (e # m) = e # add_reason x m"
      by (auto simp: add_reason_def Let_def split: option.split)
    with Cons show ?thesis by simp
  qed (use e in \<open>simp add: add_reason_def Let_def\<close>)
qed (simp add: add_reason_def Let_def)

lemma fold_summary_count:
  "gomap_wf m \<Longrightarrow>
     sum_list (map (length \<circ> snd) (fold add_reason xs m)) = length xs + sum_list (map (length \<circ> snd) m)"
  by (induction xs arbitrary: m) (simp_all add: summary_count gomap_wf_add_reason)

section \<open>The main reason of a failure\<close>

lemma getMainFailReason_panics_iff:
  "panics (getMainFailReason m) \<longleftrightarrow> CHR '':'' \<notin> set (hd (Split (CHR 0x0A) m))"
  using Index_absent [of "hd (Split (CHR 0x0A) m)" "CHR '':''"]
    Index_bounds [of "hd (Split (CHR 0x0A) m)" "CHR '':''"]
  by (auto simp: getMainFailReason_def Let_def)

lemma Index_append: "c \<notin> set a \<Longrightarrow> Index (a @ c # b) c = int (length a)"
  by (induction a) (auto simp: Let_def)

lemma getMainFailReason_parts:
  assumes "CHR '':'' \<notin> set ty" "CHR 0x0A \<notin> set ty" "CHR 0x0A \<notin> set msg"
  shows "getMainFailReason (ty @ '':'' @ msg @ [CHR 0x0A] @ rest) =
    Ok \<lparr>FailType = ty, FailMessage = Trim (CHR '' '') msg\<rparr>"
proof -
  have "hd (Split (CHR 0x0A) (ty @ '':'' @ msg @ [CHR 0x0A] @ rest)) = ty @ CHR '':'' # msg"
    using Split_append_sep [of "CHR 0x0A" "ty @ CHR '':'' # msg" rest] assms by simp
  with assms(1) show ?thesis by (simp add: getMainFailReason_def Let_def Index_append nat_add_distrib)
qed

section \<open>Properties\<close>

text \<open>
  C28: for pods whose requests are held as int64 amounts, of scales between \<open>- (2 ^ 30)\<close> and
  \<open>2 ^ 30\<close>, the review lists every pod with exactly the sums of its containers' requests of CPU, memory
  and GPU, and leaves the pods as they were.  Requests held as decimals are added in place and can be counted
  more than once (\<open>request_total_doubled\<close>); scales further apart make the sum wrong
  (\<open>add_scale_wraps\<close>).
\<close>

theorem report_totals_exact:
  assumes "\<forall>p \<in> set ps. requests_wf p \<and> requests_small p" "i < length ps" "primary name"
  shows "length (rst_Pods (rev_Status (review_of now ps))) = length ps \<and>
    rsp_Pods (rev_Spec (review_of now ps)) = ps \<and>
    prr_PodName (rst_Pods (rev_Status (review_of now ps)) ! i) = om_Name (pod_meta (ps ! i)) \<and>
    prr_Host (rst_Pods (rev_Status (review_of now ps)) ! i) = pod_NodeName (ps ! i) \<and>
    amount_of (PrimaryResources (prr_Resources (rst_Pods (rev_Status (review_of now ps)) ! i))) name =
      requested (ps ! i) name"
  using review_of_small [of ps now] getResourceRequest_exact [of "ps ! i" name] assms
  by (simp add: results_of_def pod_result_def)

theorem report_totals_exact_witness:
  "amount_of (PrimaryResources (prr_Resources (rst_Pods (rev_Status (review_of 0
     [empty_pod\<lparr>pod_Containers := [\<lparr>ctr_Requests = [(ResourceMemory, NewQuantity 2 BinarySI)]\<rparr>,
        \<lparr>ctr_Requests = [(ResourceMemory, NewQuantity 3 BinarySI)]\<rparr>]\<rparr>])) ! 0))) ResourceMemory = 5"
  using report_totals_exact [of "[empty_pod\<lparr>pod_Containers := [\<lparr>ctr_Requests = [(ResourceMemory, NewQuantity 2 BinarySI)]\<rparr>,
        \<lparr>ctr_Requests = [(ResourceMemory, NewQuantity 3 BinarySI)]\<rparr>]\<rparr>]" 0 ResourceMemory 0]
  by (simp add: requests_wf_def requests_small_def rl_wf_def q_addable_simps NewQuantity_def int64_defs primary_def
      requested_def amount_of_def q_val_def amount_val_def)

text \<open>
  C29: for pods whose requests are held as int64 amounts, of scales between \<open>- (2 ^ 30)\<close> and
  \<open>2 ^ 30\<close>, and whose sums of CPU and of memory are whole numbers of nano-units of at most 63 bits, the
  row printed for a pod reads back: its texts of CPU and memory are accepted by \<open>ParseQuantity\<close>, which
  reads exactly the sums of the requests of the pod's containers.  Requests held as decimals (such as
  \<open>1.5Gi\<close>) are not covered: their printed totals can be wrong (\<open>request_total_doubled\<close>).
\<close>

theorem report_rows_read_back:
  assumes "\<forall>p \<in> set ps. requests_wf p \<and> requests_small p" "i < length ps"
    and "requested (ps ! i) ResourceCPU * 10 ^ 9 = of_int c" "\<bar>requested (ps ! i) ResourceCPU\<bar> \<le> of_int mostPositive"
    and "requested (ps ! i) ResourceMemory * 10 ^ 9 = of_int m" "\<bar>requested (ps ! i) ResourceMemory\<bar> \<le> of_int mostPositive"
  shows "\<exists>cpu mem q s q' s'.
    table_rows (review_of now ps) ! i = [''CPU: '' @ cpu @ '', Memory: '' @ mem, pod_NodeName (ps ! i)] \<and>
    ParseQuantity cpu = Ok (q, s) \<and> q_val q = requested (ps ! i) ResourceCPU \<and>
    ParseQuantity mem = Ok (q', s') \<and> q_val q' = requested (ps ! i) ResourceMemory"
proof -
  let ?rl = "PrimaryResources (fst (getResourceRequest (ps ! i)))"
  have wf: "requests_wf (ps ! i)" using assms(1,2) by simp
  note exact = getResourceRequest_exact [OF wf, of ResourceCPU] getResourceRequest_exact [OF wf, of ResourceMemory]
  have "table_rows (review_of now ps) ! i =
      [''CPU: '' @ quantity_text (rl_Cpu ?rl) @ '', Memory: '' @ quantity_text (rl_Memory ?rl), pod_NodeName (ps ! i)]"
    using assms(1,2) by (simp add: table_rows_def review_of_small results_of_def pod_result_def)
  moreover have "\<exists>q s. ParseQuantity (quantity_text (rl_Cpu ?rl)) = Ok (q, s) \<and> q_val q = requested (ps ! i) ResourceCPU"
    using quantity_text_reads [of "rl_Cpu ?rl" c] exact(1,2) assms(3,4)
    by (simp add: primary_def quantity_text_def rl_Cpu_def rl_get_machine)
  moreover have "\<exists>q s. ParseQuantity (quantity_text (rl_Memory ?rl)) = Ok (q, s) \<and> q_val q = requested (ps ! i) ResourceMemory"
    using quantity_text_reads [of "rl_Memory ?rl" m] exact(3,4) assms(5,6)
    by (simp add: primary_def quantity_text_def rl_Memory_def rl_get_machine)
  ultimately show ?thesis by blast
qed

theorem report_rows_read_back_witness:
  "\<exists>cpu mem q s q' s'.
    table_rows (review_of 0 [empty_pod\<lparr>pod_Containers := [\<lparr>ctr_Requests = [(ResourceMemory, NewQuantity 2048 BinarySI)]\<rparr>,
        \<lparr>ctr_Requests = [(ResourceMemory, NewQuantity 1024 BinarySI), (ResourceCPU, NewMilliQuantity 1500 DecimalSI)]\<rparr>]\<rparr>]) ! 0 =
      [''CPU: '' @ cpu @ '', Memory: '' @ mem, []] \<and>
    ParseQuantity cpu = Ok (q, s) \<and> q_val q = 3 / 2 \<and> ParseQuantity mem = Ok (q', s') \<and> q_val q' = 3072"
  using report_rows_read_back [of "[empty_pod\<lparr>pod_Containers := [\<lparr>ctr_Requests = [(ResourceMemory, NewQuantity 2048 BinarySI)]\<rparr>,
        \<lparr>ctr_Requests = [(ResourceMemory, NewQuantity 1024 BinarySI), (ResourceCPU, NewMilliQuantity 1500 DecimalSI)]\<rparr>]\<rparr>]"
      0 1500000000 3072000000000 0]
  by (simp add: requests_wf_def requests_small_def rl_wf_def q_addable_simps NewQuantity_def NewMilliQuantity_def int64_defs
      requested_def amount_of_def q_val_def amount_val_def ResourceCPU_def ResourceMemory_def empty_pod_def)

text \<open>
  The summary of reasons is a partition of the reviewed pods: the group of a reason holds exactly
  the pods with this reason, in order, there is a group exactly for the reasons that occur, and the
  printed counts add up to the number of pods.
\<close>

lemma reason_summary_partitions:
  "map_of (rst_ReasonSummary (fst (getReviewStatus now ps))) k =
     (let ys = filter (\<lambda>x. prr_Reason x = k) (results_of ps) in if ys = [] then None else Some ys) \<and>
   gomap_wf (rst_ReasonSummary (fst (getReviewStatus now ps))) \<and>
   sum_list (map (length \<circ> snd) (rst_ReasonSummary (fst (getReviewStatus now ps)))) = length ps"
  using fold_summary_count [of "[]" "results_of ps"] gomap_wf_fold_add_reason [of "[]" "results_of ps"]
  by (auto simp: getReviewStatus_eq fold_add_reason Let_def split: list.split)

text \<open>
  A request too large for int64 is added in place, so the second computation for the same pod
  starts from the first one's total: two containers asking for 2^63 and 2^63 bytes are
  reported with 3 * 2^63 bytes.
\<close>

lemma request_total_doubled:
  "let q = \<lparr>q_i = \<lparr>amt_value = 0, amt_scale = 0\<rparr>, q_d = Some \<lparr>dec_unscaled = 2 ^ 63, dec_scale = 0\<rparr>,
         q_Format = BinarySI\<rparr>;
       p = empty_pod\<lparr>pod_Containers := [\<lparr>ctr_Requests = [(ResourceMemory, q)]\<rparr>,
         \<lparr>ctr_Requests = [(ResourceMemory, q)]\<rparr>]\<rparr>
   in requested p ResourceMemory = 2 * 2 ^ 63 \<and>
      amount_of (PrimaryResources (prr_Resources (rst_Pods (rev_Status (review_of 0 [p])) ! 0))) ResourceMemory =
        3 * 2 ^ 63"
  by code_simp

end
