(* ===== verification/Pod_Queue.thy ===== *)
theory Pod_Queue
  imports Api_Objects
begin

text \<open>
  The queue of pods to simulate (\<open>PodQueue\<close> in \<open>pkg/framework/store/store.go\<close>).
  Every method holds the queue's mutex, so each is one atomic step.  \<open>Pop\<close> takes the
  element at the last index: the pods are served in reverse order of \<open>NewPodQueue\<close>'s
  argument.  The locale \<open>pod_source\<close> is what the simulator relies on.
\<close>

record pod_queue =
  queue :: "pod list"

definition PodQueue_Add :: "pod_queue \<Rightarrow> pod \<Rightarrow> pod_queue" where
  "PodQueue_Add q p = q\<lparr>queue := queue q @ [p]\<rparr>"

definition PodQueue_Pop :: "pod_queue \<Rightarrow> pod option \<times> pod_queue" where
  "PodQueue_Pop q =
     (let lastIndex = int (length (queue q)) - 1 in
      if lastIndex \<ge> 0 then
        (Some (queue q ! nat lastIndex), q\<lparr>queue := take (nat lastIndex) (queue q)\<rparr>)
      else (None, q))"

fun add_all :: "pod_queue \<Rightarrow> pod list \<Rightarrow> pod_queue" where
  "add_all q [] = q"
| "add_all q (p # ps) = add_all (PodQueue_Add q p) ps"

definition NewPodQueue :: "pod list \<Rightarrow> pod_queue" where
  "NewPodQueue pods = add_all \<lparr>queue = []\<rparr> pods"

section \<open>The contract of a source of pods\<close>

locale pod_source =
  fixes pop :: "'q \<Rightarrow> 'p option \<times> 'q"
    and pending :: "'q \<Rightarrow> 'p list"
  assumes pop_Nil: "pending q = [] \<Longrightarrow> fst (pop q) = None \<and> pending (snd (pop q)) = []"
    and pop_Cons: "pending q = x # xs \<Longrightarrow> fst (pop q) = Some x \<and> pending (snd (pop q)) = xs"
begin

lemma pop_None_iff: "fst (pop q) = None \<longleftrightarrow> pending q = []"
  by (cases "pending q") (auto dest: pop_Nil pop_Cons)

lemma pop_conserves:
  "mset (pending q) = mset (pending (snd (pop q))) + (case fst (pop q) of Some x \<Rightarrow> {#x#} | None \<Rightarrow> {#})"
  by (cases "pending q") (auto dest: pop_Nil pop_Cons)

lemma pop_decreases: "fst (pop q) = Some x \<Longrightarrow> length (pending (snd (pop q))) < length (pending q)"
  by (cases "pending q") (auto dest: pop_Nil pop_Cons)

lemma pending_pop: "pending (snd (pop q)) = tl (pending q)"
  by (cases "pending q") (auto dest: pop_Nil pop_Cons)

lemma pending_iterate: "pending (((snd \<circ> pop) ^^ i) q) = drop i (pending q)"
proof (induction i)
  case (Suc i)
  have "((snd \<circ> pop) ^^ Suc i) q = snd (pop (((snd \<circ> pop) ^^ i) q))" by simp
  then show ?case unfolding drop_Suc tl_drop [symmetric] by (simp only: pending_pop Suc.IH)
qed simp

text \<open>Popping as often as there are pods serves exactly the pending ones, in order.\<close>

lemma drain:
  "map (\<lambda>i. fst (pop (((snd \<circ> pop) ^^ i) q))) [0..<length (pending q)] = map Some (pending q)"
proof (induction "pending q" arbitrary: q)
  case (Cons x xs)
  note pop = pop_Cons [OF Cons.hyps(2) [symmetric]]
  have "map (\<lambda>i. fst (pop (((snd \<circ> pop) ^^ i) q))) [0..<length (pending q)] =
      fst (pop q) # map (\<lambda>i. fst (pop (((snd \<circ> pop) ^^ i) (snd (pop q))))) [0..<length xs]"
    using Cons.hyps(2) [symmetric]
    by (simp add: upt_rec [of 0] map_Suc_upt [symmetric] comp_def
          funpow_swap1 [where f = "\<lambda>q. snd (pop q)"] del: upt_Suc)
  also have "\<dots> = Some x # map Some xs"
    using Cons.hyps(1) [of "snd (pop q)"] pop by simp
  finally show ?case using Cons.hyps(2) [symmetric] by simp
qed simp

end

definition pending_pods :: "pod_queue \<Rightarrow> pod list" where
  "pending_pods q = rev (queue q)"

lemma PodQueue_Pop_snoc: "queue q = ps @ [p] \<Longrightarrow> PodQueue_Pop q = (Some p, q\<lparr>queue := ps\<rparr>)"
  by (simp add: PodQueue_Pop_def Let_def nth_append)

lemma PodQueue_Pop_Nil: "queue q = [] \<Longrightarrow> PodQueue_Pop q = (None, q)"
  by (simp add: PodQueue_Pop_def Let_def)

interpretation pq: pod_source PodQueue_Pop pending_pods
proof (unfold_locales, goal_cases)
  case (1 q)
  then show ?case by (simp add: pending_pods_def PodQueue_Pop_Nil)
next
  case (2 q x xs)
  then have "queue q = rev xs @ [x]" by (simp add: pending_pods_def rev_swap)
  then show ?case by (simp add: PodQueue_Pop_snoc pending_pods_def)
qed

lemma queue_add_all [simp]: "queue (add_all q ps) = queue q @ ps"
  by (induction ps arbitrary: q) (auto simp: PodQueue_Add_def)

lemma pending_NewPodQueue [simp]: "pending_pods (NewPodQueue ps) = rev ps"
  by (simp add: pending_pods_def NewPodQueue_def)

section \<open>Order\<close>

text \<open>
  The queue serves every pod exactly once, the last one added first, and then reports that it is
  empty.
\<close>

lemma pod_queue_lifo:
  "map (\<lambda>i. fst (PodQueue_Pop (((snd \<circ> PodQueue_Pop) ^^ i) (NewPodQueue ps)))) [0..<length ps] = map Some (rev ps) \<and>
   fst (PodQueue_Pop (((snd \<circ> PodQueue_Pop) ^^ length ps) (NewPodQueue ps))) = None"
  using pq.drain [of "NewPodQueue ps"] pq.pop_None_iff pq.pending_iterate [of "length ps" "NewPodQueue ps"] by simp

end
