(* ===== verification/Simulator.thy ===== *)
theory Simulator
  imports Rest_Router Watch_Mirror Strategy Recorder Report Pod_Queue
begin

text \<open>
  The simulator (\<open>pkg/scheduler/simulator.go\<close>): the \<open>ClusterCapacity\<close> object, the
  callbacks the scheduler invokes on it, and its construction.  The scheduler itself and the
  informers come from the vendored Kubernetes packages; what the construction calls of them is the
  record \<open>configurator\<close>.

  Channels: \<open>stop\<close> is unbuffered, so a send is a goroutine that waits for \<open>Run\<close> to
  receive (\<open>cc_stopSends\<close>); \<open>StopEverything\<close> and \<open>informerStopCh\<close> are only
  ever closed, and closing a closed channel panics.  A goroutine \<open>Bind\<close> or \<open>Update\<close>
  starts to take one event from the recorder is an element of \<open>cc_drains\<close>.
\<close>

section \<open>State\<close>

record v1_binding =
  b_Name :: string
  b_Namespace :: string
  b_Target :: string

record cluster_capacity =
  cc_store :: "watch_env rs_state"
  cc_client :: rest_client
  cc_status :: status
  cc_report :: "general_review option"
  cc_queue :: pod_queue
  cc_recorders :: "(string, recorder) gomap"
  cc_stopEverything :: "(string, bool) gomap"
  cc_informerClosed :: bool
  cc_closed :: bool
  cc_drains :: "string list"
  cc_stopSends :: nat
  cc_stopClosed :: bool
  cc_defaultSchedulerName :: string

definition PodPending :: string where "PodPending = ''Pending''"
definition PodScheduled :: string where "PodScheduled = ''PodScheduled''"
definition ConditionFalse :: string where "ConditionFalse = ''False''"

definition empty_status :: status where
  "empty_status = \<lparr>SuccessfulPods = [], FailedPods = [], ScheduledPods = [], StopReason = []\<rparr>"

section \<open>Operations\<close>

definition AddScheduledPods :: "pod \<Rightarrow> cluster_capacity \<Rightarrow> cluster_capacity" where
  "AddScheduledPods p c =
     c\<lparr>cc_status := (cc_status c)\<lparr>ScheduledPods := ScheduledPods (cc_status c) @ [p]\<rparr>\<rparr>"

definition cc_Report :: "int \<Rightarrow> cluster_capacity \<Rightarrow> cluster_capacity \<times> general_review" where
  "cc_Report now c =
     (case cc_report c of
        None \<Rightarrow> (let r = GetReport now (cc_status c) in (c\<lparr>cc_report := Some r\<rparr>, r))
      | Some r \<Rightarrow> (c, r))"

definition cc_Close :: "cluster_capacity \<Rightarrow> cluster_capacity \<times> unit outcome" where
  "cc_Close c =
     (if cc_closed c then (c, Ok ())
      else if list_ex snd (cc_stopEverything c) \<or> cc_informerClosed c then
        (c, Panic ''close of closed channel'')
      else (c\<lparr>cc_stopEverything := map (\<lambda>(n, b). (n, True)) (cc_stopEverything c),
              cc_informerClosed := True, cc_closed := True\<rparr>, Ok ()))"

definition nextPod :: "cluster_capacity \<Rightarrow> cluster_capacity \<times> unit outcome" where
  "nextPod c =
     (case PodQueue_Pop (cc_queue c) of
        (None, q) \<Rightarrow> (c\<lparr>cc_queue := q\<rparr>, Err ''No pods left'')
      | (Some p, q) \<Rightarrow>
          (case rs_Add Pods (PodO p) (cc_store c) of
             (st, r) \<Rightarrow> (c\<lparr>cc_queue := q, cc_store := st\<rparr>, r)))"

definition set_StopReason :: "string \<Rightarrow> go_error \<Rightarrow> cluster_capacity \<Rightarrow> cluster_capacity" where
  "set_StopReason pre err c =
     c\<lparr>cc_status := (cc_status c)\<lparr>StopReason := pre @ '' to get next pod: '' @ err @ [CHR 0x0A]\<rparr>\<rparr>"

text \<open>The function \<open>Bind\<close> and \<open>Update\<close> defer; \<open>pre\<close> is its spelling of \<open>fail\<close>.\<close>

definition deferred :: "string \<Rightarrow> cluster_capacity \<Rightarrow> cluster_capacity \<times> unit outcome" where
  "deferred pre c =
     (case nextPod c of
        (c1, Ok _) \<Rightarrow> (c1, Ok ())
      | (c1, Panic p) \<Rightarrow> (c1, Panic p)
      | (c1, Err err) \<Rightarrow>
          (case cc_Close (set_StopReason pre err c1) of
             (c2, Ok _) \<Rightarrow>
               if cc_stopClosed c2 then (c2, Panic ''send on closed channel'')
               else (c2\<lparr>cc_stopSends := cc_stopSends c2 + 1\<rparr>, Ok ())
           | (c2, r) \<Rightarrow> (c2, r)))"

definition binding_key :: "v1_binding \<Rightarrow> obj" where
  "binding_key b = PodO (empty_pod\<lparr>pod_meta := empty_meta\<lparr>om_Name := b_Name b, om_Namespace := b_Namespace b\<rparr>\<rparr>)"

definition add_drain :: "string \<Rightarrow> cluster_capacity \<Rightarrow> cluster_capacity" where
  "add_drain schedulerName c = c\<lparr>cc_drains := cc_drains c @ [schedulerName]\<rparr>"

definition cc_Bind :: "v1_binding \<Rightarrow> string \<Rightarrow> cluster_capacity \<Rightarrow> cluster_capacity \<times> unit outcome" where
  "cc_Bind binding schedulerName c =
     (case rs_Get Pods (binding_key binding) (fst (cc_store c)) of
        Panic p \<Rightarrow> (c, Panic p)
      | Err e \<Rightarrow> (c, Err (''Unable to bind: '' @ e))
      | Ok None \<Rightarrow> (c, Err ''Unable to bind, pod <nil> not found'')
      | Ok (Some (PodO p)) \<Rightarrow>
          (let updatedPod = p\<lparr>pod_NodeName := b_Target binding, pod_Phase := PodRunning\<rparr> in
           case strategy_Add (PodO updatedPod) (cc_store c) of
             ((st, x), Panic p) \<Rightarrow> (c\<lparr>cc_store := st\<rparr>, Panic p)
           | ((st, x), Err e) \<Rightarrow>
               (c\<lparr>cc_store := st\<rparr>, Err (''Unable to recompute new cluster state: '' @ e))
           | ((st, x), Ok _) \<Rightarrow>
               (let upd = (case x of PodO u \<Rightarrow> u | _ \<Rightarrow> updatedPod);
                    c1 = c\<lparr>cc_store := st,
                           cc_status := (cc_status c)\<lparr>SuccessfulPods := SuccessfulPods (cc_status c) @ [upd]\<rparr>\<rparr>
                in deferred ''fail'' (add_drain schedulerName c1)))
      | Ok (Some _) \<Rightarrow> (c, Panic ''interface conversion''))"

definition condition_stops :: "pod_condition \<Rightarrow> bool" where
  "condition_stops pc =
     (pc_Type pc = PodScheduled \<and> pc_Status pc = ConditionFalse \<and> pc_Reason pc = ''Unschedulable'')"

definition cc_Update :: "pod \<Rightarrow> pod_condition \<Rightarrow> string \<Rightarrow> cluster_capacity \<Rightarrow> cluster_capacity \<times> unit outcome" where
  "cc_Update p cond schedulerName c =
     (if condition_stops cond then
        (let p' = p\<lparr>pod_Phase := PodPending, pod_Conditions := pod_Conditions p @ [cond],
                    pod_Reason := pc_Reason cond\<rparr>;
             c1 = c\<lparr>cc_status := (cc_status c)\<lparr>FailedPods := FailedPods (cc_status c) @ [p']\<rparr>\<rparr>
         in deferred ''Fail'' (add_drain schedulerName c1))
      else (c, Ok ()))"

text \<open>\<open>Run\<close> up to the wait on \<open>stop\<close>: whether it returned, and the rest once a send arrives.\<close>

datatype run_pc = NotStarted | Waiting | Returned | Crashed

definition run_begin :: "cluster_capacity \<Rightarrow> cluster_capacity \<times> run_pc" where
  "run_begin c =
     (case nextPod c of
        (c1, Ok _) \<Rightarrow> (c1, Waiting)
      | (c1, Panic p) \<Rightarrow> (c1, Crashed)
      | (c1, Err err) \<Rightarrow>
          (case cc_Close (set_StopReason ''fail'' err c1) of
             (c2, Panic p) \<Rightarrow> (c2, Crashed) | (c2, _) \<Rightarrow> (c2, Returned)))"

definition run_end :: "cluster_capacity \<Rightarrow> cluster_capacity" where
  "run_end c = c\<lparr>cc_stopSends := cc_stopSends c - 1, cc_stopClosed := True\<rparr>"

section \<open>The adapter the scheduler calls\<close>

record lbpcu =
  lb_SchedulerName :: string

definition lb_Bind :: "lbpcu \<Rightarrow> v1_binding \<Rightarrow> cluster_capacity \<Rightarrow> cluster_capacity \<times> unit outcome" where
  "lb_Bind b binding c = cc_Bind binding (lb_SchedulerName b) c"

definition lb_Update :: "lbpcu \<Rightarrow> pod \<Rightarrow> pod_condition \<Rightarrow> cluster_capacity \<Rightarrow> cluster_capacity \<times> unit outcome" where
  "lb_Update b p cond c = cc_Update p cond (lb_SchedulerName b) c"

section \<open>Construction\<close>

record policy_source =
  ps_File :: "string option"
  ps_ConfigMap :: "(string \<times> string) option"

record algorithm_source =
  as_Policy :: "policy_source option"
  as_Provider :: "string option"

text \<open>
  The calls \<open>SchedulerConfigLocal\<close> makes outside the repository: the scheduler's config
  factory, the file system, the policy decoder and the config map client.
\<close>

record ('cfg, 'pol) configurator =
  CreateFromProvider :: "string \<Rightarrow> 'cfg outcome"
  CreateFromConfig :: "'pol \<Rightarrow> 'cfg outcome"
  os_Stat :: "string \<Rightarrow> unit outcome"
  ReadFile :: "string \<Rightarrow> string outcome"
  DecodePolicy :: "string \<Rightarrow> 'pol outcome"
  GetConfigMap :: "string \<Rightarrow> string \<Rightarrow> (string, string) gomap outcome"
  emptyPolicy :: 'pol

definition read_policy :: "('cfg, 'pol) configurator \<Rightarrow> policy_source \<Rightarrow> 'pol outcome" where
  "read_policy k ps =
     (case ps_File ps of
        Some path \<Rightarrow>
          (case os_Stat k path of
             Err e \<Rightarrow> Err (''missing policy config file '' @ path)
           | Panic p \<Rightarrow> Panic p
           | Ok _ \<Rightarrow>
               bind_outcome (wrap_err ''couldn't read policy config: '' (ReadFile k path))
                 (\<lambda>bytes. wrap_err ''invalid policy: '' (DecodePolicy k bytes)))
      | None \<Rightarrow>
          (case ps_ConfigMap ps of
             Some (ns, name) \<Rightarrow>
               bind_outcome
                 (wrap_err (''couldn't get policy config map '' @ ns @ ''/'' @ name @ '': '') (GetConfigMap k ns name))
                 (\<lambda>m. case map_of m ''policy.cfg'' of
                    None \<Rightarrow> Err (''missing policy config map value at key '' @ go_quote ''policy.cfg'')
                  | Some bytes \<Rightarrow> wrap_err ''invalid policy: '' (DecodePolicy k bytes))
           | None \<Rightarrow> Ok (emptyPolicy k)))"

definition SchedulerConfigLocal :: "('cfg, 'pol) configurator \<Rightarrow> algorithm_source \<Rightarrow> 'cfg outcome" where
  "SchedulerConfigLocal k source =
     (case as_Provider source of
        Some prov \<Rightarrow>
          wrap_err (''couldn't create scheduler using provider '' @ go_quote prov @ '': '') (CreateFromProvider k prov)
      | None \<Rightarrow>
          (case as_Policy source of
             Some ps \<Rightarrow>
               bind_outcome (read_policy k ps)
                 (\<lambda>policy. wrap_err ''couldn't create scheduler from policy: '' (CreateFromConfig k policy))
           | None \<Rightarrow> Err ''unsupported algorithm source: {<nil> <nil>}''))"

record sched_server =
  srv_SchedulerName :: string
  srv_AlgorithmSource :: algorithm_source

text \<open>The errors the scheduler hands to the config's error function.\<close>

datatype sched_error = FitError string | OtherError string

definition wrappedErrorFn :: "(pod \<Rightarrow> sched_error \<Rightarrow> 's \<Rightarrow> 's) \<Rightarrow> pod \<Rightarrow> sched_error \<Rightarrow> 's \<Rightarrow> 's" where
  "wrappedErrorFn errorFn p err s = (case err of FitError _ \<Rightarrow> s | OtherError _ \<Rightarrow> errorFn p err s)"

definition createScheduler ::
    "('cfg, 'pol) configurator \<Rightarrow> sched_server \<Rightarrow> (recorder \<times> lbpcu \<times> 'cfg) outcome" where
  "createScheduler k srv =
     bind_outcome (SchedulerConfigLocal k (srv_AlgorithmSource srv))
       (\<lambda>cfg. Ok (NewRecorder 10, \<lparr>lb_SchedulerName = srv_SchedulerName srv\<rparr>, cfg))"

text \<open>The event handler of one resource type; the error of an emission is dropped.\<close>

definition emit_handler :: "encoder \<Rightarrow> resource_type \<Rightarrow> string \<Rightarrow> obj \<Rightarrow> watch_env \<Rightarrow> string + watch_env" where
  "emit_handler enc rt eType o' e =
     (if \<not> is_runtime_object o' then Inl ''interface conversion''
      else case EmitObjectWatchEvent enc rt eType o' e of
        (e', Panic p) \<Rightarrow> Inl p | (e', _) \<Rightarrow> Inr e')"

definition sim_handler :: "encoder \<Rightarrow> resource_type \<Rightarrow> watch_env event_handler" where
  "sim_handler enc rt =
     \<lparr>OnAdd = emit_handler enc rt ''ADDED'', OnUpdate = emit_handler enc rt ''MODIFIED'',
      OnDelete = emit_handler enc rt ''DELETED''\<rparr>"

definition register_handlers :: "encoder \<Rightarrow> watch_env resource_store \<Rightarrow> watch_env resource_store" where
  "register_handlers enc s = fold (\<lambda>rt s. RegisterEventHandler rt (sim_handler enc rt) s) (Resources s) s"

text \<open>The initial objects; what \<open>Add\<close> returns is ignored, a panic is not.\<close>

fun add_nodes :: "node list \<Rightarrow> cluster_capacity \<Rightarrow> cluster_capacity \<times> unit outcome" where
  "add_nodes [] c = (c, Ok ())"
| "add_nodes (n # ns) c =
     (case rs_Add Nodes (NodeO n) (cc_store c) of
        (st, Panic p) \<Rightarrow> (c\<lparr>cc_store := st\<rparr>, Panic p)
      | (st, _) \<Rightarrow> add_nodes ns (c\<lparr>cc_store := st\<rparr>))"

fun add_pods :: "pod list \<Rightarrow> cluster_capacity \<Rightarrow> cluster_capacity \<times> unit outcome" where
  "add_pods [] c = (c, Ok ())"
| "add_pods (p # ps) c =
     (case rs_Add Pods (PodO p) (cc_store c) of
        (st, Panic x) \<Rightarrow> (c\<lparr>cc_store := st\<rparr>, Panic x)
      | (st, _) \<Rightarrow> add_pods ps (AddScheduledPods p (c\<lparr>cc_store := st\<rparr>)))"

definition initial_cc :: "encoder \<Rightarrow> pod list \<Rightarrow> cluster_capacity" where
  "initial_cc enc newPods =
     (case NewRESTClient ''core'' (Resources (NewResourceStore :: watch_env resource_store)) of
        (client, e) \<Rightarrow>
          \<lparr>cc_store = (register_handlers enc NewResourceStore, e), cc_client = client,
           cc_status = empty_status, cc_report = None, cc_queue = NewPodQueue newPods,
           cc_recorders = [], cc_stopEverything = [], cc_informerClosed = False, cc_closed = False,
           cc_drains = [], cc_stopSends = 0, cc_stopClosed = False, cc_defaultSchedulerName = []\<rparr>)"

definition sim_New ::
    "encoder \<Rightarrow> ('cfg, 'pol) configurator \<Rightarrow> sched_server \<Rightarrow> pod list \<Rightarrow> pod list \<Rightarrow> node list \<Rightarrow>
       (cluster_capacity \<times> lbpcu \<times> 'cfg) outcome" where
  "sim_New enc k srv newPods pods nodes =
     (case add_nodes nodes (initial_cc enc newPods) of
        (c1, Ok _) \<Rightarrow>
          (case add_pods pods c1 of
             (c2, Ok _) \<Rightarrow>
               bind_outcome (createScheduler k srv)
                 (\<lambda>(rec, lb, cfg).
                    Ok (c2\<lparr>cc_recorders := [(srv_SchedulerName srv, rec)],
                           cc_stopEverything := [(srv_SchedulerName srv, False)],
                           cc_defaultSchedulerName := srv_SchedulerName srv\<rparr>, lb, cfg))
           | (c2, Err e) \<Rightarrow> Err e
           | (c2, Panic p) \<Rightarrow> Panic p)
      | (c1, Err e) \<Rightarrow> Err e
      | (c1, Panic p) \<Rightarrow> Panic p)"

section \<open>Where the configuration comes from\<close>

text \<open>
  A scheduler is configured from the named provider when there is one, whatever the policy, else
  from the policy, else not at all; the factory's error is wrapped, and the config itself is passed on
  unchanged.
\<close>

lemma scheduler_config_sources:
  "(SchedulerConfigLocal k src = Ok cfg \<longleftrightarrow>
     (case as_Provider src of
        Some prov \<Rightarrow> CreateFromProvider k prov = Ok cfg
      | None \<Rightarrow> (\<exists>ps pol. as_Policy src = Some ps \<and> read_policy k ps = Ok pol \<and> CreateFromConfig k pol = Ok cfg))) \<and>
   (as_Provider src = None \<and> as_Policy src = None \<longrightarrow>
      SchedulerConfigLocal k src = Err ''unsupported algorithm source: {<nil> <nil>}'')"
proof -
  have wrap: "wrap_err s r = Ok y \<longleftrightarrow> r = Ok y" for s y and r :: "'x outcome" by (cases r) simp_all
  show ?thesis by (auto simp: SchedulerConfigLocal_def wrap split: option.split)
qed

end
