(* ===== verification/Simulation.thy ===== *)
theory Simulation
  imports Simulator
begin

text \<open>
  A run of the simulator: \<open>Run\<close>, the scheduler's goroutines and the recorder's drains
  interleave.  The scheduler (\<open>vendor/k8s.io/kubernetes/pkg/scheduler/scheduler.go\<close>) is
  free in what it decides: which host, or that no host fits.  A decision is then carried out as
  \<open>schedule\<close> and \<open>bind\<close> do: a bound pod calls \<open>Bind\<close> and then records an
  event, a pod that does not fit records an event and then calls \<open>Update\<close>.  A call of
  \<open>Bind\<close> or \<open>Update\<close> is one step: between two of them no other call changes the
  state they use, since at most one pod is in flight (\<open>sim_inv\<close>).

  Here every failed decision is a fit error, for which the simulator's error function does nothing, and a
  decision may be taken whenever a pod waits.  \<open>Simulation_Retry\<close> adds the loop that takes the
  decisions one after the other until it is stopped, and the default error function, which the simulator
  keeps for every error that is not a fit error.
\<close>

section \<open>The scheduler's side\<close>

definition unassignedNonTerminatedPod :: "pod \<Rightarrow> bool" where
  "unassignedNonTerminatedPod p =
     (if length (pod_NodeName p) \<noteq> 0 then False
      else if pod_Phase p = ''Succeeded'' \<or> pod_Phase p = ''Failed'' then False
      else True)"

definition pod_binding :: "pod \<Rightarrow> string \<Rightarrow> v1_binding" where
  "pod_binding p host =
     \<lparr>b_Name = om_Name (pod_meta p), b_Namespace = om_Namespace (pod_meta p), b_Target = host\<rparr>"

definition fail_condition :: "string \<Rightarrow> pod_condition" where
  "fail_condition msg =
     \<lparr>pc_Type = PodScheduled, pc_Status = ConditionFalse, pc_Reason = ''Unschedulable'', pc_Message = msg\<rparr>"

definition reject_condition :: pod_condition where
  "reject_condition =
     \<lparr>pc_Type = PodScheduled, pc_Status = ConditionFalse, pc_Reason = ''BindingRejected'', pc_Message = []\<rparr>"

datatype task =
    TBind pod string
  | TBound pod string
  | TFail pod string
  | TUpdate pod string
  | TReject pod go_error
  | TRejected pod

record sim_sys =
  ss_cc :: cluster_capacity
  ss_pc :: run_pc
  ss_waiting :: "pod list"
  ss_tasks :: "task list"
  ss_retry :: "pod list"

text \<open>The pod \<open>nextPod\<close> is about to add, as the scheduler's pod informer filters it.\<close>

definition admitted :: "cluster_capacity \<Rightarrow> pod list" where
  "admitted c =
     (case fst (PodQueue_Pop (cc_queue c)) of
        Some p \<Rightarrow> if unassignedNonTerminatedPod p then [p] else []
      | None \<Rightarrow> [])"

text \<open>
  The stored pods the scheduler queues when its informers first list the store: \<open>Run\<close> does
  not remove pods that are not scheduled yet.
\<close>

definition unscheduled :: "cluster_capacity \<Rightarrow> pod list" where
  "unscheduled c = [p. PodO p \<leftarrow> rs_List Pods (fst (cc_store c)), unassignedNonTerminatedPod p]"

definition record_event :: "string \<Rightarrow> string \<Rightarrow> string \<Rightarrow> string \<Rightarrow> cluster_capacity \<Rightarrow> cluster_capacity option" where
  "record_event n t r m c =
     (case map_of (cc_recorders c) n of
        None \<Rightarrow> None
      | Some e \<Rightarrow>
          map_option (\<lambda>e'. c\<lparr>cc_recorders := AList.update n e' (cc_recorders c)\<rparr>) (rec_Eventf e t r m))"

definition drain_event :: "string \<Rightarrow> cluster_capacity \<Rightarrow> cluster_capacity option" where
  "drain_event n c =
     (case map_of (cc_recorders c) n of
        None \<Rightarrow> None
      | Some e \<Rightarrow>
          (case Events e of
             None \<Rightarrow> None
           | Some ch \<Rightarrow>
               map_option (\<lambda>(x, ch'). c\<lparr>cc_recorders := AList.update n (e\<lparr>Events := Some ch'\<rparr>) (cc_recorders c)\<rparr>)
                 (chan_recv ch)))"

definition scheduled_msg :: "pod \<Rightarrow> string \<Rightarrow> string" where
  "scheduled_msg p h = ''Successfully assigned '' @ om_Name (pod_meta p) @ '' to '' @ h"

inductive sim_step :: "string \<Rightarrow> sim_sys \<Rightarrow> sim_sys \<Rightarrow> bool" for n where
  start: "ss_pc s = NotStarted \<Longrightarrow> run_begin (ss_cc s) = (c', pc') \<Longrightarrow>
    sim_step n s (s\<lparr>ss_cc := c', ss_pc := pc',
      ss_waiting := ss_waiting s @ unscheduled (ss_cc s) @ admitted (ss_cc s)\<rparr>)"
| decide_bind: "ss_waiting s = p # w \<Longrightarrow>
    sim_step n s (s\<lparr>ss_waiting := w, ss_tasks := ss_tasks s @ [TBind p h]\<rparr>)"
| decide_fail: "ss_waiting s = p # w \<Longrightarrow>
    sim_step n s (s\<lparr>ss_waiting := w, ss_tasks := ss_tasks s @ [TFail p m]\<rparr>)"
| bind_ok: "ss_tasks s = a @ TBind p h # b \<Longrightarrow>
    cc_Bind (pod_binding p h) n (ss_cc s) = (c', Ok ()) \<Longrightarrow>
    sim_step n s (s\<lparr>ss_cc := c', ss_waiting := ss_waiting s @ admitted (ss_cc s),
      ss_tasks := a @ TBound p h # b\<rparr>)"
| bind_err: "ss_tasks s = a @ TBind p h # b \<Longrightarrow>
    cc_Bind (pod_binding p h) n (ss_cc s) = (c', Err e) \<Longrightarrow>
    sim_step n s (s\<lparr>ss_cc := c', ss_tasks := a @ TReject p e # b\<rparr>)"
| bind_crash: "ss_tasks s = a @ TBind p h # b \<Longrightarrow>
    cc_Bind (pod_binding p h) n (ss_cc s) = (c', Panic x) \<Longrightarrow>
    sim_step n s (s\<lparr>ss_cc := c', ss_pc := Crashed, ss_tasks := a @ b\<rparr>)"
| bound_event: "ss_tasks s = a @ TBound p h # b \<Longrightarrow>
    record_event n ''Normal'' ''Scheduled'' (scheduled_msg p h) (ss_cc s) = Some c' \<Longrightarrow>
    sim_step n s (s\<lparr>ss_cc := c', ss_tasks := a @ b\<rparr>)"
| fail_event: "ss_tasks s = a @ TFail p m # b \<Longrightarrow>
    record_event n ''Warning'' ''FailedScheduling'' m (ss_cc s) = Some c' \<Longrightarrow>
    sim_step n s (s\<lparr>ss_cc := c', ss_tasks := a @ TUpdate p m # b\<rparr>)"
| update_ok: "ss_tasks s = a @ TUpdate p m # b \<Longrightarrow>
    cc_Update p (fail_condition m) n (ss_cc s) = (c', Ok ()) \<Longrightarrow>
    sim_step n s (s\<lparr>ss_cc := c', ss_waiting := ss_waiting s @ admitted (ss_cc s), ss_tasks := a @ b\<rparr>)"
| update_crash: "ss_tasks s = a @ TUpdate p m # b \<Longrightarrow>
    cc_Update p (fail_condition m) n (ss_cc s) = (c', Panic x) \<Longrightarrow>
    sim_step n s (s\<lparr>ss_cc := c', ss_pc := Crashed, ss_tasks := a @ b\<rparr>)"
| reject_event: "ss_tasks s = a @ TReject p e # b \<Longrightarrow>
    record_event n ''Warning'' ''FailedScheduling'' (''Binding rejected: '' @ e) (ss_cc s) = Some c' \<Longrightarrow>
    sim_step n s (s\<lparr>ss_cc := c', ss_tasks := a @ TRejected p # b\<rparr>)"
| reject_update: "ss_tasks s = a @ TRejected p # b \<Longrightarrow>
    cc_Update p reject_condition n (ss_cc s) = (c', Ok ()) \<Longrightarrow>
    sim_step n s (s\<lparr>ss_cc := c', ss_tasks := a @ b\<rparr>)"
| drain: "cc_drains (ss_cc s) = a @ m # b \<Longrightarrow> drain_event m (ss_cc s) = Some c' \<Longrightarrow>
    sim_step n s (s\<lparr>ss_cc := c'\<lparr>cc_drains := a @ b\<rparr>\<rparr>)"
| stop: "ss_pc s = Waiting \<Longrightarrow> cc_stopSends (ss_cc s) > 0 \<Longrightarrow>
    sim_step n s (s\<lparr>ss_cc := run_end (ss_cc s), ss_pc := Returned\<rparr>)"

text \<open>
  Between the steps, clients of the REST client open watches and read from them: the watch state
  changes, but only selectors that parse get registered.
\<close>

definition sel_safe :: "string \<Rightarrow> bool" where
  "sel_safe k = (\<exists>sel. ParseSelector k = Ok sel \<and> list_all (\<lambda>f. ident_path (go_field f)) (sel_fields sel))"

definition env_safe :: "watch_env \<Rightarrow> bool" where
  "env_safe e = (\<forall>(r, rg) \<in> set (watcherReadGetters e). \<forall>(k, is) \<in> set rg. sel_safe k)"

definition set_env :: "watch_env \<Rightarrow> sim_sys \<Rightarrow> sim_sys" where
  "set_env e s = s\<lparr>ss_cc := (ss_cc s)\<lparr>cc_store := (fst (cc_store (ss_cc s)), e)\<rparr>\<rparr>"

inductive client_step :: "sim_sys \<Rightarrow> sim_sys \<Rightarrow> bool" where
  "env_safe e \<Longrightarrow> client_step s (set_env e s)"

definition sim_initial :: "cluster_capacity \<Rightarrow> sim_sys" where
  "sim_initial c = \<lparr>ss_cc = c, ss_pc = NotStarted, ss_waiting = [], ss_tasks = [], ss_retry = []\<rparr>"

inductive sim_reach :: "string \<Rightarrow> sim_sys \<Rightarrow> sim_sys \<Rightarrow> bool" for n s0 where
  reach_refl: "sim_reach n s0 s0"
| reach_sim: "sim_reach n s0 s \<Longrightarrow> sim_step n s s' \<Longrightarrow> sim_reach n s0 s'"
| reach_client: "sim_reach n s0 s \<Longrightarrow> client_step s s' \<Longrightarrow> sim_reach n s0 s'"

section \<open>The handlers never panic\<close>

lemma Matches_total:
  "\<forall>f \<in> set (sel_fields q). \<forall>ls. \<exists>y. get ls f = Ok y \<Longrightarrow> \<exists>y. sel_Matches get q ls = Ok y"
proof (induction q arbitrary: ls)
  case (AndTerm qs)
  then show ?case
  proof (induction qs arbitrary: ls)
    case (Cons q qs)
    from Cons.prems(1) [of q ls] Cons.prems(2) obtain l b where "sel_Matches get q ls = Ok (l, b)" by fastforce
    moreover from Cons obtain y where "and_Matches get qs l = Ok y" by fastforce
    ultimately show ?case by auto
  qed auto
next
  case (HasTerm f v)
  then have "\<exists>y. get ls f = Ok y" by simp
  then obtain y where "get ls f = Ok y" by blast
  then show ?case by (cases y) simp
next
  case (NotHasTerm f v)
  then have "\<exists>y. get ls f = Ok y" by simp
  then obtain y where "get ls f = Ok y" by blast
  then show ?case by (cases y) simp
qed

lemma acc_Get_total: "ident_path (go_field f) \<Longrightarrow> \<exists>y. acc_Get a f = Ok y"
  by (auto simp: acc_Get_def exec_template_def split: option.split)

lemma sel_safe_match:
  assumes "sel_safe k"
  shows "\<exists>y. bind_outcome (ParseSelectorOrDie k)
    (\<lambda>sel. sel_Matches acc_Get sel (NewObjectFieldsAccessor x)) = Ok y"
proof -
  from assms obtain sel where "ParseSelector k = Ok sel" "\<forall>f \<in> set (sel_fields sel). ident_path (go_field f)"
    by (auto simp: sel_safe_def list_all_iff)
  with Matches_total [of sel acc_Get "NewObjectFieldsAccessor x"] acc_Get_total show ?thesis
    by (auto simp: ParseSelectorOrDie_def)
qed

lemma EmitWatchEvent_no_panic: "enc_total enc f \<Longrightarrow> snd (EmitWatchEvent enc w t x) \<noteq> Panic p"
  by (cases "wb_closed w") (simp_all add: EmitWatchEvent_open EmitWatchEvent_closed)

lemma emit_to_safe:
  assumes "enc_total enc f" "emit_to enc t x is e = (e', r)"
  shows "r \<noteq> Panic p \<and> watcherReadGetters e' = watcherReadGetters e"
  using assms(2)
proof (induction "is" arbitrary: e)
  case (Cons i "is")
  then show ?case
    using EmitWatchEvent_no_panic [OF assms(1), of "we_bufs e ! i" t x]
    by (auto simp: put_buf_def split: prod.splits outcome.splits)
qed auto

lemma emit_selectors_safe:
  assumes "enc_total enc f" "\<forall>(k, is) \<in> set rg. sel_safe k" "emit_selectors enc t x rg e = (e', r)"
  shows "r \<noteq> Panic p \<and> watcherReadGetters e' = watcherReadGetters e"
  using assms(2,3)
proof (induction rg arbitrary: e)
  case (Cons y rg)
  obtain k "is" where y: "y = (k, is)" by fastforce
  obtain a ok where m: "bind_outcome (ParseSelectorOrDie k)
      (\<lambda>sel. sel_Matches acc_Get sel (NewObjectFieldsAccessor x)) = Ok (a, ok)"
    using sel_safe_match [of k x] Cons.prems(1) y by fastforce
  obtain e1 r1 where e1: "emit_to enc t x is e = (e1, r1)" by fastforce
  from emit_to_safe [OF assms(1) e1] Cons m y e1 show ?case
    by (cases ok; cases r1) auto
qed auto

lemma Emit_safe:
  assumes "enc_total enc f" "env_safe e"
  shows "\<exists>e' r. EmitObjectWatchEvent enc rt t x e = (e', r) \<and> (\<forall>p. r \<noteq> Panic p) \<and> env_safe e'"
proof (cases "map_of (watcherReadGetters e) rt")
  case (Some rg)
  then have "\<forall>(k, is) \<in> set rg. sel_safe k"
    using assms(2) by (auto simp: env_safe_def dest!: map_of_SomeD)
  moreover obtain e' r where "emit_selectors enc t x rg e = (e', r)" by fastforce
  ultimately show ?thesis
    using emit_selectors_safe [OF assms(1)] assms(2) Some
    by (fastforce simp: EmitObjectWatchEvent_def env_safe_def)
qed (use assms in \<open>simp add: EmitObjectWatchEvent_def\<close>)

lemma emit_handler_safe:
  assumes "enc_total enc f" "env_safe e" "is_runtime_object x"
  shows "\<exists>e'. emit_handler enc rt t x e = Inr e' \<and> env_safe e'"
  using Emit_safe [OF assms(1,2), of rt t x] assms(3)
  by (auto simp: emit_handler_def split: outcome.split)

lemma fold_register:
  "eventHandler (fold (\<lambda>rt s. RegisterEventHandler rt (h rt) s) rts s) =
     fold (\<lambda>rt m. AList.update rt (h rt) m) rts (eventHandler s)"
  "resourceToCache (fold (\<lambda>rt s. RegisterEventHandler rt (h rt) s) rts s) = resourceToCache s"
  by (induction rts arbitrary: s) (simp_all add: RegisterEventHandler_def)

lemma set_fold_update: "(r, v) \<in> set (fold (\<lambda>rt m. AList.update rt (h rt) m) rts m) \<Longrightarrow> v = h r \<or> (r, v) \<in> set m"
proof (induction rts arbitrary: m)
  case (Cons rt rts)
  have "(r, v) \<in> set (AList.update rt (h rt) m) \<Longrightarrow> v = h r \<or> (r, v) \<in> set m"
    by (induction m) (auto split: if_splits)
  with Cons show ?case by auto
qed simp

section \<open>The calls\<close>

text \<open>The store the calls work on: well formed, with handlers that cannot panic.\<close>

definition cc_good :: "cluster_capacity \<Rightarrow> bool" where
  "cc_good c = (good_state env_safe (cc_store c) \<and> Pods \<in> set (Resources (fst (cc_store c))))"

definition stored :: "cluster_capacity \<Rightarrow> pod \<Rightarrow> bool" where
  "stored c p = (rs_lookup (fst (cc_store c)) Pods (pod_key p) = Some (PodO p))"

definition open_channels :: "cluster_capacity \<Rightarrow> bool" where
  "open_channels c =
     (\<not> cc_closed c \<and> \<not> cc_informerClosed c \<and> \<not> list_ex snd (cc_stopEverything c) \<and>
      \<not> cc_stopClosed c \<and> cc_stopSends c = 0)"

definition close_all :: "string \<Rightarrow> cluster_capacity \<Rightarrow> cluster_capacity" where
  "close_all pre c =
     (set_StopReason pre ''No pods left'' c)
       \<lparr>cc_stopEverything := map (\<lambda>(n, b). (n, True)) (cc_stopEverything c),
        cc_informerClosed := True, cc_closed := True\<rparr>"

text \<open>The objects in the store, by type and key, and the effect of writing a pod.\<close>

abbreviation cc_objects :: "cluster_capacity \<Rightarrow> resource_type \<Rightarrow> string \<Rightarrow> obj option" where
  "cc_objects c \<equiv> rs_lookup (fst (cc_store c))"

definition put_pod :: "pod \<Rightarrow> (resource_type \<Rightarrow> string \<Rightarrow> obj option) \<Rightarrow> resource_type \<Rightarrow> string \<Rightarrow> obj option" where
  "put_pod p L = L(Pods := (L Pods)(pod_key p \<mapsto> PodO p))"

abbreviation cc_pending :: "cluster_capacity \<Rightarrow> pod list" where
  "cc_pending c \<equiv> pending_pods (cc_queue c)"

lemma PodO_runtime [simp]: "is_runtime_object (PodO p)" "is_runtime_object (NodeO x)"
  by (simp_all add: is_runtime_object_def)

lemma nextPod_more:
  assumes "cc_good c" "cc_pending c = p # ps"
  shows "\<exists>q st. nextPod c = (c\<lparr>cc_queue := q, cc_store := st\<rparr>, Ok ()) \<and> pending_pods q = ps \<and>
    cc_good (c\<lparr>cc_queue := q, cc_store := st\<rparr>) \<and> stored (c\<lparr>cc_queue := q, cc_store := st\<rparr>) p \<and>
    rs_lookup (fst st) = put_pod p (cc_objects c)"
proof -
  obtain o' q where q: "PodQueue_Pop (cc_queue c) = (o', q)" by fastforce
  with pq.pop_Cons [OF assms(2)] have pop: "o' = Some p" "pending_pods q = ps" by simp_all
  obtain st r where st: "rs_Add Pods (PodO p) (cc_store c) = (st, r)" by fastforce
  with rsa.write_ok [of env_safe "cc_store c" Pods "PodO p" "pod_key p"] assms(1)
  have "r = Ok ()" "good_state env_safe st" "Resources (fst st) = Resources (fst (cc_store c))"
    "rs_lookup (fst st) = put_pod p (cc_objects c)"
    by (simp_all add: cc_good_def put_pod_def)
  then show ?thesis
    using q pop st assms(1)
    by (intro exI [of _ q] exI [of _ st]) (simp add: nextPod_def cc_good_def stored_def put_pod_def)
qed

lemma nextPod_none:
  assumes "cc_pending c = []"
  shows "nextPod c = (c, Err ''No pods left'')"
  using assms by (simp add: nextPod_def pending_pods_def PodQueue_Pop_Nil)

lemma deferred_more:
  assumes "cc_good c" "cc_pending c = p # ps"
  shows "\<exists>q st. deferred pre c = (c\<lparr>cc_queue := q, cc_store := st\<rparr>, Ok ()) \<and> pending_pods q = ps \<and>
    cc_good (c\<lparr>cc_queue := q, cc_store := st\<rparr>) \<and> stored (c\<lparr>cc_queue := q, cc_store := st\<rparr>) p \<and>
    rs_lookup (fst st) = put_pod p (cc_objects c)"
proof -
  from nextPod_more [OF assms] obtain q st where
    "nextPod c = (c\<lparr>cc_queue := q, cc_store := st\<rparr>, Ok ())" "pending_pods q = ps"
    "cc_good (c\<lparr>cc_queue := q, cc_store := st\<rparr>)" "stored (c\<lparr>cc_queue := q, cc_store := st\<rparr>) p"
    "rs_lookup (fst st) = put_pod p (cc_objects c)" by blast
  then show ?thesis by (intro exI [of _ q] exI [of _ st]) (simp add: deferred_def)
qed

lemma set_StopReason_simps [simp]:
  "cc_closed (set_StopReason pre e c) = cc_closed c"
  "cc_stopEverything (set_StopReason pre e c) = cc_stopEverything c"
  "cc_informerClosed (set_StopReason pre e c) = cc_informerClosed c"
  "cc_stopClosed (set_StopReason pre e c) = cc_stopClosed c"
  "cc_stopSends (set_StopReason pre e c) = cc_stopSends c"
  by (simp_all add: set_StopReason_def)

lemma close_open:
  "open_channels c \<Longrightarrow> cc_Close (set_StopReason pre ''No pods left'' c) = (close_all pre c, Ok ())"
  by (simp add: cc_Close_def open_channels_def close_all_def)

lemma deferred_none:
  "open_channels c \<Longrightarrow> cc_pending c = [] \<Longrightarrow>
     deferred pre c = ((close_all pre c)\<lparr>cc_stopSends := 1\<rparr>, Ok ())"
  using close_open [of c pre] by (simp add: deferred_def nextPod_none open_channels_def close_all_def)

definition bound_pod :: "pod \<Rightarrow> string \<Rightarrow> pod" where
  "bound_pod p h = p\<lparr>pod_NodeName := h, pod_Phase := PodRunning\<rparr>"

definition failed_pod :: "pod \<Rightarrow> string \<Rightarrow> pod" where
  "failed_pod p m =
     p\<lparr>pod_Phase := PodPending, pod_Conditions := pod_Conditions p @ [fail_condition m],
       pod_Reason := ''Unschedulable''\<rparr>"

lemma binding_key_key: "obj_key (binding_key (pod_binding p h)) = Some (pod_key p)"
  by (simp add: binding_key_def pod_binding_def pod_key_def empty_pod_def empty_meta_def)

lemma rs_Get_lookup:
  "r \<in> set (Resources s) \<Longrightarrow> obj_key x = Some k \<Longrightarrow> rs_Get r x s = Ok (rs_lookup s r k)"
  by (auto simp: rs_Get_def rs_lookup_def cache_Get_def cache_GetByKey_def Resources_iff obj_key_def
      split: option.splits outcome.splits)

lemma Bind_stored:
  assumes "cc_good c" "stored c p"
  shows "\<exists>st. cc_Bind (pod_binding p h) n c =
      deferred ''fail'' (add_drain n (c\<lparr>cc_store := st,
        cc_status := (cc_status c)\<lparr>SuccessfulPods := SuccessfulPods (cc_status c) @ [bound_pod p h]\<rparr>\<rparr>)) \<and>
    cc_good (c\<lparr>cc_store := st\<rparr>) \<and> rs_lookup (fst st) = put_pod (bound_pod p h) (cc_objects c)"
proof -
  have get: "rs_Get Pods (binding_key (pod_binding p h)) (fst (cc_store c)) = Ok (Some (PodO p))"
    using assms rs_Get_lookup [OF _ binding_key_key, of Pods "fst (cc_store c)" p h] by (simp add: cc_good_def stored_def)
  have "bound_pod p h = (bound_pod p h)\<lparr>pod_Phase := PodRunning\<rparr>" by (simp add: bound_pod_def)
  with strat.add_ok [of env_safe "cc_store c" "bound_pod p h"] assms(1)
  obtain st where "strategy_Add (PodO (bound_pod p h)) (cc_store c) = ((st, PodO (bound_pod p h)), Ok ())"
      "good_state env_safe st" "Resources (fst st) = Resources (fst (cc_store c))"
      "rs_lookup (fst st) = put_pod (bound_pod p h) (cc_objects c)"
    by (auto simp: cc_good_def put_pod_def)
  with get assms(1) show ?thesis
    by (intro exI [of _ st]) (simp add: cc_Bind_def Let_def pod_binding_def cc_good_def bound_pod_def)
qed

lemma Update_fail:
  "cc_Update p (fail_condition m) n c =
     deferred ''Fail'' (add_drain n (c\<lparr>cc_status := (cc_status c)\<lparr>FailedPods := FailedPods (cc_status c) @ [failed_pod p m]\<rparr>\<rparr>))"
  by (simp add: cc_Update_def condition_stops_def fail_condition_def failed_pod_def Let_def)

end
