(* ===== verification/Simulation_Flow.thy ===== *)
theory Simulation_Flow
  imports Simulation
begin

text \<open>
  What a run achieves.  \<open>sim_inv\<close> holds in every reachable state: the pods already
  resolved, the one in flight and the ones still queued are, in this order, the reverse of the
  input; the successful and failed pods are the resolved ones with what the scheduler decided; no
  call panics or fails; and the recorder's channel holds exactly the events whose drain is
  outstanding.  With \<open>sim_measure\<close> every run ends, and \<open>sim_progress\<close> says it
  ends only when \<open>Run\<close> has returned and nothing is left to do.
\<close>

section \<open>The invariant\<close>

type_synonym decision = "string + string"

definition pod_success :: "pod \<times> decision \<Rightarrow> pod list" where
  "pod_success x = (case snd x of Inl h \<Rightarrow> [bound_pod (fst x) h] | Inr m \<Rightarrow> [])"

definition pod_failure :: "pod \<times> decision \<Rightarrow> pod list" where
  "pod_failure x = (case snd x of Inl h \<Rightarrow> [] | Inr m \<Rightarrow> [failed_pod (fst x) m])"

fun task_pods :: "task \<Rightarrow> pod list" where
  "task_pods (TBind p h) = [p]"
| "task_pods (TFail p m) = [p]"
| "task_pods (TUpdate p m) = [p]"
| "task_pods _ = []"

fun is_TBound :: "task \<Rightarrow> bool" where
  "is_TBound (TBound p h) = True" | "is_TBound _ = False"

fun is_TUpdate :: "task \<Rightarrow> bool" where
  "is_TUpdate (TUpdate p m) = True" | "is_TUpdate _ = False"

fun is_reject :: "task \<Rightarrow> bool" where
  "is_reject (TReject p e) = True" | "is_reject (TRejected p) = True" | "is_reject _ = False"

definition in_flight :: "sim_sys \<Rightarrow> pod list" where
  "in_flight s = ss_waiting s @ concat (map task_pods (ss_tasks s))"

definition stop_text :: "(pod \<times> decision) list \<Rightarrow> string" where
  "stop_text outs =
     (if outs \<noteq> [] \<and> pod_failure (last outs) \<noteq> [] then ''Fail'' else ''fail'') @
     '' to get next pod: No pods left'' @ [CHR 0x0A]"

definition finished :: "cluster_capacity \<Rightarrow> (pod \<times> decision) list \<Rightarrow> bool" where
  "finished c outs = (cc_closed c \<and> cc_pending c = [] \<and> StopReason (cc_status c) = stop_text outs)"

definition phase_ok :: "sim_sys \<Rightarrow> (pod \<times> decision) list \<Rightarrow> bool" where
  "phase_ok s outs =
     (case ss_pc s of
        NotStarted \<Rightarrow> open_channels (ss_cc s) \<and> in_flight s = [] \<and> outs = [] \<and> unscheduled (ss_cc s) = []
      | Waiting \<Rightarrow>
          open_channels (ss_cc s) \<and> length (in_flight s) = 1 \<or>
          finished (ss_cc s) outs \<and> in_flight s = [] \<and> cc_stopSends (ss_cc s) = 1 \<and> \<not> cc_stopClosed (ss_cc s)
      | Returned \<Rightarrow> finished (ss_cc s) outs \<and> in_flight s = [] \<and> cc_stopSends (ss_cc s) = 0
      | Crashed \<Rightarrow> False)"

definition flow_ok :: "pod list \<Rightarrow> pod list \<Rightarrow> sim_sys \<Rightarrow> (pod \<times> decision) list \<Rightarrow> bool" where
  "flow_ok newPods sched s outs =
     (map fst outs @ in_flight s @ cc_pending (ss_cc s) = rev newPods \<and>
      SuccessfulPods (cc_status (ss_cc s)) = concat (map pod_success outs) \<and>
      FailedPods (cc_status (ss_cc s)) = concat (map pod_failure outs) \<and>
      ScheduledPods (cc_status (ss_cc s)) = sched)"

definition events_ok :: "string \<Rightarrow> sim_sys \<Rightarrow> bool" where
  "events_ok n s =
     (\<exists>e. map_of (cc_recorders (ss_cc s)) n = Some e \<and> rec_bounded 10 e \<and>
        set (cc_drains (ss_cc s)) \<subseteq> {n} \<and> list_all (\<lambda>t. \<not> is_reject t) (ss_tasks s) \<and>
        length (rec_items e) + length (filter is_TBound (ss_tasks s)) =
          length (cc_drains (ss_cc s)) + length (filter is_TUpdate (ss_tasks s)))"

text \<open>
  The store: what was there, every settled pod bound or as it was given, and the pod in flight.
\<close>

fun settled :: "pod \<times> decision \<Rightarrow> pod" where
  "settled (p, Inl h) = bound_pod p h"
| "settled (p, Inr m) = p"

definition settle :: "(pod \<times> decision) list \<Rightarrow> (resource_type \<Rightarrow> string \<Rightarrow> obj option) \<Rightarrow> resource_type \<Rightarrow> string \<Rightarrow> obj option" where
  "settle outs L = fold (\<lambda>x. put_pod (settled x)) outs L"

definition store_ok :: "(resource_type \<Rightarrow> string \<Rightarrow> obj option) \<Rightarrow> sim_sys \<Rightarrow> (pod \<times> decision) list \<Rightarrow> bool" where
  "store_ok L s outs = (cc_objects (ss_cc s) = fold put_pod (in_flight s) (settle outs L))"

text \<open>
  The invariant: \<open>outs\<close> is what has been decided so far, in order; \<open>L\<close> is the
  contents of the store before the first simulated pod.
\<close>

definition sim_at :: "string \<Rightarrow> pod list \<Rightarrow> pod list \<Rightarrow> (resource_type \<Rightarrow> string \<Rightarrow> obj option) \<Rightarrow>
    (pod \<times> decision) list \<Rightarrow> sim_sys \<Rightarrow> bool" where
  "sim_at n newPods sched L outs s =
     (cc_good (ss_cc s) \<and> list_all (stored (ss_cc s)) (in_flight s) \<and> ss_retry s = [] \<and>
      events_ok n s \<and> phase_ok s outs \<and> flow_ok newPods sched s outs \<and> store_ok L s outs)"

definition sim_inv :: "string \<Rightarrow> pod list \<Rightarrow> pod list \<Rightarrow> (resource_type \<Rightarrow> string \<Rightarrow> obj option) \<Rightarrow> sim_sys \<Rightarrow> bool" where
  "sim_inv n newPods sched L s = (\<exists>outs. sim_at n newPods sched L outs s)"

section \<open>One call\<close>

lemma admitted_pending:
  "list_all unassignedNonTerminatedPod (cc_pending c) \<Longrightarrow> admitted c = take 1 (cc_pending c)"
  by (cases "cc_pending c") (auto simp: admitted_def dest: pq.pop_Cons pq.pop_Nil)

lemma add_drain_simps [simp]:
  "cc_queue (add_drain n c) = cc_queue c" "cc_store (add_drain n c) = cc_store c"
  "cc_status (add_drain n c) = cc_status c" "cc_recorders (add_drain n c) = cc_recorders c"
  "cc_drains (add_drain n c) = cc_drains c @ [n]" "open_channels (add_drain n c) = open_channels c"
  by (simp_all add: add_drain_def open_channels_def)

lemma close_all_simps [simp]:
  "cc_queue (close_all pre c) = cc_queue c" "cc_store (close_all pre c) = cc_store c"
  "cc_recorders (close_all pre c) = cc_recorders c" "cc_drains (close_all pre c) = cc_drains c"
  "cc_closed (close_all pre c)" "cc_stopClosed (close_all pre c) = cc_stopClosed c"
  "cc_stopSends (close_all pre c) = cc_stopSends c"
  "SuccessfulPods (cc_status (close_all pre c)) = SuccessfulPods (cc_status c)"
  "FailedPods (cc_status (close_all pre c)) = FailedPods (cc_status c)"
  "ScheduledPods (cc_status (close_all pre c)) = ScheduledPods (cc_status c)"
  "StopReason (cc_status (close_all pre c)) = pre @ '' to get next pod: No pods left'' @ [CHR 0x0A]"
  by (simp_all add: close_all_def set_StopReason_def)

text \<open>
  What \<open>deferred\<close> does to a good state: either the next pod is stored and becomes the one
  in flight, or everything is closed.
\<close>

definition advanced :: "string \<Rightarrow> cluster_capacity \<Rightarrow> cluster_capacity \<Rightarrow> bool" where
  "advanced pre c c' =
     (cc_good c' \<and> cc_recorders c' = cc_recorders c \<and> cc_drains c' = cc_drains c \<and>
      SuccessfulPods (cc_status c') = SuccessfulPods (cc_status c) \<and>
      FailedPods (cc_status c') = FailedPods (cc_status c) \<and>
      ScheduledPods (cc_status c') = ScheduledPods (cc_status c) \<and>
      take 1 (cc_pending c) @ cc_pending c' = cc_pending c \<and>
      cc_objects c' = fold put_pod (take 1 (cc_pending c)) (cc_objects c) \<and>
      list_all (stored c') (take 1 (cc_pending c)) \<and>
      (if cc_pending c = []
       then cc_closed c' \<and> cc_stopSends c' = 1 \<and> \<not> cc_stopClosed c' \<and>
         StopReason (cc_status c') = pre @ '' to get next pod: No pods left'' @ [CHR 0x0A]
       else open_channels c'))"

lemma deferred_advanced:
  assumes "cc_good c" "open_channels c"
  shows "\<exists>c'. deferred pre c = (c', Ok ()) \<and> advanced pre c c'"
proof (cases "cc_pending c")
  case Nil
  with deferred_none [OF assms(2), of pre] assms show ?thesis
    by (simp add: advanced_def cc_good_def open_channels_def)
next
  case (Cons p ps)
  from deferred_more [OF assms(1) Cons] obtain q st where
    "deferred pre c = (c\<lparr>cc_queue := q, cc_store := st\<rparr>, Ok ())" "pending_pods q = ps"
    "cc_good (c\<lparr>cc_queue := q, cc_store := st\<rparr>)" "stored (c\<lparr>cc_queue := q, cc_store := st\<rparr>) p"
    "rs_lookup (fst st) = put_pod p (cc_objects c)" by blast
  with assms Cons show ?thesis by (simp add: advanced_def open_channels_def)
qed

lemma Bind_advanced:
  assumes "cc_good c" "stored c p" "open_channels c"
  shows "\<exists>c1 c'. cc_Bind (pod_binding p h) n c = (c', Ok ()) \<and> advanced ''fail'' c1 c' \<and>
    cc_queue c1 = cc_queue c \<and> cc_recorders c1 = cc_recorders c \<and> cc_drains c1 = cc_drains c @ [n] \<and>
    cc_status c1 = (cc_status c)\<lparr>SuccessfulPods := SuccessfulPods (cc_status c) @ [bound_pod p h]\<rparr> \<and>
    cc_objects c1 = put_pod (bound_pod p h) (cc_objects c)"
proof -
  obtain st where st: "cc_Bind (pod_binding p h) n c =
      deferred ''fail'' (add_drain n (c\<lparr>cc_store := st,
        cc_status := (cc_status c)\<lparr>SuccessfulPods := SuccessfulPods (cc_status c) @ [bound_pod p h]\<rparr>\<rparr>))"
      "cc_good (c\<lparr>cc_store := st\<rparr>)" "rs_lookup (fst st) = put_pod (bound_pod p h) (cc_objects c)"
    using Bind_stored [OF assms(1,2)] by blast
  let ?c1 = "add_drain n (c\<lparr>cc_store := st,
        cc_status := (cc_status c)\<lparr>SuccessfulPods := SuccessfulPods (cc_status c) @ [bound_pod p h]\<rparr>\<rparr>)"
  have "cc_good ?c1" "open_channels ?c1" using st(2) assms(3) by (simp_all add: cc_good_def open_channels_def add_drain_def)
  from deferred_advanced [OF this, of "''fail''"] st(1,3) show ?thesis
    by - (rule exI [of _ ?c1], auto)
qed

lemma Update_advanced:
  assumes "cc_good c" "open_channels c"
  shows "\<exists>c1 c'. cc_Update p (fail_condition m) n c = (c', Ok ()) \<and> advanced ''Fail'' c1 c' \<and>
    cc_queue c1 = cc_queue c \<and> cc_recorders c1 = cc_recorders c \<and> cc_drains c1 = cc_drains c @ [n] \<and>
    cc_status c1 = (cc_status c)\<lparr>FailedPods := FailedPods (cc_status c) @ [failed_pod p m]\<rparr> \<and>
    cc_objects c1 = cc_objects c"
proof -
  let ?c1 = "add_drain n (c\<lparr>cc_status := (cc_status c)\<lparr>FailedPods := FailedPods (cc_status c) @ [failed_pod p m]\<rparr>\<rparr>)"
  have "cc_good ?c1" "open_channels ?c1" using assms by (simp_all add: cc_good_def open_channels_def add_drain_def)
  from deferred_advanced [OF this, of "''Fail''"] show ?thesis
    by - (rule exI [of _ ?c1], auto simp: Update_fail)
qed

section \<open>Preservation\<close>

lemma phase_in_flight:
  "phase_ok s outs \<Longrightarrow> in_flight s \<noteq> [] \<Longrightarrow>
     ss_pc s = Waiting \<and> open_channels (ss_cc s) \<and> length (in_flight s) = 1"
  by (cases "ss_pc s") (auto simp: phase_ok_def)

text \<open>A step that moves the pod in flight on without resolving it, or handles an event.\<close>

lemma sim_at_internal:
  assumes "sim_at n newPods sched L outs s" "events_ok n s'"
    and "ss_cc s' = (ss_cc s)\<lparr>cc_recorders := R, cc_drains := D\<rparr>"
    and "ss_pc s' = ss_pc s" "in_flight s' = in_flight s" "ss_retry s' = ss_retry s"
  shows "sim_at n newPods sched L outs s'"
proof -
  have same: "cc_good (ss_cc s') = cc_good (ss_cc s)" "stored (ss_cc s') = stored (ss_cc s)"
    "open_channels (ss_cc s') = open_channels (ss_cc s)" "finished (ss_cc s') = finished (ss_cc s)"
    "cc_stopSends (ss_cc s') = cc_stopSends (ss_cc s)" "cc_stopClosed (ss_cc s') = cc_stopClosed (ss_cc s)"
    "cc_queue (ss_cc s') = cc_queue (ss_cc s)" "cc_status (ss_cc s') = cc_status (ss_cc s)"
    "unscheduled (ss_cc s') = unscheduled (ss_cc s)" "cc_store (ss_cc s') = cc_store (ss_cc s)"
    using assms(3) by (simp_all add: unscheduled_def cc_good_def stored_def [abs_def] open_channels_def finished_def [abs_def])
  have "phase_ok s' outs = phase_ok s outs" "flow_ok newPods sched s' outs = flow_ok newPods sched s outs"
    "store_ok L s' outs = store_ok L s outs"
    by (simp_all add: phase_ok_def flow_ok_def store_ok_def same assms(4,5) split: run_pc.split)
  with assms same show ?thesis by (simp add: sim_at_def)
qed

text \<open>A step that resolves the pod in flight with the decision \<open>d\<close>.\<close>

lemma put_pod_again: "pod_key q = pod_key p \<Longrightarrow> put_pod q (put_pod p L) = put_pod q L"
  by (simp add: put_pod_def)

lemma settled_key [simp]: "pod_key (settled x) = pod_key (fst x)"
  by (cases x rule: settled.cases) (simp_all add: bound_pod_def)

lemma settle_snoc: "settle (outs @ [x]) L = put_pod (settled x) (settle outs L)"
  by (simp add: settle_def)

lemma sim_at_resolve:
  assumes inv: "sim_at n newPods sched L outs s" and una: "list_all unassignedNonTerminatedPod newPods"
    and fl: "in_flight s = [p]" and ev: "events_ok n s'"
    and adv: "advanced (if pod_failure (p, d) \<noteq> [] then ''Fail'' else ''fail'') c1 (ss_cc s')"
    and q: "cc_queue c1 = cc_queue (ss_cc s)"
    and succ: "SuccessfulPods (cc_status c1) = SuccessfulPods (cc_status (ss_cc s)) @ pod_success (p, d)"
    and failed: "FailedPods (cc_status c1) = FailedPods (cc_status (ss_cc s)) @ pod_failure (p, d)"
    and obs: "cc_objects c1 = put_pod (settled (p, d)) (cc_objects (ss_cc s))"
    and other: "ScheduledPods (cc_status c1) = ScheduledPods (cc_status (ss_cc s))"
      "ss_pc s' = ss_pc s" "in_flight s' = admitted (ss_cc s)" "ss_retry s' = ss_retry s"
  shows "sim_at n newPods sched L (outs @ [(p, d)]) s'"
proof -
  let ?outs = "outs @ [(p, d)]"
  have outs: "phase_ok s outs" "flow_ok newPods sched s outs" "store_ok L s outs" using inv by (auto simp: sim_at_def)
  have pc: "ss_pc s = Waiting" using phase_in_flight [OF outs(1)] fl by simp
  have rev: "map fst outs @ p # cc_pending (ss_cc s) = rev newPods"
    using outs(2) fl by (simp add: flow_ok_def)
  then have "set (cc_pending (ss_cc s)) \<subseteq> set newPods" by (metis set_rev set_append Un_upper2 set_subset_Cons subset_trans)
  with una have "list_all unassignedNonTerminatedPod (cc_pending (ss_cc s))" by (auto simp: list_all_iff)
  with other(3) q have fl': "in_flight s' = take 1 (cc_pending c1)" by (simp add: admitted_pending)
  have "flow_ok newPods sched s' ?outs"
    using adv rev q succ failed other(1) outs(2) unfolding flow_ok_def fl' by (simp add: advanced_def)
  moreover have "cc_objects c1 = settle ?outs L"
    using outs(3) fl obs by (simp add: store_ok_def settle_snoc put_pod_again)
  then have "store_ok L s' ?outs" using adv fl' by (simp add: store_ok_def advanced_def)
  moreover have "phase_ok s' ?outs"
  proof (cases "cc_pending c1")
    case Nil
    with adv have "finished (ss_cc s') ?outs" "cc_stopSends (ss_cc s') = 1" "\<not> cc_stopClosed (ss_cc s')"
      by (auto simp: advanced_def finished_def stop_text_def)
    with Nil fl' pc other(2) show ?thesis by (simp add: phase_ok_def)
  next
    case (Cons y ys)
    with adv have "open_channels (ss_cc s')" by (simp add: advanced_def)
    with Cons fl' pc other(2) show ?thesis by (simp add: phase_ok_def)
  qed
  ultimately show ?thesis
    using adv inv ev fl' other(4) unfolding sim_at_def by (auto simp: advanced_def)
qed

lemma record_event_Some:
  assumes "record_event n t r m c = Some c'" "map_of (cc_recorders c) n = Some e" "rec_bounded k e"
  shows "\<exists>e'. c' = c\<lparr>cc_recorders := AList.update n e' (cc_recorders c), cc_drains := cc_drains c\<rparr> \<and>
    rec_bounded k e' \<and> length (rec_items e') = Suc (length (rec_items e))"
  using assms
  by (auto simp: record_event_def rec_Eventf_iff rec_bounded_def rec_items_def split: if_splits)

lemma drain_event_Some:
  assumes "drain_event n c = Some c'" "map_of (cc_recorders c) n = Some e" "rec_bounded k e"
  shows "\<exists>e'. c' = c\<lparr>cc_recorders := AList.update n e' (cc_recorders c)\<rparr> \<and>
    rec_bounded k e' \<and> length (rec_items e) = Suc (length (rec_items e'))"
proof -
  from assms obtain ch x xs where ch: "Events e = Some ch" "ch_cap ch = k" "ch_items ch = x # xs"
      "length (ch_items ch) \<le> k"
      "c' = c\<lparr>cc_recorders := AList.update n (e\<lparr>Events := Some (ch\<lparr>ch_items := xs\<rparr>)\<rparr>) (cc_recorders c)\<rparr>"
    by (auto simp: drain_event_def chan_recv_def rec_bounded_def split: list.splits)
  then show ?thesis
    by (intro exI [of _ "e\<lparr>Events := Some (ch\<lparr>ch_items := xs\<rparr>)\<rparr>"]) (simp add: rec_bounded_def rec_items_def)
qed

lemma in_flight_task:
  assumes "sim_at n newPods sched L outs s" "ss_tasks s = a @ t # b" "task_pods t = [p]"
  shows "in_flight s = [p]" "ss_waiting s = []" "concat (map task_pods (a @ b)) = []"
    "open_channels (ss_cc s)" "stored (ss_cc s) p" "cc_good (ss_cc s)"
proof -
  define A B where AB: "A = concat (map task_pods a)" "B = concat (map task_pods b)"
  have fl: "in_flight s = ss_waiting s @ A @ p # B" using assms(2,3) by (simp add: in_flight_def AB)
  then have "in_flight s \<noteq> []" by simp
  with assms(1) phase_in_flight [of s] have len: "length (in_flight s) = 1" and op: "open_channels (ss_cc s)"
    by (auto simp: sim_at_def)
  from fl len show "in_flight s = [p]" "ss_waiting s = []" by simp_all
  from fl len have "A = []" "B = []" by simp_all
  then show "concat (map task_pods (a @ b)) = []" by (simp add: AB)
  show "open_channels (ss_cc s)" by (rule op)
  show "stored (ss_cc s) p" "cc_good (ss_cc s)" using assms(1) fl by (simp_all add: sim_at_def)
qed

lemma run_begin_none:
  "open_channels c \<Longrightarrow> cc_pending c = [] \<Longrightarrow> run_begin c = (close_all ''fail'' c, Returned)"
  using close_open [of c "''fail''"] by (simp add: run_begin_def nextPod_none)

lemma sim_at_start:
  assumes inv: "sim_at n newPods sched L outs s" and una: "list_all unassignedNonTerminatedPod newPods"
    and pc: "ss_pc s = NotStarted" and run: "run_begin (ss_cc s) = (c', pc')"
  shows "sim_at n newPods sched L outs (s\<lparr>ss_cc := c', ss_pc := pc',
    ss_waiting := ss_waiting s @ unscheduled (ss_cc s) @ admitted (ss_cc s)\<rparr>)"
    (is "sim_at _ _ _ _ _ ?s")
proof -
  let ?c = "ss_cc s"
  from inv pc have op: "open_channels ?c" and fl: "in_flight s = []" and outs: "outs = []"
    and flow: "flow_ok newPods sched s []" and old: "unscheduled ?c = []" and store: "cc_objects ?c = L"
    by (auto simp: sim_at_def phase_ok_def store_ok_def settle_def)
  then have pend: "cc_pending ?c = rev newPods" by (simp add: flow_ok_def)
  with una have adm: "admitted ?c = take 1 (cc_pending ?c)" by (intro admitted_pending) simp
  have fl': "in_flight ?s = take 1 (cc_pending ?c)" using fl adm old by (simp add: in_flight_def)
  show ?thesis
  proof (cases "cc_pending ?c")
    case Nil
    with run_begin_none [OF op] run have c': "c' = close_all ''fail'' ?c" "pc' = Returned" by simp_all
    have "phase_ok ?s []" using Nil fl' c' op by (simp add: phase_ok_def finished_def stop_text_def open_channels_def)
    moreover have "flow_ok newPods sched ?s []" using flow fl' Nil c' by (simp add: flow_ok_def pend)
    moreover have "events_ok n ?s" using inv c' by (simp add: sim_at_def events_ok_def)
    moreover have "store_ok L ?s []" using Nil fl' c' store by (simp add: store_ok_def settle_def)
    ultimately show ?thesis using inv Nil fl' c' outs by (auto simp: sim_at_def cc_good_def)
  next
    case (Cons p ps)
    from inv nextPod_more [OF _ Cons] obtain q st where
      "nextPod ?c = (?c\<lparr>cc_queue := q, cc_store := st\<rparr>, Ok ())" "pending_pods q = ps"
      "cc_good (?c\<lparr>cc_queue := q, cc_store := st\<rparr>)" "stored (?c\<lparr>cc_queue := q, cc_store := st\<rparr>) p"
      "rs_lookup (fst st) = put_pod p (cc_objects ?c)"
      by (auto simp: sim_at_def)
    with run have c': "c' = ?c\<lparr>cc_queue := q, cc_store := st\<rparr>" "pc' = Waiting"
      and q: "pending_pods q = ps" "cc_good c'" "stored c' p" "cc_objects c' = put_pod p L"
      using store by (auto simp: run_begin_def)
    have "phase_ok ?s []" using Cons fl' c' op by (simp add: phase_ok_def open_channels_def)
    moreover have "flow_ok newPods sched ?s []"
      using flow fl' Cons c' q(1) pend by (simp add: flow_ok_def)
    moreover have "events_ok n ?s" using inv c' by (simp add: sim_at_def events_ok_def)
    moreover have "store_ok L ?s []" using Cons fl' q(4) by (simp add: store_ok_def settle_def)
    ultimately show ?thesis using inv q Cons fl' outs by (auto simp: sim_at_def)
  qed
qed

lemma sim_at_stop:
  assumes "sim_at n newPods sched L outs s" "ss_pc s = Waiting" "cc_stopSends (ss_cc s) > 0"
  shows "sim_at n newPods sched L outs (s\<lparr>ss_cc := run_end (ss_cc s), ss_pc := Returned\<rparr>)" (is "sim_at _ _ _ _ _ ?s")
proof -
  have fl: "in_flight ?s = in_flight s" by (simp add: in_flight_def)
  from assms have outs: "phase_ok s outs" "flow_ok newPods sched s outs" "store_ok L s outs"
    by (auto simp: sim_at_def)
  with assms(2,3) have fin: "finished (ss_cc s) outs" "in_flight s = []" "cc_stopSends (ss_cc s) = 1"
    by (auto simp: phase_ok_def open_channels_def)
  have "phase_ok ?s outs" using fin fl by (simp add: phase_ok_def finished_def run_end_def)
  moreover have "flow_ok newPods sched ?s outs" using outs(2) fl by (simp add: flow_ok_def run_end_def)
  moreover have "events_ok n ?s" using assms(1) by (simp add: sim_at_def events_ok_def run_end_def)
  moreover have "store_ok L ?s outs" using outs(3) fl by (simp add: store_ok_def run_end_def)
  ultimately show ?thesis
    using assms(1) fl fin(2) by (auto simp: sim_at_def cc_good_def run_end_def)
qed

lemma set_env_simps [simp]:
  "in_flight (set_env e s) = in_flight s" "ss_pc (set_env e s) = ss_pc s" "ss_retry (set_env e s) = ss_retry s"
  "ss_tasks (set_env e s) = ss_tasks s" "open_channels (ss_cc (set_env e s)) = open_channels (ss_cc s)"
  "finished (ss_cc (set_env e s)) = finished (ss_cc s)" "stored (ss_cc (set_env e s)) = stored (ss_cc s)"
  "cc_stopSends (ss_cc (set_env e s)) = cc_stopSends (ss_cc s)"
  "cc_stopClosed (ss_cc (set_env e s)) = cc_stopClosed (ss_cc s)"
  "cc_queue (ss_cc (set_env e s)) = cc_queue (ss_cc s)" "cc_status (ss_cc (set_env e s)) = cc_status (ss_cc s)"
  "cc_recorders (ss_cc (set_env e s)) = cc_recorders (ss_cc s)" "cc_drains (ss_cc (set_env e s)) = cc_drains (ss_cc s)"
  "unscheduled (ss_cc (set_env e s)) = unscheduled (ss_cc s)" "cc_objects (ss_cc (set_env e s)) = cc_objects (ss_cc s)"
  by (simp_all add: set_env_def unscheduled_def in_flight_def open_channels_def finished_def [abs_def] stored_def [abs_def])

lemma sim_at_client:
  assumes "sim_at n newPods sched L outs s" "env_safe e" shows "sim_at n newPods sched L outs (set_env e s)"
proof -
  have "phase_ok (set_env e s) outs = phase_ok s outs"
    "flow_ok newPods sched (set_env e s) outs = flow_ok newPods sched s outs" "store_ok L (set_env e s) outs = store_ok L s outs"
    by (simp_all add: phase_ok_def flow_ok_def store_ok_def split: run_pc.split)
  moreover have "cc_good (ss_cc (set_env e s))"
    using assms by (simp add: sim_at_def cc_good_def set_env_def good_state_def)
  ultimately show ?thesis using assms(1) by (simp add: sim_at_def events_ok_def)
qed

text \<open>The events side of a call that spawns a drain.\<close>

lemma events_ok_call:
  assumes "events_ok n s" "cc_recorders c' = cc_recorders (ss_cc s)" "cc_drains c' = cc_drains (ss_cc s) @ [n]"
    and "list_all (\<lambda>t. \<not> is_reject t) ts"
    and "length (filter is_TBound ts) + length (filter is_TUpdate (ss_tasks s)) =
      Suc (length (filter is_TBound (ss_tasks s)) + length (filter is_TUpdate ts))"
  shows "events_ok n (s\<lparr>ss_cc := c', ss_waiting := w, ss_tasks := ts\<rparr>)"
  using assms by (auto simp: events_ok_def)

lemma sim_at_bind:
  assumes inv: "sim_at n newPods sched L outs s" and una: "list_all unassignedNonTerminatedPod newPods"
    and ts: "ss_tasks s = a @ TBind p h # b" and bind: "cc_Bind (pod_binding p h) n (ss_cc s) = (c', r)"
  shows "r = Ok () \<and> sim_at n newPods sched L (outs @ [(p, Inl h)])
    (s\<lparr>ss_cc := c', ss_waiting := ss_waiting s @ admitted (ss_cc s), ss_tasks := a @ TBound p h # b\<rparr>)"
    (is "_ \<and> sim_at _ _ _ _ _ ?s")
proof -
  note fl = in_flight_task [OF inv ts, of p, simplified]
  from Bind_advanced [OF fl(6,5,4), of h n] bind obtain c1 where r: "r = Ok ()" and
    c1: "advanced ''fail'' c1 c'" "cc_queue c1 = cc_queue (ss_cc s)" "cc_recorders c1 = cc_recorders (ss_cc s)"
      "cc_drains c1 = cc_drains (ss_cc s) @ [n]"
      "cc_status c1 = (cc_status (ss_cc s))\<lparr>SuccessfulPods := SuccessfulPods (cc_status (ss_cc s)) @ [bound_pod p h]\<rparr>"
      "cc_objects c1 = put_pod (bound_pod p h) (cc_objects (ss_cc s))"
    by auto
  have ev: "events_ok n ?s"
    by (rule events_ok_call)
      (use inv c1 ts in \<open>auto simp: sim_at_def advanced_def events_ok_def\<close>)
  have "sim_at n newPods sched L (outs @ [(p, Inl h)]) ?s"
    by (rule sim_at_resolve [OF inv una fl(1) ev, where d = "Inl h" and ?c1.0 = c1])
      (use c1 fl(2,3) in \<open>auto simp: pod_failure_def pod_success_def in_flight_def\<close>)
  with r show ?thesis by blast
qed

lemma sim_at_update:
  assumes inv: "sim_at n newPods sched L outs s" and una: "list_all unassignedNonTerminatedPod newPods"
    and ts: "ss_tasks s = a @ TUpdate p m # b" and upd: "cc_Update p (fail_condition m) n (ss_cc s) = (c', r)"
  shows "r = Ok () \<and> sim_at n newPods sched L (outs @ [(p, Inr m)])
    (s\<lparr>ss_cc := c', ss_waiting := ss_waiting s @ admitted (ss_cc s), ss_tasks := a @ b\<rparr>)"
    (is "_ \<and> sim_at _ _ _ _ _ ?s")
proof -
  note fl = in_flight_task [OF inv ts, of p, simplified]
  from Update_advanced [OF fl(6,4), of p m n] upd obtain c1 where r: "r = Ok ()" and
    c1: "advanced ''Fail'' c1 c'" "cc_queue c1 = cc_queue (ss_cc s)" "cc_recorders c1 = cc_recorders (ss_cc s)"
      "cc_drains c1 = cc_drains (ss_cc s) @ [n]"
      "cc_status c1 = (cc_status (ss_cc s))\<lparr>FailedPods := FailedPods (cc_status (ss_cc s)) @ [failed_pod p m]\<rparr>"
      "cc_objects c1 = cc_objects (ss_cc s)"
    by auto
  have ev: "events_ok n ?s"
    by (rule events_ok_call)
      (use inv c1 ts in \<open>auto simp: sim_at_def advanced_def events_ok_def\<close>)
  have "put_pod p (cc_objects (ss_cc s)) = cc_objects (ss_cc s)"
    using inv fl(1) by (simp add: sim_at_def store_ok_def put_pod_again)
  then have "sim_at n newPods sched L (outs @ [(p, Inr m)]) ?s"
    by (intro sim_at_resolve [OF inv una fl(1) ev, where d = "Inr m" and ?c1.0 = c1])
      (use c1 fl(2,3) in \<open>auto simp: pod_failure_def pod_success_def in_flight_def\<close>)
  with r show ?thesis by blast
qed

text \<open>Recording an event for the task \<open>t\<close>, which becomes \<open>ts\<close>.\<close>

lemma sim_at_record:
  assumes inv: "sim_at n newPods sched L outs s" and tasks: "ss_tasks s = a @ t # b"
    and rc: "record_event n ty re ms (ss_cc s) = Some c'"
    and ts: "concat (map task_pods ts) = task_pods t" "list_all (\<lambda>t. \<not> is_reject t) ts"
      "Suc (length (filter is_TBound ts) + length (filter is_TUpdate [t])) =
         length (filter is_TBound [t]) + length (filter is_TUpdate ts)"
  shows "sim_at n newPods sched L outs (s\<lparr>ss_cc := c', ss_tasks := a @ ts @ b\<rparr>)" (is "sim_at _ _ _ _ _ ?s")
proof -
  from inv obtain e where e: "map_of (cc_recorders (ss_cc s)) n = Some e" "rec_bounded 10 e"
    by (auto simp: sim_at_def events_ok_def)
  from record_event_Some [OF rc e] obtain e' where
    e': "c' = (ss_cc s)\<lparr>cc_recorders := AList.update n e' (cc_recorders (ss_cc s)), cc_drains := cc_drains (ss_cc s)\<rparr>"
      "rec_bounded 10 e'" "length (rec_items e') = Suc (length (rec_items e))" by blast
  have "events_ok n ?s"
    using inv e e' tasks ts(2,3)
    by (cases "is_TBound t"; cases "is_TUpdate t") (auto simp: sim_at_def events_ok_def)
  then show ?thesis
    by (rule sim_at_internal [OF inv, where R = "AList.update n e' (cc_recorders (ss_cc s))" and D = "cc_drains (ss_cc s)"])
      (use e'(1) tasks ts(1) in \<open>auto simp: in_flight_def\<close>)
qed

lemma sim_at_drain:
  assumes inv: "sim_at n newPods sched L outs s" and ds: "cc_drains (ss_cc s) = a @ m # b"
    and dr: "drain_event m (ss_cc s) = Some c'"
  shows "sim_at n newPods sched L outs (s\<lparr>ss_cc := c'\<lparr>cc_drains := a @ b\<rparr>\<rparr>)" (is "sim_at _ _ _ _ _ ?s")
proof -
  from inv ds obtain e where e: "map_of (cc_recorders (ss_cc s)) n = Some e" "rec_bounded 10 e" and m: "m = n"
    by (auto simp: sim_at_def events_ok_def)
  from drain_event_Some [OF dr [unfolded m] e] obtain e' where
    e': "c' = (ss_cc s)\<lparr>cc_recorders := AList.update n e' (cc_recorders (ss_cc s))\<rparr>"
      "rec_bounded 10 e'" "length (rec_items e) = Suc (length (rec_items e'))" by blast
  have "events_ok n ?s" using inv e e' ds by (auto simp: sim_at_def events_ok_def)
  then show ?thesis
    by (rule sim_at_internal [OF inv]) (use e'(1) in \<open>auto simp: in_flight_def\<close>)
qed

lemma sim_at_decide:
  assumes inv: "sim_at n newPods sched L outs s" and w: "ss_waiting s = p # w"
    and t: "task_pods t = [p]" "\<not> is_TBound t" "\<not> is_TUpdate t" "\<not> is_reject t"
  shows "sim_at n newPods sched L outs (s\<lparr>ss_waiting := w, ss_tasks := ss_tasks s @ [t]\<rparr>)" (is "sim_at _ _ _ _ _ ?s")
proof -
  from inv w phase_in_flight [of s] have "length (in_flight s) = 1"
    by (auto simp: sim_at_def in_flight_def)
  then have "w = []" "concat (map task_pods (ss_tasks s)) = []" using w by (simp_all add: in_flight_def)
  then have "in_flight ?s = in_flight s" using w t(1) unfolding in_flight_def by (simp del: concat_eq_Nil_conv)
  moreover have "events_ok n ?s" using inv t by (auto simp: sim_at_def events_ok_def)
  ultimately show ?thesis
    by (intro sim_at_internal [OF inv, where s' = ?s and R = "cc_recorders (ss_cc s)" and D = "cc_drains (ss_cc s)"]) simp_all
qed

text \<open>The decision a task carries out, until it is recorded.\<close>

fun task_decision :: "task \<Rightarrow> (pod \<times> decision) list" where
  "task_decision (TBind p h) = [(p, Inl h)]"
| "task_decision (TFail p m) = [(p, Inr m)]"
| "task_decision (TUpdate p m) = [(p, Inr m)]"
| "task_decision _ = []"

definition taken :: "sim_sys \<Rightarrow> (pod \<times> decision) list" where
  "taken s = concat (map task_decision (ss_tasks s))"

lemma task_decision_pods: "map fst (task_decision t) = task_pods t"
  by (cases t) simp_all

lemma no_decision: "concat (map task_pods ts) = [] \<Longrightarrow> concat (map task_decision ts) = []"
  by (simp flip: task_decision_pods)

text \<open>
  A step keeps the invariant; it extends what is decided by at most one pod, and only the scheduler's
  choice, which takes a pod from the queue, adds to the decisions taken.
\<close>

definition step_result :: "string \<Rightarrow> pod list \<Rightarrow> pod list \<Rightarrow> (resource_type \<Rightarrow> string \<Rightarrow> obj option) \<Rightarrow>
    (pod \<times> decision) list \<Rightarrow> sim_sys \<Rightarrow> sim_sys \<Rightarrow> bool" where
  "step_result n newPods sched L outs s s' =
     (\<exists>outs'. sim_at n newPods sched L outs' s' \<and> (outs' = outs \<or> (\<exists>x. outs' = outs @ [x])) \<and>
        (length (ss_waiting s) \<le> length (ss_waiting s') \<longrightarrow> outs' @ taken s' = outs @ taken s))"

lemma step_resultI:
  assumes "sim_at n newPods sched L outs s'" "length (ss_waiting s') < length (ss_waiting s) \<or> taken s' = taken s"
  shows "step_result n newPods sched L outs s s'"
  using assms by (auto simp: step_result_def)

lemma step_result_resolve:
  assumes "sim_at n newPods sched L (outs @ [x]) s'" "taken s = [x]" "taken s' = []"
  shows "step_result n newPods sched L outs s s'"
  using assms by (auto simp: step_result_def)

lemma taken_task:
  assumes "sim_at n newPods sched L outs s" "ss_tasks s = a @ t # b" "task_pods t = [p]"
  shows "concat (map task_decision a) = []" "concat (map task_decision b) = []"
  using no_decision [OF in_flight_task(3) [OF assms]] by simp_all

lemma sim_at_step:
  assumes "sim_step n s s'" "sim_at n newPods sched L outs s" "list_all unassignedNonTerminatedPod newPods"
  shows "step_result n newPods sched L outs s s'"
  using assms
proof (cases rule: sim_step.cases)
  case (bound_event a p h b c')
  from sim_at_record [OF assms(2) bound_event(2,3), of "[]"] show ?thesis
    by (intro step_resultI) (simp_all add: bound_event(1,2) taken_def)
next
  case (fail_event a p m b c')
  from sim_at_record [OF assms(2) fail_event(2,3), of "[TUpdate p m]"] show ?thesis
    by (intro step_resultI) (simp_all add: fail_event(1,2) taken_def)
next
  case (bind_err a p h b c' e)
  with sim_at_bind [OF assms(2,3)] show ?thesis by blast
next
  case (bind_crash a p h b c' x)
  with sim_at_bind [OF assms(2,3)] show ?thesis by blast
next
  case (update_crash a p m b c' x)
  with sim_at_update [OF assms(2,3)] show ?thesis by blast
next
  case (reject_event a p e b c')
  with assms(2) show ?thesis by (simp add: sim_at_def events_ok_def)
next
  case (reject_update a p b c')
  with assms(2) show ?thesis by (simp add: sim_at_def events_ok_def)
next
  case (start c' pc')
  from sim_at_start [OF assms(2,3) start(2,3)] show ?thesis
    by (intro step_resultI) (simp_all add: start(1) taken_def)
next
  case (decide_bind p w h)
  from sim_at_decide [OF assms(2) decide_bind(2), of "TBind p h"] show ?thesis
    by (intro step_resultI) (simp_all add: decide_bind(1,2))
next
  case (decide_fail p w m)
  from sim_at_decide [OF assms(2) decide_fail(2), of "TFail p m"] show ?thesis
    by (intro step_resultI) (simp_all add: decide_fail(1,2))
next
  case (bind_ok a p h b c')
  from sim_at_bind [OF assms(2,3) bind_ok(2,3)] taken_task [OF assms(2) bind_ok(2), of p] show ?thesis
    by (intro step_result_resolve [where x = "(p, Inl h)"]) (simp_all add: bind_ok(1,2) taken_def del: concat_eq_Nil_conv)
next
  case (update_ok a p m b c')
  from sim_at_update [OF assms(2,3) update_ok(2,3)] taken_task [OF assms(2) update_ok(2), of p] show ?thesis
    by (intro step_result_resolve [where x = "(p, Inr m)"]) (simp_all add: update_ok(1,2) taken_def del: concat_eq_Nil_conv)
next
  case (drain a m b c')
  from sim_at_drain [OF assms(2) drain(2,3)] show ?thesis
    by (intro step_resultI) (simp_all add: drain(1) taken_def)
next
  case stop
  from sim_at_stop [OF assms(2) stop(2,3)] show ?thesis
    by (intro step_resultI) (simp_all add: stop(1) taken_def)
qed

corollary sim_inv_step:
  assumes "sim_step n s s'" "sim_inv n newPods sched L s" "list_all unassignedNonTerminatedPod newPods"
  shows "sim_inv n newPods sched L s'"
  using assms sim_at_step by (fastforce simp: sim_inv_def step_result_def)

corollary sim_reach_inv:
  assumes "sim_reach n s0 s" "sim_inv n newPods sched L s0" "list_all unassignedNonTerminatedPod newPods"
  shows "sim_inv n newPods sched L s"
  using assms
proof (induction rule: sim_reach.induct)
  case (reach_client s s')
  then show ?case by (auto simp: sim_inv_def elim!: client_step.cases intro: sim_at_client)
qed (auto intro: sim_inv_step)

lemma sim_inv_bind:
  assumes "sim_inv n newPods sched L s" "list_all unassignedNonTerminatedPod newPods" "ss_tasks s = a @ TBind p h # b"
    and "cc_Bind (pod_binding p h) n (ss_cc s) = (c', r)"
  shows "r = Ok ()"
  using assms sim_at_bind by (fastforce simp: sim_inv_def)

lemma sim_inv_update:
  assumes "sim_inv n newPods sched L s" "list_all unassignedNonTerminatedPod newPods" "ss_tasks s = a @ TUpdate p m # b"
    and "cc_Update p (fail_condition m) n (ss_cc s) = (c', r)"
  shows "r = Ok ()"
  using assms sim_at_update by (fastforce simp: sim_inv_def)

section \<open>Progress and termination\<close>

text \<open>Nothing is left to do: \<open>Run\<close> returned, no task, no drain waits.\<close>

definition sim_done :: "sim_sys \<Rightarrow> bool" where
  "sim_done s = (ss_pc s = Returned \<and> ss_waiting s = [] \<and> ss_tasks s = [] \<and> cc_drains (ss_cc s) = [])"

lemma record_event_enabled:
  assumes "map_of (cc_recorders c) n = Some e" "rec_bounded k e" "length (rec_items e) < k"
  shows "\<exists>c'. record_event n t r m c = Some c'"
  using assms by (simp add: record_event_def rec_Eventf_iff)

lemma drain_event_enabled:
  assumes "map_of (cc_recorders c) n = Some e" "rec_bounded k e" "rec_items e \<noteq> []"
  shows "\<exists>c'. drain_event n c = Some c'"
  using assms
  by (auto simp: drain_event_def rec_bounded_def rec_items_def chan_recv_def split: list.splits)

text \<open>When the recorder's channel is full, a drain is waiting: no send blocks for ever.\<close>

lemma full_channel_drains:
  assumes inv: "sim_inv n newPods sched L s" and e: "map_of (cc_recorders (ss_cc s)) n = Some e"
    and full: "length (rec_items e) \<noteq> 0" "length (filter is_TUpdate (ss_tasks s)) < length (rec_items e)"
  shows "\<exists>s'. sim_step n s s'"
proof -
  from inv e have "length (cc_drains (ss_cc s)) \<noteq> 0" "rec_bounded 10 e" "set (cc_drains (ss_cc s)) \<subseteq> {n}"
    using full by (auto simp: sim_inv_def sim_at_def events_ok_def)
  then obtain b where b: "cc_drains (ss_cc s) = [] @ n # b" by (cases "cc_drains (ss_cc s)") auto
  obtain c' where "drain_event n (ss_cc s) = Some c'"
    using drain_event_enabled [OF e \<open>rec_bounded 10 e\<close>] full(1) by auto
  from sim_step.drain [where n = n, OF b this] show ?thesis by blast
qed

lemma TUpdate_in_flight:
  assumes "sim_inv n newPods sched L s" shows "length (filter is_TUpdate (ss_tasks s)) \<le> 1"
proof -
  have "length (filter is_TUpdate ts) \<le> length (concat (map task_pods ts))" for ts
  proof (induction ts)
    case (Cons t ts)
    then show ?case by (cases t) auto
  qed simp
  from this [of "ss_tasks s"] have "length (filter is_TUpdate (ss_tasks s)) \<le> length (in_flight s)"
    by (simp add: in_flight_def)
  moreover have "length (in_flight s) \<le> 1"
    using assms phase_in_flight [of s] by (cases "in_flight s = []") (auto simp: sim_inv_def sim_at_def)
  ultimately show ?thesis by linarith
qed

lemma task_enabled:
  assumes inv: "sim_inv n newPods sched L s" and t: "ss_tasks s = t # b"
    and una: "list_all unassignedNonTerminatedPod newPods"
  shows "\<exists>s'. sim_step n s s'"
proof -
  from inv obtain e where e: "map_of (cc_recorders (ss_cc s)) n = Some e" "rec_bounded 10 e"
      "\<not> is_reject t"
    using t by (auto simp: sim_inv_def sim_at_def events_ok_def)
  have ts: "ss_tasks s = [] @ t # b" using t by simp
  have event: "(\<exists>s'. sim_step n s s') \<or> (\<forall>ty r m. \<exists>c'. record_event n ty r m (ss_cc s) = Some c')"
  proof (cases "length (rec_items e) < 10")
    case True
    with record_event_enabled [OF e(1,2)] show ?thesis by blast
  next
    case False
    with TUpdate_in_flight [OF inv] show ?thesis
      by (intro disjI1 full_channel_drains [OF inv e(1)]) linarith+
  qed
  show ?thesis
  proof (cases t)
    case (TBind p h)
    obtain c' r where "cc_Bind (pod_binding p h) n (ss_cc s) = (c', r)" by fastforce
    with sim_inv_bind [OF inv una ts [unfolded TBind] this] sim_step.bind_ok [OF ts [unfolded TBind]]
    show ?thesis by blast
  next
    case (TUpdate p m)
    obtain c' r where "cc_Update p (fail_condition m) n (ss_cc s) = (c', r)" by fastforce
    with sim_inv_update [OF inv una ts [unfolded TUpdate] this] sim_step.update_ok [OF ts [unfolded TUpdate]]
    show ?thesis by blast
  next
    case (TBound p h)
    with event sim_step.bound_event [OF ts [unfolded TBound]] show ?thesis by blast
  next
    case (TFail p m)
    with event sim_step.fail_event [OF ts [unfolded TFail]] show ?thesis by blast
  qed (use e(3) in simp_all)
qed

theorem sim_progress:
  assumes inv: "sim_inv n newPods sched L s" and una: "list_all unassignedNonTerminatedPod newPods"
  shows "sim_done s \<or> (\<exists>s'. sim_step n s s')"
proof (cases "ss_tasks s")
  case (Cons t b)
  with task_enabled [OF inv _ una] show ?thesis by blast
next
  case Nil
  from inv obtain outs where ph: "phase_ok s outs" by (auto simp: sim_inv_def sim_at_def)
  show ?thesis
  proof (cases "ss_waiting s")
    case (Cons p w)
    with sim_step.decide_fail show ?thesis by blast
  next
    case wNil: Nil
    show ?thesis
    proof (cases "ss_pc s")
      case NotStarted
      obtain c' pc' where "run_begin (ss_cc s) = (c', pc')" by fastforce
      with sim_step.start [OF NotStarted] show ?thesis by blast
    next
      case Waiting
      with ph Nil wNil have "cc_stopSends (ss_cc s) > 0" by (auto simp: phase_ok_def in_flight_def)
      with sim_step.stop [OF Waiting] show ?thesis by blast
    next
      case Returned
      show ?thesis
      proof (cases "cc_drains (ss_cc s)")
        case dNil: Nil
        with Returned Nil wNil show ?thesis by (simp add: sim_done_def)
      next
        case (Cons d ds)
        from inv obtain e where e: "map_of (cc_recorders (ss_cc s)) n = Some e" by (auto simp: sim_inv_def sim_at_def events_ok_def)
        with inv Cons Nil have "length (rec_items e) \<noteq> 0" by (auto simp: sim_inv_def sim_at_def events_ok_def)
        with full_channel_drains [OF inv e] Nil show ?thesis by simp
      qed
    qed (use ph in \<open>simp add: phase_ok_def\<close>)
  qed
qed

text \<open>The steps a pod can still cause: six while it is queued, fewer as it moves on.\<close>

fun task_weight :: "task \<Rightarrow> nat" where
  "task_weight (TBind p h) = 4"
| "task_weight (TBound p h) = 1"
| "task_weight (TFail p m) = 4"
| "task_weight (TUpdate p m) = 3"
| "task_weight (TReject p e) = 2"
| "task_weight (TRejected p) = 1"

definition sim_measure :: "sim_sys \<Rightarrow> nat" where
  "sim_measure s =
     6 * length (cc_pending (ss_cc s)) + 5 * length (ss_waiting s) +
     sum_list (map task_weight (ss_tasks s)) + length (cc_drains (ss_cc s)) +
     (case ss_pc s of NotStarted \<Rightarrow> 2 | Waiting \<Rightarrow> 1 | Returned \<Rightarrow> 0 | Crashed \<Rightarrow> 0)"

lemma Pop_pending: "PodQueue_Pop q = (x, q') \<Longrightarrow> pending_pods q' = tl (pending_pods q)"
  using pq.pop_Nil [of q] pq.pop_Cons [of q] by (cases "pending_pods q") auto

lemma admitted_length: "length (admitted c) + length (tl (cc_pending c)) \<le> length (cc_pending c)"
  using pq.pop_None_iff [of "cc_queue c"] by (cases "cc_pending c") (auto simp: admitted_def split: option.split)

lemma nextPod_queue: "nextPod c = (c', r) \<Longrightarrow> cc_pending c' = tl (cc_pending c) \<and> cc_drains c' = cc_drains c"
  by (auto simp: nextPod_def Pop_pending split: prod.splits option.splits)

lemma Close_queue: "cc_Close c = (c', r) \<Longrightarrow> cc_queue c' = cc_queue c \<and> cc_drains c' = cc_drains c"
  by (auto simp: cc_Close_def split: if_splits)

lemma deferred_queue:
  assumes "deferred pre c = (c', r)"
  shows "cc_pending c' = tl (cc_pending c) \<and> cc_drains c' = cc_drains c"
proof -
  obtain c1 r1 where n: "nextPod c = (c1, r1)" by fastforce
  obtain c2 r2 where k: "cc_Close (set_StopReason pre x c1) = (c2, r2)" if "r1 = Err x" for x
    by (metis surj_pair outcome.inject(2))
  from assms n nextPod_queue [OF n] show ?thesis
    using k Close_queue [of "set_StopReason pre (case r1 of Err x \<Rightarrow> x) c1" c2 r2]
    by (cases r1) (auto simp: deferred_def set_StopReason_def split: outcome.splits if_splits)
qed

lemma Bind_queue:
  assumes "cc_Bind bd n c = (c', r)"
  shows "r \<noteq> Ok () \<and> cc_pending c' = cc_pending c \<and> cc_drains c' = cc_drains c \<or>
    cc_pending c' = tl (cc_pending c) \<and> cc_drains c' = cc_drains c @ [n]"
  using assms
  by (auto simp: cc_Bind_def Let_def split: outcome.splits option.splits obj.splits prod.splits
      dest!: deferred_queue)

lemma Update_queue:
  assumes "cc_Update p cond n c = (c', r)"
  shows "if condition_stops cond then cc_pending c' = tl (cc_pending c) \<and> cc_drains c' = cc_drains c @ [n]
    else c' = c"
  using assms by (auto simp: cc_Update_def Let_def split: if_splits dest!: deferred_queue)

lemma run_begin_queue:
  assumes "run_begin c = (c', pc')"
  shows "cc_pending c' = tl (cc_pending c) \<and> cc_drains c' = cc_drains c \<and> pc' \<noteq> NotStarted"
proof -
  obtain c1 r1 where n: "nextPod c = (c1, r1)" by fastforce
  from assms n nextPod_queue [OF n] show ?thesis
    by (cases r1)
      (auto simp: run_begin_def set_StopReason_def split: outcome.splits prod.splits dest!: Close_queue)
qed

lemma record_event_queue:
  "record_event n t r m c = Some c' \<Longrightarrow> cc_queue c' = cc_queue c \<and> cc_drains c' = cc_drains c"
  by (auto simp: record_event_def split: option.splits)

lemma drain_event_queue: "drain_event n c = Some c' \<Longrightarrow> cc_queue c' = cc_queue c"
  by (auto simp: drain_event_def split: option.splits)

lemma fail_condition_stops [simp]: "condition_stops (fail_condition m)" "\<not> condition_stops reject_condition"
  by (simp_all add: condition_stops_def fail_condition_def reject_condition_def)

lemma length_tl_le: "length (tl xs) \<le> length xs" by simp

text \<open>Every step of the system spends some of the measure.\<close>

lemma sim_step_measure:
  "sim_step n s s' \<Longrightarrow> (ss_pc s = NotStarted \<Longrightarrow> unscheduled (ss_cc s) = []) \<Longrightarrow> sim_measure s' < sim_measure s"
proof (induction rule: sim_step.induct)
  case (start s c' pc')
  with run_begin_queue [OF start(2)] admitted_length [of "ss_cc s"] show ?case
    by (cases pc') (simp_all add: sim_measure_def)
next
  case (bind_ok s a p h b c')
  with Bind_queue [OF bind_ok(2)] admitted_length [of "ss_cc s"] show ?case by (simp add: sim_measure_def)
next
  case (bind_err s a p h b c' e)
  with Bind_queue [OF bind_err(2)] show ?case by (auto simp: sim_measure_def)
next
  case (bind_crash s a p h b c' x)
  with Bind_queue [OF bind_crash(2)] show ?case by (auto simp: sim_measure_def)
next
  case (update_ok s a p m b c')
  with Update_queue [OF update_ok(2)] admitted_length [of "ss_cc s"] show ?case by (simp add: sim_measure_def)
next
  case (update_crash s a p m b c' x)
  with Update_queue [OF update_crash(2)] show ?case by (auto simp: sim_measure_def)
next
  case (reject_update s a p b c')
  with Update_queue [OF reject_update(2)] show ?case by (simp add: sim_measure_def)
next
  case (bound_event s a p h b c')
  with record_event_queue [OF bound_event(2)] show ?case by (simp add: sim_measure_def)
next
  case (fail_event s a p m b c')
  with record_event_queue [OF fail_event(2)] show ?case by (simp add: sim_measure_def)
next
  case (reject_event s a p e b c')
  with record_event_queue [OF reject_event(2)] show ?case by (simp add: sim_measure_def)
next
  case (drain s a m b c')
  with drain_event_queue [OF drain(2)] show ?case by (simp add: sim_measure_def)
qed (simp_all add: sim_measure_def run_end_def)

lemma sim_inv_measure: "sim_inv n newPods sched L s \<Longrightarrow> sim_step n s s' \<Longrightarrow> sim_measure s' < sim_measure s"
  by (rule sim_step_measure) (auto simp: sim_inv_def sim_at_def phase_ok_def)

lemma sim_steps_bounded:
  assumes "sim_inv n newPods sched L s" "list_all unassignedNonTerminatedPod newPods" "(sim_step n ^^ k) s s'"
  shows "sim_inv n newPods sched L s' \<and> k + sim_measure s' \<le> sim_measure s"
  using assms(3)
proof (induction k arbitrary: s')
  case (Suc k)
  then obtain s1 where s1: "(sim_step n ^^ k) s s1" "sim_step n s1 s'" by auto
  from Suc.IH [OF s1(1)] sim_inv_measure [OF _ s1(2)] sim_inv_step [OF s1(2) _ assms(2)] show ?case by fastforce
qed (use assms(1) in simp)

text \<open>From every reachable state the run can be finished.\<close>

lemma sim_can_finish:
  assumes "sim_inv n newPods sched L s" "list_all unassignedNonTerminatedPod newPods"
  shows "\<exists>s'. (sim_step n)\<^sup>*\<^sup>* s s' \<and> sim_done s' \<and> sim_inv n newPods sched L s'"
  using assms
proof (induction "sim_measure s" arbitrary: s rule: less_induct)
  case less
  show ?case
  proof (cases "sim_done s")
    case False
    with sim_progress [OF less.prems] obtain s1 where s1: "sim_step n s s1" by blast
    from less.hyps [OF sim_inv_measure [OF less.prems(1) s1] sim_inv_step [OF s1 less.prems]] less.prems(2) obtain s' where
      "(sim_step n)\<^sup>*\<^sup>* s1 s'" "sim_done s'" "sim_inv n newPods sched L s'" by blast
    with s1 show ?thesis by (meson converse_rtranclp_into_rtranclp)
  qed (use less.prems in blast)
qed

section \<open>What a finished run reports\<close>

definition final_status :: "(pod \<times> decision) list \<Rightarrow> pod list \<Rightarrow> status" where
  "final_status outs scheduledPods =
     \<lparr>SuccessfulPods = concat (map pod_success outs), FailedPods = concat (map pod_failure outs),
      ScheduledPods = scheduledPods, StopReason = stop_text outs\<rparr>"

lemma sim_at_returned:
  assumes "sim_at n newPods sched L outs s" "ss_pc s = Returned"
  shows "map fst outs = rev newPods \<and> cc_status (ss_cc s) = final_status outs sched \<and>
    cc_objects (ss_cc s) = settle outs L"
proof -
  have "SuccessfulPods (cc_status (ss_cc s)) = concat (map pod_success outs)"
    "FailedPods (cc_status (ss_cc s)) = concat (map pod_failure outs)"
    "ScheduledPods (cc_status (ss_cc s)) = sched" "StopReason (cc_status (ss_cc s)) = stop_text outs"
    "map fst outs = rev newPods" "in_flight s = []"
    using assms by (auto simp: sim_at_def phase_ok_def flow_ok_def finished_def)
  then show ?thesis
    using assms(1) by (auto simp: sim_at_def store_ok_def final_status_def intro!: status.equality)
qed

lemma returned_result:
  assumes "sim_inv n newPods sched L s" "ss_pc s = Returned"
  shows "\<exists>outs. map fst outs = rev newPods \<and> cc_status (ss_cc s) = final_status outs sched \<and>
    cc_objects (ss_cc s) = settle outs L"
  using assms sim_at_returned unfolding sim_inv_def by blast

lemma outs_lengths:
  "length (concat (map pod_success outs)) + length (concat (map pod_failure outs)) = length outs"
  by (induction outs) (auto simp: pod_success_def pod_failure_def split: sum.split)

end
