(* ===== verification/Simulation_Start.thy ===== *)
theory Simulation_Start
  imports Simulation_Flow
begin

text \<open>
  From \<open>New\<close> to the report.  \<open>New\<close> establishes the run's invariant: the store holds
  exactly the given nodes and pods, the handlers are registered and nothing has been served.  With
  \<open>Simulation_Flow\<close> this gives the outcome of a whole simulation.
\<close>

section \<open>The empty cluster\<close>

lemma Resources_New: "Resources NewResourceStore = [Pods, PersistentVolumeClaims, Nodes, PersistentVolumes, Services]"
  by (simp add: Resources_def NewResourceStore_def)

lemma register_handlers_simps [simp]:
  "resourceToCache (register_handlers enc s) = resourceToCache s"
  "Resources (register_handlers enc s) = Resources s"
  by (simp_all add: register_handlers_def fold_register Resources_def)

lemma register_handlers_only:
  "eventHandler s = [] \<Longrightarrow> (rt, h) \<in> set (eventHandler (register_handlers enc s)) \<Longrightarrow> h = sim_handler enc rt"
  using set_fold_update [of rt h "sim_handler enc" "Resources s" "eventHandler s"]
  by (simp add: register_handlers_def fold_register)

lemma sim_handlers_safe:
  assumes "enc_total enc f" "eventHandler s = []"
  shows "handlers_safe env_safe (register_handlers enc s)"
  using emit_handler_safe [OF assms(1)] register_handlers_only [OF assms(2)]
  by (fastforce simp: handlers_safe_def sim_handler_def)

lemma initial_cc_simps [simp]:
  "fst (cc_store (initial_cc enc newPods)) = register_handlers enc NewResourceStore"
  "cc_status (initial_cc enc newPods) = empty_status" "cc_queue (initial_cc enc newPods) = NewPodQueue newPods"
  "cc_drains (initial_cc enc newPods) = []" "open_channels (initial_cc enc newPods)"
  "cc_informerClosed (initial_cc enc newPods) = False" "cc_closed (initial_cc enc newPods) = False"
  "cc_stopSends (initial_cc enc newPods) = 0" "cc_stopClosed (initial_cc enc newPods) = False"
  by (simp_all add: initial_cc_def NewRESTClient_def open_channels_def)

lemma initial_env_safe: "env_safe (snd (cc_store (initial_cc enc newPods)))"
  by (auto simp: initial_cc_def NewRESTClient_def env_safe_def)

lemma initial_good:
  assumes "enc_total enc f" shows "good_state env_safe (cc_store (initial_cc enc newPods))"
proof -
  have "rs_wf (register_handlers enc NewResourceStore)"
    using rs_inv_new unfolding rs_inv_def rs_wf_def register_handlers_simps by blast
  moreover have "eventHandler (NewResourceStore :: watch_env resource_store) = []" by (simp add: NewResourceStore_def)
  ultimately show ?thesis
    using sim_handlers_safe [OF assms] initial_env_safe by (simp add: good_state_def)
qed

section \<open>Loading the cluster\<close>

definition node_key :: "node \<Rightarrow> string" where
  "node_key x =
     (if om_Namespace (node_meta x) = [] then om_Name (node_meta x)
      else om_Namespace (node_meta x) @ ''/'' @ om_Name (node_meta x))"

lemma obj_key_NodeO [simp]: "obj_key (NodeO x) = Some (node_key x)"
  by (simp add: obj_key_meta node_key_def)

definition loaded_nodes :: "node list \<Rightarrow> (string \<Rightarrow> obj option) \<Rightarrow> string \<Rightarrow> obj option" where
  "loaded_nodes xs m = fold (\<lambda>x m. m(node_key x \<mapsto> NodeO x)) xs m"

definition loaded_pods :: "pod list \<Rightarrow> (string \<Rightarrow> obj option) \<Rightarrow> string \<Rightarrow> obj option" where
  "loaded_pods ps m = fold (\<lambda>p m. m(pod_key p \<mapsto> PodO p)) ps m"

text \<open>The state of a store that is good and knows the five types.\<close>

definition five_types :: "watch_env rs_state \<Rightarrow> bool" where
  "five_types st =
     (good_state env_safe st \<and>
      Resources (fst st) = [Pods, PersistentVolumeClaims, Nodes, PersistentVolumes, Services])"

lemma add_nodes_ok:
  assumes "five_types (cc_store c)"
  shows "\<exists>st. add_nodes xs c = (c\<lparr>cc_store := st\<rparr>, Ok ()) \<and> five_types st \<and>
    rs_lookup (fst st) = (rs_lookup (fst (cc_store c)))
      (Nodes := loaded_nodes xs (rs_lookup (fst (cc_store c)) Nodes))"
  using assms
proof (induction xs arbitrary: c)
  case Nil
  then show ?case by (intro exI [of _ "cc_store c"]) (simp add: loaded_nodes_def)
next
  case (Cons x xs)
  obtain st r where st: "rs_Add Nodes (NodeO x) (cc_store c) = (st, r)" by fastforce
  with rsa.write_ok [of env_safe "cc_store c" Nodes "NodeO x" "node_key x"] Cons.prems
  have st': "r = Ok ()" "five_types st" "rs_lookup (fst st) =
      (rs_lookup (fst (cc_store c)))(Nodes := (rs_lookup (fst (cc_store c)) Nodes)(node_key x \<mapsto> NodeO x))"
    by (auto simp: five_types_def)
  let ?c = "c\<lparr>cc_store := st\<rparr>"
  have "five_types (cc_store ?c)" "cc_store ?c = st" using st'(2) by simp_all
  with Cons.IH [of ?c] obtain st2 where
    "add_nodes xs ?c = (?c\<lparr>cc_store := st2\<rparr>, Ok ())" "five_types st2"
    "rs_lookup (fst st2) = (rs_lookup (fst st))(Nodes := loaded_nodes xs (rs_lookup (fst st) Nodes))" by metis
  with st st' show ?case by (intro exI [of _ st2]) (simp add: loaded_nodes_def)
qed

lemma add_pods_ok:
  assumes "five_types (cc_store c)"
  shows "\<exists>st. add_pods ps c = (c\<lparr>cc_store := st,
      cc_status := (cc_status c)\<lparr>ScheduledPods := ScheduledPods (cc_status c) @ ps\<rparr>\<rparr>, Ok ()) \<and> five_types st \<and>
    rs_lookup (fst st) = (rs_lookup (fst (cc_store c)))
      (Pods := loaded_pods ps (rs_lookup (fst (cc_store c)) Pods))"
  using assms
proof (induction ps arbitrary: c)
  case Nil
  then show ?case by (intro exI [of _ "cc_store c"]) (simp add: loaded_pods_def)
next
  case (Cons p ps)
  obtain st r where st: "rs_Add Pods (PodO p) (cc_store c) = (st, r)" by fastforce
  with rsa.write_ok [of env_safe "cc_store c" Pods "PodO p" "pod_key p"] Cons.prems
  have st': "r = Ok ()" "five_types st" "rs_lookup (fst st) =
      (rs_lookup (fst (cc_store c)))(Pods := (rs_lookup (fst (cc_store c)) Pods)(pod_key p \<mapsto> PodO p))"
    by (auto simp: five_types_def)
  let ?c = "AddScheduledPods p (c\<lparr>cc_store := st\<rparr>)"
  have "five_types (cc_store ?c)" "cc_store ?c = st" using st'(2) by (simp_all add: AddScheduledPods_def)
  with Cons.IH [of ?c] obtain st2 where
    "add_pods ps ?c = (?c\<lparr>cc_store := st2,
      cc_status := (cc_status ?c)\<lparr>ScheduledPods := ScheduledPods (cc_status ?c) @ ps\<rparr>\<rparr>, Ok ())" "five_types st2"
    "rs_lookup (fst st2) = (rs_lookup (fst st))(Pods := loaded_pods ps (rs_lookup (fst st) Pods))"
    by metis
  with st st' show ?case
    by (intro exI [of _ st2]) (simp add: loaded_pods_def AddScheduledPods_def)
qed

text \<open>With distinct keys every object is found under its own.\<close>

lemma fold_upd_other:
  "k \<notin> key ` set xs \<Longrightarrow> fold (\<lambda>x m. m(key x \<mapsto> g x)) xs m k = m k"
  by (induction xs arbitrary: m) auto

lemma fold_upd_member:
  "distinct (map key xs) \<Longrightarrow> x \<in> set xs \<Longrightarrow> fold (\<lambda>x m. m(key x \<mapsto> g x)) xs m (key x) = Some (g x)"
  by (induction xs arbitrary: m) (auto simp: fold_upd_other)

section \<open>Construction\<close>

text \<open>The checkpoint holds pods that have their node already (or are over).\<close>

definition assigned :: "pod list \<Rightarrow> bool" where
  "assigned pods = list_all (\<lambda>p. \<not> unassignedNonTerminatedPod p) pods"

text \<open>The store \<open>New\<close> fills.\<close>

definition initial_objects :: "pod list \<Rightarrow> node list \<Rightarrow> resource_type \<Rightarrow> string \<Rightarrow> obj option" where
  "initial_objects pods nodes =
     (\<lambda>_. Map.empty)(Nodes := loaded_nodes nodes Map.empty, Pods := loaded_pods pods Map.empty)"

lemma loaded_pods_ran: "PodO p \<in> ran (loaded_pods pods Map.empty) \<Longrightarrow> p \<in> set pods"
proof -
  have "ran (fold (\<lambda>p m. m(pod_key p \<mapsto> PodO p)) ps m) \<subseteq> ran m \<union> PodO ` set ps" for ps m
    by (induction ps arbitrary: m) (fastforce simp: ran_def split: if_splits)+
  from this [of pods Map.empty] show "PodO p \<in> ran (loaded_pods pods Map.empty) \<Longrightarrow> p \<in> set pods"
    by (auto simp: loaded_pods_def)
qed

lemma unscheduled_none:
  assumes "rs_wf (fst (cc_store c))" "rs_lookup (fst (cc_store c)) Pods = loaded_pods pods Map.empty" "assigned pods"
  shows "unscheduled c = []"
proof -
  have "\<not> unassignedNonTerminatedPod p" if "PodO p \<in> set (rs_List Pods (fst (cc_store c)))" for p
    using that rs_List_lookup [OF assms(1), of Pods] assms(2,3) loaded_pods_ran [of p pods]
    by (auto simp: assigned_def list_all_iff)
  then show ?thesis by (auto simp: unscheduled_def split: obj.splits)
qed

text \<open>What \<open>New\<close> returns when the scheduler can be configured.\<close>

lemma sim_New_Ok:
  assumes enc: "enc_total enc f" and cfg: "SchedulerConfigLocal k (srv_AlgorithmSource srv) = Ok cfg"
  shows "\<exists>c. sim_New enc k srv newPods pods nodes = Ok (c, \<lparr>lb_SchedulerName = srv_SchedulerName srv\<rparr>, cfg) \<and>
    (assigned pods \<longrightarrow> sim_inv (srv_SchedulerName srv) newPods pods (cc_objects c) (sim_initial c)) \<and> cc_drains c = [] \<and>
    cc_report c = None \<and> cc_objects c = initial_objects pods nodes \<and>
    cc_stopEverything c = [(srv_SchedulerName srv, False)]"
proof -
  let ?n = "srv_SchedulerName srv" let ?c0 = "initial_cc enc newPods"
  have five: "five_types (cc_store ?c0)" using initial_good [OF enc] by (simp add: five_types_def Resources_New)
  have empty: "rs_lookup (register_handlers enc NewResourceStore) r = Map.empty" for r
    by (intro ext) (simp add: rs_lookup_def NewResourceStore_def NewStore_def)
  from add_nodes_ok [OF five, of nodes] obtain st1 where
    st1: "add_nodes nodes ?c0 = (?c0\<lparr>cc_store := st1\<rparr>, Ok ())" "five_types st1"
      "rs_lookup (fst st1) = (rs_lookup (fst (cc_store ?c0)))(Nodes := loaded_nodes nodes (rs_lookup (fst (cc_store ?c0)) Nodes))"
    by blast
  from add_pods_ok [of "?c0\<lparr>cc_store := st1\<rparr>" pods] st1(2) obtain st2 where
    st2: "add_pods pods (?c0\<lparr>cc_store := st1\<rparr>) = (?c0\<lparr>cc_store := st2,
        cc_status := empty_status\<lparr>ScheduledPods := pods\<rparr>\<rparr>, Ok ())" "five_types st2"
      "rs_lookup (fst st2) = (rs_lookup (fst st1))(Pods := loaded_pods pods (rs_lookup (fst st1) Pods))"
    by (auto simp: empty_status_def)
  let ?c = "?c0\<lparr>cc_store := st2, cc_status := empty_status\<lparr>ScheduledPods := pods\<rparr>,
      cc_recorders := [(?n, NewRecorder 10)], cc_stopEverything := [(?n, False)], cc_defaultSchedulerName := ?n\<rparr>"
  have "sim_New enc k srv newPods pods nodes = Ok (?c, \<lparr>lb_SchedulerName = ?n\<rparr>, cfg)"
    using st1(1) st2(1) cfg by (simp add: sim_New_def createScheduler_def)
  moreover have loaded: "cc_objects ?c = initial_objects pods nodes"
    using st1(3) st2(3) by (intro ext) (simp add: empty initial_objects_def Nodes_def Pods_def)
  moreover have "sim_inv ?n newPods pods (cc_objects ?c) (sim_initial ?c)" if "assigned pods"
  proof -
    have "rs_wf (fst (cc_store ?c))" using st2(2) by (simp add: five_types_def good_state_def)
    from unscheduled_none [OF this _ that] loaded
    have "phase_ok (sim_initial ?c) []"
      by (simp add: phase_ok_def sim_initial_def open_channels_def in_flight_def initial_objects_def)
    moreover have "flow_ok newPods pods (sim_initial ?c) []"
      by (simp add: flow_ok_def sim_initial_def in_flight_def empty_status_def)
    moreover have "events_ok ?n (sim_initial ?c)"
      using NewRecorder_bounded [of 10] by (simp add: events_ok_def sim_initial_def)
    moreover have "cc_good ?c" using st2(2) by (simp add: cc_good_def five_types_def)
    moreover have "store_ok (cc_objects ?c) (sim_initial ?c) []"
      by (simp add: store_ok_def sim_initial_def in_flight_def settle_def)
    ultimately show ?thesis
      unfolding sim_inv_def sim_at_def by (intro exI [of _ "[]"]) (simp add: sim_initial_def in_flight_def)
  qed
  moreover have "cc_drains ?c = []" "cc_report ?c = None" "cc_stopEverything ?c = [(?n, False)]"
    by (simp_all add: initial_cc_def NewRESTClient_def)
  ultimately show ?thesis by blast
qed

lemma sim_New_Err:
  assumes enc: "enc_total enc f" and cfg: "SchedulerConfigLocal k (srv_AlgorithmSource srv) = Err e"
  shows "sim_New enc k srv newPods pods nodes = Err e"
proof -
  let ?c0 = "initial_cc enc newPods"
  have five: "five_types (cc_store ?c0)" using initial_good [OF enc] by (simp add: five_types_def Resources_New)
  from add_nodes_ok [OF five, of nodes] obtain st1 where
    st1: "add_nodes nodes ?c0 = (?c0\<lparr>cc_store := st1\<rparr>, Ok ())" "five_types st1" by blast
  from add_pods_ok [of "?c0\<lparr>cc_store := st1\<rparr>" pods] st1(2) obtain c2 where
    "add_pods pods (?c0\<lparr>cc_store := st1\<rparr>) = (c2, Ok ())" by auto
  with st1(1) cfg show ?thesis by (simp add: sim_New_def createScheduler_def)
qed

section \<open>A whole simulation\<close>

text \<open>A run of the system: from the state \<open>New\<close> returned to one in which nothing can step.\<close>

definition sim_run :: "string \<Rightarrow> cluster_capacity \<Rightarrow> sim_sys \<Rightarrow> bool" where
  "sim_run n c s = (sim_reach n (sim_initial c) s \<and> \<not> (\<exists>s'. sim_step n s s'))"

lemma sim_run_result:
  assumes "sim_inv n newPods sched L (sim_initial c)" "list_all unassignedNonTerminatedPod newPods" "sim_run n c s"
  shows "sim_done s \<and> (\<exists>outs. map fst outs = rev newPods \<and>
    cc_status (ss_cc s) = final_status outs sched \<and> cc_objects (ss_cc s) = settle outs L)"
proof -
  have inv: "sim_inv n newPods sched L s"
    using assms by (auto simp: sim_run_def intro: sim_reach_inv)
  moreover from sim_progress [OF inv assms(2)] assms(3) have "sim_done s" by (simp add: sim_run_def)
  ultimately show ?thesis using returned_result by (auto simp: sim_done_def)
qed

lemma sim_reach_steps: "(sim_step n)\<^sup>*\<^sup>* s s' \<Longrightarrow> sim_reach n s0 s \<Longrightarrow> sim_reach n s0 s'"
  by (induction rule: rtranclp_induct) (auto intro: sim_reach.reach_sim)

lemma sim_run_exists:
  assumes "sim_inv n newPods sched L (sim_initial c)" "list_all unassignedNonTerminatedPod newPods"
  shows "\<exists>s. sim_run n c s"
proof -
  obtain s where s: "(sim_step n)\<^sup>*\<^sup>* (sim_initial c) s" "sim_done s" "sim_inv n newPods sched L s"
    using sim_can_finish [OF assms] by blast
  have "\<not> (\<exists>s'. sim_step n s s')"
  proof
    assume "\<exists>s'. sim_step n s s'"
    then obtain s' where "sim_step n s s'" by blast
    then show False
      using s(2) by (cases rule: sim_step.cases) (auto simp: sim_done_def)
  qed
  with sim_reach_steps [OF s(1) sim_reach.reach_refl] show ?thesis by (auto simp: sim_run_def)
qed

section \<open>The report is computed once, after the run\<close>

lemma nextPod_report: "nextPod c = (c', r) \<Longrightarrow> cc_report c' = cc_report c"
  by (auto simp: nextPod_def split: prod.splits option.splits)

lemma Close_report: "cc_Close c = (c', r) \<Longrightarrow> cc_report c' = cc_report c"
  by (auto simp: cc_Close_def split: if_splits)

lemma set_StopReason_report [simp]: "cc_report (set_StopReason pre e c) = cc_report c"
  by (simp add: set_StopReason_def)

lemma deferred_report: "deferred pre c = (c', r) \<Longrightarrow> cc_report c' = cc_report c"
  by (auto simp: deferred_def split: prod.splits outcome.splits if_splits dest!: nextPod_report Close_report)

lemma run_begin_report: "run_begin c = (c', pc) \<Longrightarrow> cc_report c' = cc_report c"
  by (auto simp: run_begin_def split: prod.splits outcome.splits dest!: nextPod_report Close_report)

lemma add_drain_report [simp]: "cc_report (add_drain n c) = cc_report c"
  by (simp add: add_drain_def)

lemma Bind_report: "cc_Bind b n c = (c', r) \<Longrightarrow> cc_report c' = cc_report c"
  by (auto simp: cc_Bind_def Let_def split: outcome.splits option.splits obj.splits prod.splits dest!: deferred_report)

lemma Update_report: "cc_Update p cond n c = (c', r) \<Longrightarrow> cc_report c' = cc_report c"
  by (auto simp: cc_Update_def Let_def split: if_splits dest!: deferred_report)

lemma record_drain_report:
  "record_event n t r m c = Some c' \<Longrightarrow> cc_report c' = cc_report c"
  "drain_event n c = Some c' \<Longrightarrow> cc_report c' = cc_report c"
  by (auto simp: record_event_def drain_event_def split: option.splits)

lemmas report_kept = run_begin_report Bind_report Update_report record_drain_report

lemma sim_step_report: "sim_step n s s' \<Longrightarrow> cc_report (ss_cc s') = cc_report (ss_cc s)"
  by (induction rule: sim_step.induct) (auto simp: run_end_def dest: report_kept)

lemma sim_reach_report: "sim_reach n s0 s \<Longrightarrow> cc_report (ss_cc s) = cc_report (ss_cc s0)"
  by (induction rule: sim_reach.induct) (auto simp: sim_step_report set_env_def elim!: client_step.cases)

text \<open>Asking for the report twice gives the same report.\<close>

lemma cc_Report_idem: "snd (cc_Report now' (fst (cc_Report now c))) = snd (cc_Report now c)"
  by (auto simp: cc_Report_def Let_def split: option.split)

section \<open>A pod the scheduler does not take\<close>

text \<open>
  A simulated pod that already names a node, or is already terminated, is stored but never enters
  the scheduling queue, and \<open>Run\<close> waits for ever.
\<close>

definition sim_stuck :: "string \<Rightarrow> sim_sys \<Rightarrow> bool" where
  "sim_stuck n s = (ss_pc s = Waiting \<and> \<not> (\<exists>s'. sim_step n s s'))"

lemma assigned_pod_hangs:
  assumes inv: "sim_inv n (ps @ [p]) sched L (sim_initial c)" and dr: "cc_drains c = []"
    and p: "\<not> unassignedNonTerminatedPod p"
  shows "\<exists>s. sim_step n (sim_initial c) s \<and> sim_stuck n s"
proof -
  have pend: "cc_pending c = p # rev ps" and op: "open_channels c" and good: "cc_good c"
    using inv by (auto simp: sim_inv_def sim_at_def sim_initial_def flow_ok_def phase_ok_def in_flight_def events_ok_def)
  obtain q st where n: "nextPod c = (c\<lparr>cc_queue := q, cc_store := st\<rparr>, Ok ())"
    using nextPod_more [OF good pend] by blast
  let ?c = "c\<lparr>cc_queue := q, cc_store := st\<rparr>"
  let ?s = "\<lparr>ss_cc = ?c, ss_pc = Waiting, ss_waiting = [], ss_tasks = [], ss_retry = []\<rparr>"
  have run: "run_begin c = (?c, Waiting)" using n by (simp add: run_begin_def)
  have "admitted c = []" "unscheduled c = []"
    using pq.pop_Cons [OF pend] p inv by (simp_all add: admitted_def sim_inv_def sim_at_def phase_ok_def sim_initial_def)
  with sim_step.start [of "sim_initial c" ?c Waiting n] run have "sim_step n (sim_initial c) ?s"
    by (simp add: sim_initial_def)
  moreover have "\<not> sim_step n ?s s'" for s'
  proof
    assume "sim_step n ?s s'"
    then show False using op dr by (cases rule: sim_step.cases) (auto simp: open_channels_def)
  qed
  ultimately show ?thesis by (auto simp: sim_stuck_def intro!: exI [of _ ?s])
qed

end
