(* ===== verification/Command.thy ===== *)
theory Command
  imports Simulation_Start
begin

text \<open>
  The command (\<open>cmd/app/server.go\<close>, \<open>cmd/app/options/options.go\<close>, \<open>cmd/main.go\<close>):
  options and flags, the parsing of the command line (\<open>spf13/pflag\<close> and \<open>spf13/cobra\<close>),
  validation, expansion of the simulation file into pods, and the pipeline from the real cluster's
  checkpoint to the printed report.  The real cluster, the file system, the YAML decoder, the UUID generator
  and the scheduler server's constructor are the record \<open>world\<close>.  \<open>glog.Fatalf\<close> ends the
  process and is a \<open>Panic\<close> here.
\<close>

section \<open>Options\<close>

record cc_options =
  AlgorithmProvider :: string
  Kubeconfig :: string
  PodSpecFile :: string
  opt_Namespace :: string

definition NewClusterCapacityOptions :: cc_options where
  "NewClusterCapacityOptions = \<lparr>AlgorithmProvider = [], Kubeconfig = [], PodSpecFile = [], opt_Namespace = []\<rparr>"

text \<open>
  The state of a parse: the options, the value of the help flag, and the arguments that are no flags.  A flag
  has a name, maybe a shorthand, the value it gets when it is given without one (empty: it needs one), and its
  \<open>Set\<close>.
\<close>

record flag_state =
  fs_opt :: cc_options
  fs_help :: bool
  fs_args :: "string list"

record pflag =
  pf_Name :: string
  pf_Shorthand :: "char option"
  pf_NoOptDefVal :: string
  pf_Set :: "string \<Rightarrow> flag_state \<Rightarrow> flag_state outcome"

definition StringVar :: "string \<Rightarrow> (string \<Rightarrow> cc_options \<Rightarrow> cc_options) \<Rightarrow> pflag" where
  "StringVar name assign =
     \<lparr>pf_Name = name, pf_Shorthand = None, pf_NoOptDefVal = [],
      pf_Set = (\<lambda>v st. Ok (st\<lparr>fs_opt := assign v (fs_opt st)\<rparr>))\<rparr>"

text \<open>Registering a flag assigns its default.\<close>

definition AddFlags :: "cc_options \<Rightarrow> cc_options \<times> pflag list" where
  "AddFlags s =
     (let set_kubeconfig = (\<lambda>v s. s\<lparr>Kubeconfig := v\<rparr>);
          set_provider = (\<lambda>v s. s\<lparr>AlgorithmProvider := v\<rparr>);
          set_podspec = (\<lambda>v s. s\<lparr>PodSpecFile := v\<rparr>);
          s = set_kubeconfig (Kubeconfig s) s;
          s = set_provider ''DefaultProvider'' s;
          s = set_podspec (PodSpecFile s) s
      in (s, [StringVar ''kubeconfig'' set_kubeconfig, StringVar ''algorithmprovider'' set_provider,
              StringVar ''podspec'' set_podspec]))"

section \<open>The command line\<close>

definition ParseBool :: "string \<Rightarrow> bool outcome" where
  "ParseBool s =
     (if s \<in> set [''1'', ''t'', ''T'', ''true'', ''TRUE'', ''True''] then Ok True
      else if s \<in> set [''0'', ''f'', ''F'', ''false'', ''FALSE'', ''False''] then Ok False
      else Err (''strconv.ParseBool: parsing '' @ go_quote s @ '': invalid syntax''))"

text \<open>\<open>%q\<close> of a byte: the character with this code, in single quotes.\<close>

definition quote_byte :: "char \<Rightarrow> string" where
  "quote_byte c =
     (let n = (of_char c :: nat) in
      [CHR 0x27] @
      (if n = 39 then [CHR 0x5C, c]
       else if n = 34 then [c]
       else if n < 128 then quote_char c
       else if 161 \<le> n \<and> n \<noteq> 173 then [char_of (192 + n div 64), char_of (128 + n mod 64)]
       else CHR 0x5C # ''u00'' @ [hex_digit (n div 16), hex_digit (n mod 16)]) @
      [CHR 0x27])"

text \<open>\<open>FlagSet.setFlag\<close>: the value, and the argument it is from.\<close>

definition setFlag :: "pflag \<Rightarrow> string \<Rightarrow> string \<Rightarrow> flag_state \<Rightarrow> flag_state outcome" where
  "setFlag flag v origArg st =
     (case pf_Set flag v st of
        Err e \<Rightarrow> Err (''invalid argument '' @ go_quote v @ '' for '' @ origArg @ '': '' @ e)
      | r \<Rightarrow> r)"

text \<open>The remaining arguments after the flag \<open>s\<close>, which starts with \<open>--\<close>, and its value.\<close>

definition parseLongArg :: "pflag list \<Rightarrow> string \<Rightarrow> string list \<Rightarrow> flag_state \<Rightarrow> (string list \<times> flag_state) outcome" where
  "parseLongArg fs s args st =
     (let body = drop 2 s; name = takeWhile (\<lambda>c. c \<noteq> CHR ''='') body in
      if body = [] \<or> hd body = CHR ''-'' \<or> hd body = CHR ''='' then Err (''bad flag syntax: '' @ s)
      else case find (\<lambda>f. pf_Name f = name) fs of
        None \<Rightarrow> Err (''unknown flag: --'' @ name)
      | Some flag \<Rightarrow>
          if CHR ''='' \<in> set body then
            bind_outcome (setFlag flag (drop (length name + 1) body) s st) (\<lambda>st'. Ok (args, st'))
          else if pf_NoOptDefVal flag \<noteq> [] then
            bind_outcome (setFlag flag (pf_NoOptDefVal flag) s st) (\<lambda>st'. Ok (args, st'))
          else (case args of
                  [] \<Rightarrow> Err (''flag needs an argument: '' @ s)
                | a # args' \<Rightarrow> bind_outcome (setFlag flag a s st) (\<lambda>st'. Ok (args', st'))))"

text \<open>
  One shorthand of a cluster like \<open>-abc\<close>; what is left of the cluster and of the arguments.  A cluster
  that starts with \<open>test.\<close> is left out, and with it, the results of the Go function being unset then,
  all arguments after it.
\<close>

definition parseSingleShortArg ::
    "pflag list \<Rightarrow> string \<Rightarrow> string list \<Rightarrow> flag_state \<Rightarrow> (string \<times> string list \<times> flag_state) outcome" where
  "parseSingleShortArg fs shorthands args st =
     (if take 5 shorthands = ''test.'' then Ok ([], [], st)
      else let c = hd shorthands; outShorts = tl shorthands in
        case find (\<lambda>f. pf_Shorthand f = Some c) fs of
          None \<Rightarrow> Err (''unknown shorthand flag: '' @ quote_byte c @ '' in -'' @ shorthands)
        | Some flag \<Rightarrow>
            if length shorthands > 2 \<and> hd outShorts = CHR ''='' then
              bind_outcome (setFlag flag (tl outShorts) shorthands st) (\<lambda>st'. Ok ([], args, st'))
            else if pf_NoOptDefVal flag \<noteq> [] then
              bind_outcome (setFlag flag (pf_NoOptDefVal flag) shorthands st) (\<lambda>st'. Ok (outShorts, args, st'))
            else if outShorts \<noteq> [] then
              bind_outcome (setFlag flag outShorts shorthands st) (\<lambda>st'. Ok ([], args, st'))
            else (case args of
                    [] \<Rightarrow> Err (''flag needs an argument: '' @ quote_byte c @ '' in -'' @ shorthands)
                  | a # args' \<Rightarrow> bind_outcome (setFlag flag a shorthands st) (\<lambda>st'. Ok ([], args', st'))))"

lemma parseSingleShortArg_shorter:
  "parseSingleShortArg fs (c # cs) args st = Ok (shorts, args', st') \<Longrightarrow>
     length shorts < Suc (length cs) \<and> length args' \<le> length args"
  by (auto simp: parseSingleShortArg_def Let_def bind_outcome_Ok_iff split: if_splits option.splits list.splits)

text \<open>The cluster, one shorthand after the other; each starts from the arguments the cluster started from.\<close>

function parseShorts ::
    "pflag list \<Rightarrow> string \<Rightarrow> string list \<Rightarrow> string list \<Rightarrow> flag_state \<Rightarrow> (string list \<times> flag_state) outcome" where
  "parseShorts fs shorthands args a st =
     (case shorthands of
        [] \<Rightarrow> Ok (a, st)
      | c # cs \<Rightarrow>
          (case parseSingleShortArg fs (c # cs) args st of
             Ok (shorthands', a', st') \<Rightarrow> parseShorts fs shorthands' args a' st'
           | Err e \<Rightarrow> Err e
           | Panic p \<Rightarrow> Panic p))"
  by pat_completeness auto
termination
  by (relation "measure (\<lambda>(fs, shorthands, args, a, st). length shorthands)")
    (auto dest: parseSingleShortArg_shorter)

declare parseShorts.simps [simp del]

lemma parseShorts_Nil [simp]: "parseShorts fs [] args a st = Ok (a, st)"
  by (simp add: parseShorts.simps)

lemma parseShorts_Cons [simp]:
  "parseShorts fs (c # cs) args a st =
     (case parseSingleShortArg fs (c # cs) args st of
        Ok (shorthands', a', st') \<Rightarrow> parseShorts fs shorthands' args a' st'
      | Err e \<Rightarrow> Err e
      | Panic p \<Rightarrow> Panic p)"
  by (subst parseShorts.simps) simp

lemma parseShorts_ConsD:
  assumes "parseShorts fs (c # cs) args a st = Ok r"
  obtains sh a' st1 where "parseSingleShortArg fs (c # cs) args st = Ok (sh, a', st1)" "parseShorts fs sh args a' st1 = Ok r"
  using assms by (auto split: outcome.splits)

definition parseShortArg :: "pflag list \<Rightarrow> string \<Rightarrow> string list \<Rightarrow> flag_state \<Rightarrow> (string list \<times> flag_state) outcome" where
  "parseShortArg fs s args st = parseShorts fs (tl s) args args st"

lemma parseShorts_length:
  "parseShorts fs shorthands args a st = Ok (args', st') \<Longrightarrow> length a \<le> length args \<Longrightarrow> length args' \<le> length args"
proof (induction fs shorthands args a st rule: parseShorts.induct)
  case (1 fs shorthands args a st)
  show ?case
  proof (cases shorthands)
    case Nil
    with 1 show ?thesis by (simp add: parseShorts.simps)
  next
    case (Cons c cs)
    with 1(2) have "parseShorts fs (c # cs) args a st = Ok (args', st')" by simp
    then obtain sh a' st1 where
      single: "parseSingleShortArg fs (c # cs) args st = Ok (sh, a', st1)" "parseShorts fs sh args a' st1 = Ok (args', st')"
      by (rule parseShorts_ConsD)
    from 1(1) [OF Cons single(1) refl refl single(2)] parseSingleShortArg_shorter [OF single(1)] show ?thesis by simp
  qed
qed

lemma parseLongArg_length: "parseLongArg fs s args st = Ok (args', st') \<Longrightarrow> length args' \<le> length args"
  by (auto simp: parseLongArg_def Let_def bind_outcome_Ok_iff split: if_splits option.splits list.splits)

lemma parseShortArg_length: "parseShortArg fs s args st = Ok (args', st') \<Longrightarrow> length args' \<le> length args"
  using parseShorts_length by (fastforce simp: parseShortArg_def)

text \<open>Flags and other arguments may be mixed; \<open>--\<close> ends the flags.\<close>

function parseArgs :: "pflag list \<Rightarrow> string list \<Rightarrow> flag_state \<Rightarrow> flag_state outcome" where
  "parseArgs fs args st =
     (case args of
        [] \<Rightarrow> Ok st
      | s # rest \<Rightarrow>
          if s = [] \<or> hd s \<noteq> CHR ''-'' \<or> length s = 1 then parseArgs fs rest (st\<lparr>fs_args := fs_args st @ [s]\<rparr>)
          else if s = ''--'' then Ok (st\<lparr>fs_args := fs_args st @ rest\<rparr>)
          else (case (if hd (tl s) = CHR ''-'' then parseLongArg fs s rest st else parseShortArg fs s rest st) of
                  Ok (args', st') \<Rightarrow> parseArgs fs args' st'
                | Err e \<Rightarrow> Err e
                | Panic p \<Rightarrow> Panic p))"
  by pat_completeness auto
termination
  by (relation "measure (\<lambda>(fs, args, st). length args)")
    (auto split: if_splits dest!: parseLongArg_length parseShortArg_length)

declare parseArgs.simps [simp del]

lemma parseArgs_Nil [simp]: "parseArgs fs [] st = Ok st"
  by (simp add: parseArgs.simps)

lemma parseArgs_Cons:
  "parseArgs fs (s # rest) st =
     (if s = [] \<or> hd s \<noteq> CHR ''-'' \<or> length s = 1 then parseArgs fs rest (st\<lparr>fs_args := fs_args st @ [s]\<rparr>)
      else if s = ''--'' then Ok (st\<lparr>fs_args := fs_args st @ rest\<rparr>)
      else (case (if hd (tl s) = CHR ''-'' then parseLongArg fs s rest st else parseShortArg fs s rest st) of
              Ok (args', st') \<Rightarrow> parseArgs fs args' st'
            | Err e \<Rightarrow> Err e
            | Panic p \<Rightarrow> Panic p))"
  by (subst parseArgs.simps) simp

text \<open>
  \<open>Command.execute\<close> up to \<open>Run\<close>: the command's flags, the help flag, and the flags the
  libraries have registered with \<open>pflag.CommandLine\<close>, which are the parameter \<open>outer\<close>: they can
  reject a value, but do not touch the options.  The result is the options and whether help is asked for.
\<close>

record outer_flag =
  of_Name :: string
  of_Shorthand :: "char option"
  of_NoOptDefVal :: string
  of_Set :: "string \<Rightarrow> unit outcome"

definition outer_pflag :: "outer_flag \<Rightarrow> pflag" where
  "outer_pflag f =
     \<lparr>pf_Name = of_Name f, pf_Shorthand = of_Shorthand f, pf_NoOptDefVal = of_NoOptDefVal f,
      pf_Set = (\<lambda>v st. bind_outcome (of_Set f v) (\<lambda>_. Ok st))\<rparr>"

definition helpFlag :: pflag where
  "helpFlag =
     \<lparr>pf_Name = ''help'', pf_Shorthand = Some (CHR ''h''), pf_NoOptDefVal = ''true'',
      pf_Set = (\<lambda>v st. bind_outcome (ParseBool v) (\<lambda>b. Ok (st\<lparr>fs_help := b\<rparr>)))\<rparr>"

definition command_options :: "outer_flag list \<Rightarrow> string list \<Rightarrow> (cc_options \<times> bool) outcome" where
  "command_options outer args =
     (case AddFlags NewClusterCapacityOptions of
        (s, fs) \<Rightarrow>
          bind_outcome (parseArgs (fs @ [helpFlag] @ map outer_pflag outer) args
                          \<lparr>fs_opt = s, fs_help = False, fs_args = []\<rparr>)
            (\<lambda>st. Ok (fs_opt st, fs_help st)))"

section \<open>Validation\<close>

definition Validate :: "bool \<Rightarrow> cc_options \<Rightarrow> unit outcome" where
  "Validate cc_incluster opt =
     (if length (PodSpecFile opt) = 0 then Err ''Pod spec file is missing''
      else if \<not> cc_incluster \<and> length (Kubeconfig opt) = 0 then Err ''kubeconfig is missing''
      else Ok ())"

section \<open>The outside world\<close>

record ('conf, 'cl, 'file) world =
  BuildConfigFromFlags :: "string \<Rightarrow> 'conf outcome"
  NewForConfig :: "'conf \<Rightarrow> 'cl outcome"
  ListPods :: "'cl \<Rightarrow> string \<Rightarrow> string \<Rightarrow> pod list outcome"
  ListNodes :: "'cl \<Rightarrow> node list outcome"
  OpenFile :: "string \<Rightarrow> 'file outcome"
  DecodePods :: "'file \<Rightarrow> simulation_pod list outcome"
  uuid_New :: "nat \<Rightarrow> string"
  NewSchedulerServer :: "sched_server \<Rightarrow> string \<Rightarrow> unit outcome"

record sim_conf =
  conf_Options :: cc_options
  conf_Scheduler :: sched_server

definition NewClusterCapacityConfig :: "('conf, 'cl, 'file) world \<Rightarrow> cc_options \<Rightarrow> sim_conf outcome" where
  "NewClusterCapacityConfig w opt =
     (let srv = \<lparr>srv_SchedulerName = ''TD-Scheduler'',
                 srv_AlgorithmSource = \<lparr>as_Policy = None, as_Provider = Some (AlgorithmProvider opt)\<rparr>\<rparr> in
      case NewSchedulerServer w srv ''localhost'' of
        Ok _ \<Rightarrow> Ok \<lparr>conf_Options = opt, conf_Scheduler = srv\<rparr>
      | Err e \<Rightarrow> Panic (''Failed to create scheduler server: '' @ e)
      | Panic p \<Rightarrow> Panic p)"

section \<open>Expanding the simulation file\<close>

definition stamp :: "string \<Rightarrow> string \<Rightarrow> simulation_pod \<Rightarrow> pod" where
  "stamp namespace u sp =
     (sp_Pod sp)\<lparr>pod_meta :=
        (pod_meta (sp_Pod sp))\<lparr>om_UID := u, om_Name := u,
          om_Labels := [(''SimulationName'', sp_Name sp)], om_Namespace := namespace\<rparr>\<rparr>"

text \<open>The inner loop from index \<open>i\<close>; \<open>k\<close> counts the identifiers drawn.\<close>

function expand_pod :: "(nat \<Rightarrow> string) \<Rightarrow> string \<Rightarrow> simulation_pod \<Rightarrow> int \<Rightarrow> nat \<Rightarrow> pod list" where
  "expand_pod uuid namespace sp i k =
     (if i < sp_Num sp then stamp namespace (uuid k) sp # expand_pod uuid namespace sp (i + 1) (k + 1) else [])"
  by pat_completeness auto
termination
  by (relation "measure (\<lambda>(uuid, namespace, sp, i, k). nat (sp_Num sp - i))") auto

declare expand_pod.simps [simp del]

fun expand_pods :: "(nat \<Rightarrow> string) \<Rightarrow> string \<Rightarrow> simulation_pod list \<Rightarrow> nat \<Rightarrow> pod list" where
  "expand_pods uuid namespace [] k = []"
| "expand_pods uuid namespace (sp # sps) k =
     (let ps = expand_pod uuid namespace sp 0 k in ps @ expand_pods uuid namespace sps (k + length ps))"

definition ParseSimulationPod :: "('conf, 'cl, 'file) world \<Rightarrow> cc_options \<Rightarrow> pod list outcome" where
  "ParseSimulationPod w opt =
     bind_outcome (wrap_err ''Failed to open config file: '' (OpenFile w (PodSpecFile opt)))
       (\<lambda>file. bind_outcome (wrap_err ''Failed to decode config file: '' (DecodePods w file))
          (\<lambda>sps. Ok (expand_pods (uuid_New w) (opt_Namespace opt) sps 0)))"

section \<open>The pipeline\<close>

definition getCheckpoints :: "('conf, 'cl, 'file) world \<Rightarrow> 'cl \<Rightarrow> string \<Rightarrow> (pod list \<times> node list) outcome" where
  "getCheckpoints w cl namespace =
     bind_outcome (ListPods w cl namespace ''status.phase=Running'')
       (\<lambda>pods. bind_outcome (ListNodes w cl) (\<lambda>nodes. Ok (pods, nodes)))"

text \<open>
  The results \<open>runSimulator\<close> can have: \<open>cc.Run\<close> returns in a state the system reaches,
  and never an error of its own.
\<close>

definition runSimulator ::
    "encoder \<Rightarrow> ('cfg, 'pol) configurator \<Rightarrow> sched_server \<Rightarrow> pod list \<Rightarrow> pod list \<Rightarrow> node list \<Rightarrow> int \<Rightarrow>
       general_review outcome \<Rightarrow> bool" where
  "runSimulator enc k srv scheduledPods simulationPods nodes now res =
     (case sim_New enc k srv simulationPods scheduledPods nodes of
        Err e \<Rightarrow> res = Err e
      | Panic p \<Rightarrow> res = Panic p
      | Ok (c, lb, cfg) \<Rightarrow>
          (\<exists>s. sim_reach (srv_SchedulerName srv) (sim_initial c) s \<and> ss_pc s = Returned \<and>
             res = Ok (snd (cc_Report now (ss_cc s)))))"

definition cmd_inputs ::
    "('conf, 'cl, 'file) world \<Rightarrow> cc_options \<Rightarrow> (sched_server \<times> pod list \<times> pod list \<times> node list) outcome" where
  "cmd_inputs w opt =
     bind_outcome (NewClusterCapacityConfig w opt)
       (\<lambda>conf. bind_outcome (wrap_err ''Failed to get config: '' (BuildConfigFromFlags w (Kubeconfig opt)))
          (\<lambda>config. bind_outcome (wrap_err ''Failed to create clientset: '' (NewForConfig w config))
             (\<lambda>cl. bind_outcome (wrap_err ''Failed to get checkpoints: '' (getCheckpoints w cl (opt_Namespace opt)))
                (\<lambda>(pods, nodes). bind_outcome (wrap_err ''Failed to parse simulation pod spec: '' (ParseSimulationPod w opt))
                   (\<lambda>simulationPods. Ok (conf_Scheduler conf, pods, simulationPods, nodes))))))"

definition cmd_Run ::
    "encoder \<Rightarrow> ('cfg, 'pol) configurator \<Rightarrow> ('conf, 'cl, 'file) world \<Rightarrow> table_writer \<Rightarrow>
       cc_options \<Rightarrow> int \<Rightarrow> string outcome \<Rightarrow> bool" where
  "cmd_Run enc k w tw opt now out =
     (case cmd_inputs w opt of
        Err e \<Rightarrow> out = Err e
      | Panic p \<Rightarrow> out = Panic p
      | Ok (srv, pods, simulationPods, nodes) \<Rightarrow>
          (\<exists>res. runSimulator enc k srv pods simulationPods nodes now res \<and>
             out = (case res of
                      Ok report \<Rightarrow> ClusterCapacityReviewPrint tw report
                    | Err e \<Rightarrow> Err (''Failed to start scheduler simulator: '' @ e)
                    | Panic p \<Rightarrow> Panic p)))"

text \<open>What the command prints: an error of validation or of the run, or the report.\<close>

definition run_command ::
    "encoder \<Rightarrow> ('cfg, 'pol) configurator \<Rightarrow> ('conf, 'cl, 'file) world \<Rightarrow> table_writer \<Rightarrow>
       bool \<Rightarrow> string \<Rightarrow> cc_options \<Rightarrow> int \<Rightarrow> string outcome \<Rightarrow> bool" where
  "run_command enc k w tw cc_incluster help opt now printed =
     (case Validate cc_incluster opt of
        Err e \<Rightarrow> printed = Ok (e @ [CHR 0x0A] @ help)
      | Panic p \<Rightarrow> printed = Panic p
      | Ok _ \<Rightarrow>
          (\<exists>out. cmd_Run enc k w tw opt now out \<and>
             printed = (case out of Err e \<Rightarrow> Ok (e @ [CHR 0x0A]) | _ \<Rightarrow> out)))"

text \<open>
  The process (\<open>cmd/main.go\<close>).  \<open>Execute\<close> returns the errors of the command line, after
  it has printed them and the usage to the standard error; \<open>main\<close> prints them again and exits with
  status 1.  What the command itself reports it has printed already, and \<open>Execute\<close> returns no error then.
  The texts of the help and of the usage are parameters; the log is not part of the output.
\<close>

record process =
  stdout :: string
  stderr :: string
  status_code :: nat

definition cmd_main ::
    "encoder \<Rightarrow> ('cfg, 'pol) configurator \<Rightarrow> ('conf, 'cl, 'file) world \<Rightarrow> table_writer \<Rightarrow>
       bool \<Rightarrow> string \<Rightarrow> string \<Rightarrow> outer_flag list \<Rightarrow> string list \<Rightarrow> int \<Rightarrow> process outcome \<Rightarrow> bool" where
  "cmd_main enc k w tw cc_incluster help usage outer args now res =
     (case command_options outer args of
        Err e \<Rightarrow>
          res = Ok \<lparr>stdout = e @ [CHR 0x0A], stderr = ''Error: '' @ e @ [CHR 0x0A] @ usage @ [CHR 0x0A], status_code = 1\<rparr>
      | Panic p \<Rightarrow> res = Panic p
      | Ok (opt, True) \<Rightarrow> res = Ok \<lparr>stdout = help, stderr = [], status_code = 0\<rparr>
      | Ok (opt, False) \<Rightarrow>
          (\<exists>printed. run_command enc k w tw cc_incluster help opt now printed \<and>
             res = (case printed of
                      Ok out \<Rightarrow> Ok \<lparr>stdout = out, stderr = [], status_code = 0\<rparr> | Err e \<Rightarrow> Err e | Panic p \<Rightarrow> Panic p)))"

section \<open>Parsing the command line\<close>

text \<open>What every flag keeps, a parse keeps.\<close>

definition flags_keep :: "(flag_state \<Rightarrow> bool) \<Rightarrow> pflag list \<Rightarrow> bool" where
  "flags_keep P fs =
     ((\<forall>f \<in> set fs. \<forall>v st st'. P st \<longrightarrow> pf_Set f v st = Ok st' \<longrightarrow> P st') \<and>
      (\<forall>st xs. P st \<longrightarrow> P (st\<lparr>fs_args := xs\<rparr>)))"

lemma setFlag_keeps:
  "flags_keep P fs \<Longrightarrow> find Q fs = Some f \<Longrightarrow> setFlag f v orig st = Ok st' \<Longrightarrow> P st \<Longrightarrow> P st'"
  by (auto simp: setFlag_def flags_keep_def find_Some_iff split: outcome.splits dest: nth_mem)

lemma parseLongArg_keeps:
  "flags_keep P fs \<Longrightarrow> parseLongArg fs s args st = Ok (args', st') \<Longrightarrow> P st \<Longrightarrow> P st'"
  by (auto simp: parseLongArg_def Let_def bind_outcome_Ok_iff split: if_splits option.splits list.splits
      dest: setFlag_keeps)

lemma parseSingleShortArg_keeps:
  "flags_keep P fs \<Longrightarrow> parseSingleShortArg fs sh args st = Ok (sh', args', st') \<Longrightarrow> P st \<Longrightarrow> P st'"
  by (auto simp: parseSingleShortArg_def Let_def bind_outcome_Ok_iff split: if_splits option.splits list.splits
      dest: setFlag_keeps)

lemma parseShorts_keeps:
  "parseShorts fs shorthands args a st = Ok (args', st') \<Longrightarrow> flags_keep P fs \<Longrightarrow> P st \<Longrightarrow> P st'"
proof (induction fs shorthands args a st rule: parseShorts.induct)
  case (1 fs shorthands args a st)
  show ?case
  proof (cases shorthands)
    case Nil
    with 1 show ?thesis by simp
  next
    case (Cons c cs)
    with 1(2) have "parseShorts fs (c # cs) args a st = Ok (args', st')" by simp
    then obtain sh a' st1 where
      single: "parseSingleShortArg fs (c # cs) args st = Ok (sh, a', st1)" "parseShorts fs sh args a' st1 = Ok (args', st')"
      by (rule parseShorts_ConsD)
    from 1(1) [OF Cons single(1) refl refl single(2) 1(3)] parseSingleShortArg_keeps [OF 1(3) single(1) 1(4)]
    show ?thesis .
  qed
qed

lemma parseArg_keeps:
  "(if q then parseLongArg fs s rest st else parseShortArg fs s rest st) = Ok (args', st') \<Longrightarrow>
     flags_keep P fs \<Longrightarrow> P st \<Longrightarrow> P st'"
  by (auto simp: parseShortArg_def split: if_splits dest: parseLongArg_keeps parseShorts_keeps)

lemma parseArgs_keeps: "parseArgs fs args st = Ok st' \<Longrightarrow> flags_keep P fs \<Longrightarrow> P st \<Longrightarrow> P st'"
proof (induction fs args st rule: parseArgs.induct)
  case (1 fs args st)
  show ?case
  proof (cases args)
    case Nil
    with 1 show ?thesis by simp
  next
    case (Cons s rest)
    let ?a = "if hd (tl s) = CHR ''-'' then parseLongArg fs s rest st else parseShortArg fs s rest st"
    have upd: "P (st\<lparr>fs_args := xs\<rparr>)" for xs using 1(4,5) by (simp add: flags_keep_def)
    consider "s = [] \<or> hd s \<noteq> CHR ''-'' \<or> length s = 1"
      | "\<not> (s = [] \<or> hd s \<noteq> CHR ''-'' \<or> length s = 1)" "s = ''--''"
      | "\<not> (s = [] \<or> hd s \<noteq> CHR ''-'' \<or> length s = 1)" "s \<noteq> ''--''" by blast
    then show ?thesis
    proof cases
      case 1: 1
      with "1.prems"(1) Cons have "parseArgs fs rest (st\<lparr>fs_args := fs_args st @ [s]\<rparr>) = Ok st'" by (simp add: parseArgs_Cons)
      from "1.IH"(1) [OF Cons 1 this "1.prems"(2) upd] show ?thesis .
    next
      case 2
      with "1.prems"(1) Cons have "st' = st\<lparr>fs_args := fs_args st @ rest\<rparr>" by (simp add: parseArgs_Cons)
      with upd show ?thesis by simp
    next
      case 3
      with "1.prems"(1) Cons obtain args' st1 where
        a: "?a = Ok (args', st1)" "parseArgs fs args' st1 = Ok st'"
        by (cases ?a) (auto simp: parseArgs_Cons)
      from "1.IH"(2) [OF Cons 3 a(1) refl a(2) "1.prems"(2) parseArg_keeps [OF a(1) "1.prems"(2,3)]] show ?thesis .
    qed
  qed
qed

text \<open>No flag sets the namespace.\<close>

lemma command_namespace:
  assumes "command_options outer args = Ok (opt, h)" shows "opt_Namespace opt = []"
proof -
  let ?P = "\<lambda>st. opt_Namespace (fs_opt st) = []"
  have "flags_keep ?P (snd (AddFlags NewClusterCapacityOptions) @ [helpFlag] @ map outer_pflag outer)"
    by (auto simp: flags_keep_def AddFlags_def StringVar_def helpFlag_def outer_pflag_def Let_def bind_outcome_Ok_iff)
  with assms show ?thesis
    by (auto simp: command_options_def bind_outcome_Ok_iff AddFlags_def NewClusterCapacityOptions_def Let_def
        dest: parseArgs_keeps)
qed

text \<open>A command line of assignments \<open>--name=value\<close> to the command's own flags.\<close>

definition own_flags :: "string set" where
  "own_flags = {''kubeconfig'', ''algorithmprovider'', ''podspec''}"

fun assignments :: "(string \<times> string) list \<Rightarrow> string list" where
  "assignments [] = []"
| "assignments ((n, v) # as) = (''--'' @ n @ CHR ''='' # v) # assignments as"

definition assign_flag :: "cc_options \<Rightarrow> string \<times> string \<Rightarrow> cc_options" where
  "assign_flag s a =
     (if fst a = ''kubeconfig'' then s\<lparr>Kubeconfig := snd a\<rparr>
      else if fst a = ''algorithmprovider'' then s\<lparr>AlgorithmProvider := snd a\<rparr>
      else s\<lparr>PodSpecFile := snd a\<rparr>)"

abbreviation command_flags :: "outer_flag list \<Rightarrow> pflag list" where
  "command_flags outer \<equiv> snd (AddFlags NewClusterCapacityOptions) @ [helpFlag] @ map outer_pflag outer"

lemma own_flag_found:
  assumes "n \<in> own_flags"
  shows "find (\<lambda>f. pf_Name f = n) (command_flags outer) = Some (StringVar n (\<lambda>v s. assign_flag s (n, v)))"
  using assms by (auto simp: own_flags_def AddFlags_def StringVar_def assign_flag_def Let_def)

lemma own_flag_name: "n \<in> own_flags \<Longrightarrow> n \<noteq> [] \<and> hd n \<noteq> CHR ''-'' \<and> CHR ''='' \<notin> set n"
  by (auto simp: own_flags_def)

lemma long_arg:
  assumes "n \<noteq> []" "hd n \<noteq> CHR ''-''" "CHR ''='' \<notin> set n"
  shows "parseArgs fs ((''--'' @ n @ r) # rest) st =
    (case parseLongArg fs (''--'' @ n @ r) rest st of
       Ok (args', st') \<Rightarrow> parseArgs fs args' st' | Err e \<Rightarrow> Err e | Panic p \<Rightarrow> Panic p)"
  using assms by (simp add: parseArgs_Cons)

lemma takeWhile_name: "CHR ''='' \<notin> set n \<Longrightarrow> takeWhile (\<lambda>c. c \<noteq> CHR ''='') (n @ CHR ''='' # v) = n"
  by (induction n) auto

lemma takeWhile_no_eq: "CHR ''='' \<notin> set n \<Longrightarrow> takeWhile (\<lambda>c. c \<noteq> CHR ''='') n = n"
  by (induction n) auto

lemma own_flag_assigned:
  assumes "n \<in> own_flags"
  shows "parseArgs (command_flags outer) ((''--'' @ n @ CHR ''='' # v) # rest) st =
     parseArgs (command_flags outer) rest (st\<lparr>fs_opt := assign_flag (fs_opt st) (n, v)\<rparr>)"
proof -
  have n: "n \<noteq> []" "hd n \<noteq> CHR ''-''" "CHR ''='' \<notin> set n" using own_flag_name [OF assms] by auto
  then have "hd n \<noteq> CHR ''=''" by (cases n) auto
  then have "parseLongArg fs (''--'' @ n @ CHR ''='' # v) rest st =
      Ok (rest, st\<lparr>fs_opt := assign_flag (fs_opt st) (n, v)\<rparr>)"
    if "find (\<lambda>f. pf_Name f = n) fs = Some (StringVar n (\<lambda>v s. assign_flag s (n, v)))" for fs
    using n that unfolding parseLongArg_def Let_def by (simp add: takeWhile_name setFlag_def StringVar_def)
  from this [OF own_flag_found [OF assms]] show ?thesis
    unfolding long_arg [OF n, of "command_flags outer" "CHR ''='' # v"] by simp
qed

lemma assignments_parsed:
  "fst ` set as \<subseteq> own_flags \<Longrightarrow>
     parseArgs (command_flags outer) (assignments as @ rest) st =
     parseArgs (command_flags outer) rest (st\<lparr>fs_opt := foldl assign_flag (fs_opt st) as\<rparr>)"
  by (induction as arbitrary: st rule: assignments.induct) (simp_all add: own_flag_assigned [simplified])

lemma own_flag_bare:
  assumes "n \<in> own_flags"
  shows "parseArgs (command_flags outer) [''--'' @ n] st = Err (''flag needs an argument: --'' @ n)"
proof -
  have n: "n \<noteq> []" "hd n \<noteq> CHR ''-''" "CHR ''='' \<notin> set n" using own_flag_name [OF assms] by auto
  then have "hd n \<noteq> CHR ''=''" by (cases n) auto
  then have "parseLongArg fs (''--'' @ n) [] st = Err (''flag needs an argument: --'' @ n)"
    if "find (\<lambda>f. pf_Name f = n) fs = Some (StringVar n (\<lambda>v s. assign_flag s (n, v)))" for fs
    using n that unfolding parseLongArg_def Let_def by (simp add: takeWhile_no_eq StringVar_def)
  from this [OF own_flag_found [OF assms]] show ?thesis
    using long_arg [OF n, of "command_flags outer" "[]"] by simp
qed

lemma unregistered_flag:
  assumes "n \<noteq> []" "hd n \<noteq> CHR ''-''" "CHR ''='' \<notin> set n" "n \<notin> pf_Name ` set fs"
  shows "parseArgs fs ((''--'' @ n) # rest) st = Err (''unknown flag: --'' @ n)"
proof -
  have "find (\<lambda>f. pf_Name f = n) fs = None" using assms(4) by (auto simp: find_None_iff)
  moreover have "hd n \<noteq> CHR ''=''" using assms by (cases n) auto
  ultimately have "parseLongArg fs (''--'' @ n) rest st = Err (''unknown flag: --'' @ n)"
    using assms unfolding parseLongArg_def Let_def by (simp add: takeWhile_no_eq)
  then show ?thesis using long_arg [OF assms(1-3), of fs "[]"] by simp
qed

lemma flag_names: "pf_Name ` set (command_flags outer) = own_flags \<union> {''help''} \<union> of_Name ` set outer"
  by (auto simp: AddFlags_def StringVar_def helpFlag_def outer_pflag_def own_flags_def Let_def image_iff)

abbreviation default_options :: cc_options where
  "default_options \<equiv> NewClusterCapacityOptions\<lparr>AlgorithmProvider := ''DefaultProvider''\<rparr>"

lemma command_options_assigned:
  assumes "fst ` set as \<subseteq> own_flags"
  shows "command_options outer (assignments as @ rest) =
    bind_outcome (parseArgs (command_flags outer) rest
        \<lparr>fs_opt = foldl assign_flag default_options as, fs_help = False, fs_args = []\<rparr>)
      (\<lambda>st. Ok (fs_opt st, fs_help st))"
  using assignments_parsed [OF assms, of outer rest]
  by (simp add: command_options_def AddFlags_def NewClusterCapacityOptions_def Let_def)

lemma command_line_assigned:
  assumes "fst ` set as \<subseteq> own_flags"
  shows "command_options outer (assignments as) = Ok (foldl assign_flag default_options as, False)"
  using command_options_assigned [OF assms, of outer "[]"] by simp

lemma command_line_lacks_argument:
  assumes "fst ` set as \<subseteq> own_flags" "n \<in> own_flags"
  shows "command_options outer (assignments as @ [''--'' @ n]) = Err (''flag needs an argument: --'' @ n)"
  using command_options_assigned [OF assms(1), of outer "[''--'' @ n]"] own_flag_bare [OF assms(2), of outer] by simp

lemma command_line_unknown_flag:
  assumes "fst ` set as \<subseteq> own_flags" "n \<notin> own_flags \<union> {''help''} \<union> of_Name ` set outer"
    "n \<noteq> []" "hd n \<noteq> CHR ''-''" "CHR ''='' \<notin> set n"
  shows "command_options outer (assignments as @ (''--'' @ n) # rest) = Err (''unknown flag: --'' @ n)"
proof -
  have "n \<notin> pf_Name ` set (command_flags outer)" using assms(2) by (simp only: flag_names not_False_eq_True)
  from unregistered_flag [OF assms(3-5) this, of rest] show ?thesis
    unfolding command_options_assigned [OF assms(1), of outer "(''--'' @ n) # rest"] by simp
qed

section \<open>Options and validation\<close>

lemma Validate_Ok_iff:
  "Validate b opt = Ok () \<longleftrightarrow> PodSpecFile opt \<noteq> [] \<and> (b \<or> Kubeconfig opt \<noteq> [])"
  by (auto simp: Validate_def)

section \<open>The expansion\<close>

lemma length_expand_pod: "length (expand_pod uuid ns sp i k) = nat (sp_Num sp - i)"
proof (induction uuid ns sp i k rule: expand_pod.induct)
  case (1 uuid ns sp i k)
  then show ?case by (subst expand_pod.simps) auto
qed

lemma expand_pod_nth:
  "j < nat (sp_Num sp - i) \<Longrightarrow> expand_pod uuid ns sp i k ! j = stamp ns (uuid (k + j)) sp"
proof (induction uuid ns sp i k arbitrary: j rule: expand_pod.induct)
  case (1 uuid ns sp i k)
  then show ?case by (subst expand_pod.simps) (auto simp: nth_Cons split: nat.split)
qed

lemma expand_pod_map: "expand_pod uuid ns sp 0 k = map (\<lambda>j. stamp ns (uuid (k + j)) sp) [0..<nat (sp_Num sp)]"
  by (rule nth_equalityI) (simp_all add: length_expand_pod expand_pod_nth)

lemma length_expand_pods: "length (expand_pods uuid ns sps k) = sum_list (map (\<lambda>sp. nat (sp_Num sp)) sps)"
  by (induction sps arbitrary: k) (simp_all add: Let_def length_expand_pod)

definition pod_name :: "pod \<Rightarrow> string" where
  "pod_name p = om_Name (pod_meta p)"

lemma expand_names:
  "map pod_name (expand_pods uuid ns sps k) = map uuid [k..<k + sum_list (map (\<lambda>sp. nat (sp_Num sp)) sps)]"
proof (induction sps arbitrary: k)
  case (Cons sp sps)
  have "map pod_name (expand_pod uuid ns sp 0 k) = map uuid [k..<k + nat (sp_Num sp)]"
    by (rule nth_equalityI) (simp_all add: expand_pod_map pod_name_def stamp_def)
  moreover have "[k..<k + (nat (sp_Num sp) + m)] = [k..<k + nat (sp_Num sp)] @ [k + nat (sp_Num sp)..<k + nat (sp_Num sp) + m]" for m
    using upt_add_eq_append [of k "k + nat (sp_Num sp)" m] by (simp add: add.assoc)
  ultimately show ?case using Cons.IH by (simp add: Let_def length_expand_pod)
qed simp

lemma expand_member:
  "p \<in> set (expand_pods uuid ns sps k) \<Longrightarrow> \<exists>sp \<in> set sps. \<exists>u. p = stamp ns u sp"
  by (induction sps arbitrary: k) (auto simp: Let_def expand_pod_map)

lemma stamp_unassigned: "unassignedNonTerminatedPod (stamp ns u sp) = unassignedNonTerminatedPod (sp_Pod sp)"
  by (simp add: unassignedNonTerminatedPod_def stamp_def)

section \<open>The simulation of the command\<close>

lemma runSimulator_report:
  assumes enc: "enc_total enc f" and cfg: "SchedulerConfigLocal k (srv_AlgorithmSource srv) = Ok cfg"
    and una: "list_all unassignedNonTerminatedPod simulationPods" and asg: "assigned scheduledPods"
    and run: "runSimulator enc k srv scheduledPods simulationPods nodes now res"
  shows "\<exists>outs. map fst outs = rev simulationPods \<and> res = Ok (GetReport now (final_status outs scheduledPods))"
proof -
  obtain c where c: "sim_New enc k srv simulationPods scheduledPods nodes = Ok (c, \<lparr>lb_SchedulerName = srv_SchedulerName srv\<rparr>, cfg)"
      "sim_inv (srv_SchedulerName srv) simulationPods scheduledPods (cc_objects c) (sim_initial c)" "cc_report c = None"
    using sim_New_Ok [OF enc cfg, of simulationPods scheduledPods nodes] asg by blast
  from run c(1) obtain s where s: "sim_reach (srv_SchedulerName srv) (sim_initial c) s" "ss_pc s = Returned"
      "res = Ok (snd (cc_Report now (ss_cc s)))" by (auto simp: runSimulator_def)
  from returned_result [OF sim_reach_inv [OF s(1) c(2) una] s(2)] obtain outs where
    outs: "map fst outs = rev simulationPods" and st': "cc_status (ss_cc s) = final_status outs scheduledPods" by blast
  have "cc_report (ss_cc s) = None" using sim_reach_report [OF s(1)] c(3) by (simp add: sim_initial_def)
  with outs st' s(3) show ?thesis by (intro exI [of _ outs]) (simp add: cc_Report_def Let_def)
qed

lemma runSimulator_exists:
  assumes enc: "enc_total enc f" and cfg: "SchedulerConfigLocal k (srv_AlgorithmSource srv) = Ok cfg"
    and una: "list_all unassignedNonTerminatedPod simulationPods" and asg: "assigned scheduledPods"
  shows "\<exists>res. runSimulator enc k srv scheduledPods simulationPods nodes now res"
proof -
  obtain c where c: "sim_New enc k srv simulationPods scheduledPods nodes = Ok (c, \<lparr>lb_SchedulerName = srv_SchedulerName srv\<rparr>, cfg)"
      "sim_inv (srv_SchedulerName srv) simulationPods scheduledPods (cc_objects c) (sim_initial c)"
    using sim_New_Ok [OF enc cfg, of simulationPods scheduledPods nodes] asg by blast
  from sim_can_finish [OF c(2) una] obtain s where
    "(sim_step (srv_SchedulerName srv))\<^sup>*\<^sup>* (sim_initial c) s" "sim_done s" by blast
  with sim_reach_steps sim_reach.reach_refl have "sim_reach (srv_SchedulerName srv) (sim_initial c) s" "ss_pc s = Returned"
    by (blast, simp add: sim_done_def)
  with c(1) show ?thesis by (auto simp: runSimulator_def)
qed

text \<open>The three reviews are always there, so printing them cannot dereference a nil pointer.\<close>

lemma print_report_Ok: "\<exists>s. ClusterCapacityReviewPrint tw (GetReport now st) = Ok s"
  by (simp add: ClusterCapacityReviewPrint_def successPodsPrint_def failedPodsPrint_def review_at_def GetReport_def)

lemma run_command_handled: "run_command enc k w tw b help opt now printed \<Longrightarrow> printed \<noteq> Err e"
proof -
  have "(case out of Err e \<Rightarrow> Ok (e @ [CHR 0x0A]) | _ \<Rightarrow> out) \<noteq> Err e" for out :: "string outcome"
    by (cases out) simp_all
  then show "run_command enc k w tw b help opt now printed \<Longrightarrow> printed \<noteq> Err e"
    by (cases "Validate b opt") (auto simp: run_command_def)
qed

lemma printed_process:
  "Ok r = (case printed of Ok out \<Rightarrow> Ok \<lparr>stdout = out, stderr = [], status_code = 0\<rparr> | Err e \<Rightarrow> Err e | Panic p \<Rightarrow> Panic p)
     \<longleftrightarrow> (\<exists>out. printed = Ok out \<and> r = \<lparr>stdout = out, stderr = [], status_code = 0\<rparr>)"
  "Err e = (case printed of Ok out \<Rightarrow> Ok (\<lparr>stdout = out, stderr = [], status_code = 0\<rparr>) | Err e \<Rightarrow> Err e | Panic p \<Rightarrow> Panic p) \<longleftrightarrow> printed = Err e"
  for r :: process
  by (cases printed; auto)+

section \<open>Properties\<close>

text \<open>
  The simulation file expands to as many pods as its entries ask for, in order; each is the
  template of its entry with a fresh identifier as name, and with distinct identifiers the pods have
  distinct names.
\<close>

lemma simulation_file_expansion:
  "length (expand_pods uuid ns sps k) = sum_list (map (\<lambda>sp. nat (sp_Num sp)) sps) \<and>
   map pod_name (expand_pods uuid ns sps k) = map uuid [k..<k + length (expand_pods uuid ns sps k)] \<and>
   (\<forall>p \<in> set (expand_pods uuid ns sps k). \<exists>sp \<in> set sps. \<exists>u. p = stamp ns u sp) \<and>
   (inj uuid \<longrightarrow> distinct (map pod_name (expand_pods uuid ns sps k)))"
  using expand_member [of _ uuid ns sps k]
  by (auto simp: length_expand_pods expand_names distinct_map inj_on_def)



text \<open>
  No command line can set the namespace option, so the checkpoint always covers all namespaces
  and every simulated pod has the empty namespace.
\<close>

lemma namespace_option_unreachable:
  assumes "command_options outer args = Ok (opt, h)"
  shows "opt_Namespace opt = [] \<and>
    (\<forall>sps k. \<forall>p \<in> set (expand_pods uuid (opt_Namespace opt) sps k). om_Namespace (pod_meta p) = [])"
proof -
  have "opt_Namespace opt = []" by (rule command_namespace [OF assms])
  then show ?thesis using expand_member [of _ uuid "opt_Namespace opt"] by (fastforce simp: stamp_def)
qed

end
