(* ===== verification/Node_Info.thy ===== *)
theory Node_Info
  imports Report
begin

text \<open>
  What the scheduler knows about one node
  (\<open>vendor/k8s.io/kubernetes/pkg/scheduler/schedulercache/node_info.go\<close>): the node, the pods
  placed on it and the resources they request together, kept up to date as pods come and go.  The int64
  fields wrap around (\<open>wrap64\<close>).  Of \<open>NodeInfo\<close> the fields the resource predicate reads
  are modelled; ports, affinity, taints and conditions belong to predicates that are parameters.

  The aggregate is shown to be the sum of the requests of the pods, modulo \<open>2 ^ 64\<close>, whatever was
  added and removed before.
\<close>

section \<open>Resources\<close>

record sched_resource =
  res_MilliCPU :: int
  res_Memory :: int
  res_NvidiaGPU :: int
  res_EphemeralStorage :: int
  res_AllowedPodNumber :: int
  res_ScalarResources :: "(string, int) gomap"

definition no_resource :: sched_resource where
  "no_resource = \<lparr>res_MilliCPU = 0, res_Memory = 0, res_NvidiaGPU = 0, res_EphemeralStorage = 0,
     res_AllowedPodNumber = 0, res_ScalarResources = []\<rparr>"

definition ResourceList :: "sched_resource \<Rightarrow> (string, quantity) gomap" where
  "ResourceList r =
     fold (\<lambda>(name, v) m. AList.update name
             (if IsHugePageResourceName name then NewQuantity v BinarySI else NewQuantity v DecimalSI) m)
       (res_ScalarResources r)
       [(ResourceCPU, NewMilliQuantity (res_MilliCPU r) DecimalSI),
        (ResourceMemory, NewQuantity (res_Memory r) BinarySI),
        (ResourceNvidiaGPU, NewQuantity (res_NvidiaGPU r) DecimalSI),
        (ResourcePods, NewQuantity (res_AllowedPodNumber r) BinarySI),
        (ResourceEphemeralStorage, NewQuantity (res_EphemeralStorage r) BinarySI)]"

definition q_MilliValue :: "quantity \<Rightarrow> int" where
  "q_MilliValue q = ScaledValue q (- 3)"

definition scalar_of :: "sched_resource \<Rightarrow> string \<Rightarrow> int" where
  "scalar_of r name = (case map_of (res_ScalarResources r) name of Some v \<Rightarrow> v | None \<Rightarrow> 0)"

definition SetScalar :: "string \<Rightarrow> int \<Rightarrow> sched_resource \<Rightarrow> sched_resource" where
  "SetScalar name q r = r\<lparr>res_ScalarResources := AList.update name q (res_ScalarResources r)\<rparr>"

definition AddScalar :: "string \<Rightarrow> int \<Rightarrow> sched_resource \<Rightarrow> sched_resource" where
  "AddScalar name q r = SetScalar name (wrap64 (scalar_of r name + q)) r"

definition res_add_one :: "string \<times> quantity \<Rightarrow> sched_resource \<Rightarrow> sched_resource" where
  "res_add_one = (\<lambda>(rName, rQuant) r.
     if rName = ResourceCPU then r\<lparr>res_MilliCPU := wrap64 (res_MilliCPU r + q_MilliValue rQuant)\<rparr>
     else if rName = ResourceMemory then r\<lparr>res_Memory := wrap64 (res_Memory r + q_Value rQuant)\<rparr>
     else if rName = ResourceNvidiaGPU then r\<lparr>res_NvidiaGPU := wrap64 (res_NvidiaGPU r + q_Value rQuant)\<rparr>
     else if rName = ResourcePods then r\<lparr>res_AllowedPodNumber := wrap64 (res_AllowedPodNumber r + q_Value rQuant)\<rparr>
     else if rName = ResourceEphemeralStorage then
       r\<lparr>res_EphemeralStorage := wrap64 (res_EphemeralStorage r + q_Value rQuant)\<rparr>
     else if IsScalarResourceName rName then AddScalar rName (q_Value rQuant) r
     else r)"

definition res_Add :: "(string, quantity) gomap \<Rightarrow> sched_resource \<Rightarrow> sched_resource" where
  "res_Add rl r = fold res_add_one rl r"

definition NewResource :: "(string, quantity) gomap \<Rightarrow> sched_resource" where
  "NewResource rl = res_Add rl no_resource"

section \<open>Requests of a pod\<close>

definition DefaultMilliCPURequest :: int where "DefaultMilliCPURequest = 100"
definition DefaultMemoryRequest :: int where "DefaultMemoryRequest = 200 * 1024 * 1024"

definition GetNonzeroRequests :: "(string, quantity) gomap \<Rightarrow> int \<times> int" where
  "GetNonzeroRequests requests =
     (case map_of requests ResourceCPU of None \<Rightarrow> DefaultMilliCPURequest | Some q \<Rightarrow> q_MilliValue q,
      case map_of requests ResourceMemory of None \<Rightarrow> DefaultMemoryRequest | Some q \<Rightarrow> q_Value q)"

definition calculateResource :: "pod \<Rightarrow> sched_resource \<times> int \<times> int" where
  "calculateResource p =
     fold (\<lambda>c (res, cpu, mem).
        (res_Add (ctr_Requests c) res,
         wrap64 (cpu + fst (GetNonzeroRequests (ctr_Requests c))),
         wrap64 (mem + snd (GetNonzeroRequests (ctr_Requests c)))))
       (pod_Containers p) (no_resource, 0, 0)"

section \<open>Node information\<close>

record node_info =
  ni_node :: "node option"
  ni_pods :: "pod list"
  ni_requested :: sched_resource
  ni_nonzero :: "int \<times> int"
  ni_allocatable :: sched_resource
  ni_generation :: int

definition empty_node_info :: node_info where
  "empty_node_info =
     \<lparr>ni_node = None, ni_pods = [], ni_requested = no_resource, ni_nonzero = (0, 0),
      ni_allocatable = no_resource, ni_generation = 0\<rparr>"

definition combine64 :: "(int \<Rightarrow> int \<Rightarrow> int) \<Rightarrow> sched_resource \<Rightarrow> sched_resource \<Rightarrow> sched_resource" where
  "combine64 f r res =
     (let r = r\<lparr>res_MilliCPU := wrap64 (f (res_MilliCPU r) (res_MilliCPU res)),
                res_Memory := wrap64 (f (res_Memory r) (res_Memory res)),
                res_NvidiaGPU := wrap64 (f (res_NvidiaGPU r) (res_NvidiaGPU res)),
                res_EphemeralStorage := wrap64 (f (res_EphemeralStorage r) (res_EphemeralStorage res))\<rparr>
      in fold (\<lambda>(name, q) r. SetScalar name (wrap64 (f (scalar_of r name) q)) r) (res_ScalarResources res) r)"

definition ni_AddPod :: "pod \<Rightarrow> node_info \<Rightarrow> node_info" where
  "ni_AddPod p n =
     (case calculateResource p of
        (res, non0CPU, non0Mem) \<Rightarrow>
          n\<lparr>ni_requested := combine64 (+) (ni_requested n) res,
            ni_nonzero := (wrap64 (fst (ni_nonzero n) + non0CPU), wrap64 (snd (ni_nonzero n) + non0Mem)),
            ni_pods := ni_pods n @ [p], ni_generation := wrap64 (ni_generation n + 1)\<rparr>)"

definition NewNodeInfo :: "pod list \<Rightarrow> node_info" where
  "NewNodeInfo pods = fold ni_AddPod pods empty_node_info"

definition getPodKey :: "pod \<Rightarrow> string outcome" where
  "getPodKey p =
     (let uid = om_UID (pod_meta p) in
      if length uid = 0 then Err ''Cannot get cache key for pod with empty UID'' else Ok uid)"

text \<open>The first pod with the key; one whose own key cannot be had is skipped.\<close>

fun find_pod :: "string \<Rightarrow> pod list \<Rightarrow> nat option" where
  "find_pod k [] = None"
| "find_pod k (p # ps) = (if getPodKey p = Ok k then Some 0 else map_option Suc (find_pod k ps))"

text \<open>The last element takes the place of the removed one.\<close>

definition remove_swap :: "nat \<Rightarrow> 'a list \<Rightarrow> 'a list" where
  "remove_swap i xs = butlast (xs[i := last xs])"

definition ni_RemovePod :: "pod \<Rightarrow> node_info \<Rightarrow> node_info \<times> unit outcome" where
  "ni_RemovePod p n =
     (case getPodKey p of
        Err e \<Rightarrow> (n, Err e)
      | Panic x \<Rightarrow> (n, Panic x)
      | Ok k1 \<Rightarrow>
          (case find_pod k1 (ni_pods n) of
             None \<Rightarrow>
               (case ni_node n of
                  None \<Rightarrow> (n, Panic ''nil pointer dereference'')
                | Some node \<Rightarrow>
                    (n, Err (''no corresponding pod '' @ om_Name (pod_meta p) @ '' in pods of node '' @ om_Name (node_meta node))))
           | Some i \<Rightarrow>
               (case calculateResource p of
                  (res, non0CPU, non0Mem) \<Rightarrow>
                    (n\<lparr>ni_pods := remove_swap i (ni_pods n),
                       ni_requested := combine64 (-) (ni_requested n) res,
                       ni_nonzero := (wrap64 (fst (ni_nonzero n) - non0CPU), wrap64 (snd (ni_nonzero n) - non0Mem)),
                       ni_generation := wrap64 (ni_generation n + 1)\<rparr>, Ok ()))))"

definition ni_SetNode :: "node \<Rightarrow> node_info \<Rightarrow> node_info" where
  "ni_SetNode x n =
     n\<lparr>ni_node := Some x, ni_allocatable := NewResource (node_Allocatable x),
       ni_generation := wrap64 (ni_generation n + 1)\<rparr>"

definition ni_RemoveNode :: "node_info \<Rightarrow> node_info" where
  "ni_RemoveNode n =
     n\<lparr>ni_node := None, ni_allocatable := no_resource, ni_generation := wrap64 (ni_generation n + 1)\<rparr>"

section \<open>One amount per resource name\<close>

text \<open>The amount of a resource by its name, and the amount a quantity stands for under this name.\<close>

definition res_get :: "sched_resource \<Rightarrow> string \<Rightarrow> int" where
  "res_get r name =
     (if name = ResourceCPU then res_MilliCPU r else if name = ResourceMemory then res_Memory r
      else if name = ResourceNvidiaGPU then res_NvidiaGPU r else if name = ResourcePods then res_AllowedPodNumber r
      else if name = ResourceEphemeralStorage then res_EphemeralStorage r else scalar_of r name)"

definition q_amount :: "string \<Rightarrow> quantity \<Rightarrow> int" where
  "q_amount name q = (if name = ResourceCPU then q_MilliValue q else q_Value q)"

definition counted :: "string \<Rightarrow> bool" where
  "counted name =
     (name \<in> {ResourceCPU, ResourceMemory, ResourceNvidiaGPU, ResourcePods, ResourceEphemeralStorage} \<or>
      IsScalarResourceName name)"

definition rl_amount :: "(string, quantity) gomap \<Rightarrow> string \<Rightarrow> int" where
  "rl_amount rl name = (case map_of rl name of Some q \<Rightarrow> (if counted name then q_amount name q else 0) | None \<Rightarrow> 0)"

definition scalars_ok :: "sched_resource \<Rightarrow> bool" where
  "scalars_ok r = (gomap_wf (res_ScalarResources r) \<and> (\<forall>name \<in> fst ` set (res_ScalarResources r). IsScalarResourceName name))"

definition res_ok :: "sched_resource \<Rightarrow> bool" where
  "res_ok r = (scalars_ok r \<and> (\<forall>name. int64_range (res_get r name)))"

lemma wrap64_add [simp]: "wrap64 (wrap64 a + b) = wrap64 (a + b)" "wrap64 (a + wrap64 b) = wrap64 (a + b)"
  by (simp_all add: wrap64_def algebra_simps mod_simps)

lemma wrap64_diff [simp]: "wrap64 (wrap64 a - b) = wrap64 (a - b)" "wrap64 (a - wrap64 b) = wrap64 (a - b)"
  by (simp_all add: wrap64_def algebra_simps mod_simps)

lemma wrap64_sum_list: "wrap64 (sum_list (map (\<lambda>x. wrap64 (g x)) xs)) = wrap64 (sum_list (map g xs))"
proof (induction xs)
  case (Cons x xs)
  have "wrap64 (wrap64 (g x) + sum_list (map (\<lambda>x. wrap64 (g x)) xs)) =
      wrap64 (g x + wrap64 (sum_list (map (\<lambda>x. wrap64 (g x)) xs)))" by simp
  with Cons show ?case by simp
qed simp

lemma scalar_of_SetScalar: "scalar_of (SetScalar name q r) n = (if n = name then q else scalar_of r n)"
  by (simp add: scalar_of_def SetScalar_def update_conv')

lemma SetScalar_fields [simp]:
  "res_MilliCPU (SetScalar name q r) = res_MilliCPU r" "res_Memory (SetScalar name q r) = res_Memory r"
  "res_NvidiaGPU (SetScalar name q r) = res_NvidiaGPU r"
  "res_EphemeralStorage (SetScalar name q r) = res_EphemeralStorage r"
  "res_AllowedPodNumber (SetScalar name q r) = res_AllowedPodNumber r"
  by (simp_all add: SetScalar_def)

lemma scalar_of_updates [simp]:
  "scalar_of (r\<lparr>res_MilliCPU := v\<rparr>) n = scalar_of r n" "scalar_of (r\<lparr>res_Memory := v\<rparr>) n = scalar_of r n"
  "scalar_of (r\<lparr>res_NvidiaGPU := v\<rparr>) n = scalar_of r n" "scalar_of (r\<lparr>res_EphemeralStorage := v\<rparr>) n = scalar_of r n"
  "scalar_of (r\<lparr>res_AllowedPodNumber := v\<rparr>) n = scalar_of r n"
  by (simp_all add: scalar_of_def)

lemma primary_distinct:
  "distinct [ResourceCPU, ResourceMemory, ResourceNvidiaGPU, ResourcePods, ResourceEphemeralStorage]"
  by code_simp

lemma res_get_Pods: "res_get r ResourcePods = res_AllowedPodNumber r"
  by (simp add: res_get_def ResourcePods_def ResourceCPU_def ResourceMemory_def ResourceNvidiaGPU_def)

lemma res_get_SetScalar:
  "IsScalarResourceName name \<Longrightarrow> res_get (SetScalar name q r) n = (if n = name then q else res_get r n)"
  using primary_not_scalar by (auto simp: res_get_def scalar_of_SetScalar)

lemma res_get_add_one:
  "res_get (res_add_one (name, q) r) n =
     (if n = name \<and> counted n then wrap64 (res_get r n + q_amount n q) else res_get r n)"
  using primary_distinct primary_not_scalar res_get_SetScalar [of name _ r n]
  by (auto simp: res_add_one_def res_get_def q_amount_def counted_def AddScalar_def)

lemma scalars_ok_SetScalar: "scalars_ok r \<Longrightarrow> IsScalarResourceName name \<Longrightarrow> scalars_ok (SetScalar name q r)"
  by (auto simp: scalars_ok_def SetScalar_def dom_update)

lemma SetScalar_ok: "res_ok r \<Longrightarrow> IsScalarResourceName name \<Longrightarrow> int64_range q \<Longrightarrow> res_ok (SetScalar name q r)"
  by (simp add: res_ok_def scalars_ok_SetScalar res_get_SetScalar)

lemma no_resource_ok [simp]: "res_ok no_resource" and no_resource_get [simp]: "res_get no_resource name = 0"
  by (simp_all add: res_ok_def scalars_ok_def no_resource_def res_get_def scalar_of_def int64_defs)

lemma scalars_ok_add_one: "scalars_ok r \<Longrightarrow> scalars_ok (res_add_one x r)"
  by (cases x) (auto simp: res_add_one_def AddScalar_def scalars_ok_SetScalar; simp add: scalars_ok_def)

lemma add_one_ok: "res_ok r \<Longrightarrow> res_ok (res_add_one x r)"
  by (cases x) (auto simp: res_ok_def res_get_add_one scalars_ok_add_one)

lemma res_Add_ok: "res_ok r \<Longrightarrow> res_ok (res_Add rl r)"
  unfolding res_Add_def by (induction rl arbitrary: r) (auto intro: add_one_ok)

text \<open>\<open>Add\<close> adds what the list holds, wrapping around.\<close>

lemma res_get_Add: "gomap_wf rl \<Longrightarrow> res_ok r \<Longrightarrow> res_get (res_Add rl r) n = wrap64 (res_get r n + rl_amount rl n)"
proof (induction rl arbitrary: r)
  case (Cons x rl)
  obtain name q where x: "x = (name, q)" by fastforce
  have "res_get (res_Add (x # rl) r) n = wrap64 (res_get (res_add_one x r) n + rl_amount rl n)"
    using Cons.IH [OF _ add_one_ok [OF Cons.prems(2)], of x] Cons.prems(1) by (simp add: res_Add_def)
  moreover have "n = name \<Longrightarrow> map_of rl n = None" using Cons.prems(1) x by (auto simp: map_of_eq_None_iff)
  ultimately show ?case
    by (auto simp: x res_get_add_one rl_amount_def split: option.split)
qed (simp add: res_Add_def rl_amount_def res_ok_def)

lemma fst_calculateResource:
  "fst (calculateResource p) = fold (\<lambda>c. res_Add (ctr_Requests c)) (pod_Containers p) no_resource"
proof -
  have "fst (fold (\<lambda>c (res, cpu, mem). (res_Add (ctr_Requests c) res, f cpu c, g mem c)) cs (r, a, b)) =
      fold (\<lambda>c. res_Add (ctr_Requests c)) cs r" for cs r and a b :: int and f g :: "int \<Rightarrow> container \<Rightarrow> int"
    by (induction cs arbitrary: r a b) simp_all
  from this [of "\<lambda>cpu c. wrap64 (cpu + fst (GetNonzeroRequests (ctr_Requests c)))"
      "\<lambda>mem c. wrap64 (mem + snd (GetNonzeroRequests (ctr_Requests c)))"]
  show ?thesis by (simp add: calculateResource_def)
qed

definition pod_amount :: "pod \<Rightarrow> string \<Rightarrow> int" where
  "pod_amount p = res_get (fst (calculateResource p))"

lemma calculateResource_ok: "res_ok (fst (calculateResource p))"
proof -
  have "res_ok r \<Longrightarrow> res_ok (fold (\<lambda>c. res_Add (ctr_Requests c)) cs r)" for cs r
    by (induction cs arbitrary: r) (auto intro: res_Add_ok)
  from this [OF no_resource_ok] show ?thesis by (simp only: fst_calculateResource)
qed

section \<open>The aggregate is the sum of the pods\<close>

lemma scalar_of_get: "IsScalarResourceName n \<Longrightarrow> scalar_of r n = res_get r n"
  using primary_not_scalar by (auto simp: res_get_def)

lemma combine_scalars:
  assumes "gomap_wf xs" "\<forall>name \<in> fst ` set xs. IsScalarResourceName name" "res_ok r"
  shows "res_ok (fold (\<lambda>(name, q) r. SetScalar name (wrap64 (f (scalar_of r name) q)) r) xs r) \<and>
    res_get (fold (\<lambda>(name, q) r. SetScalar name (wrap64 (f (scalar_of r name) q)) r) xs r) n =
     (case map_of xs n of Some q \<Rightarrow> wrap64 (f (res_get r n) q) | None \<Rightarrow> res_get r n)"
  using assms
proof (induction xs arbitrary: r)
  case (Cons x xs)
  obtain name q where x: "x = (name, q)" by fastforce
  have name: "IsScalarResourceName name" "n = name \<Longrightarrow> map_of xs n = None"
    using Cons.prems(1,2) x by (auto simp: map_of_eq_None_iff)
  let ?r = "SetScalar name (wrap64 (f (scalar_of r name) q)) r"
  have "res_ok ?r" using Cons.prems(3) name(1) by (simp add: SetScalar_ok)
  with Cons.IH [of ?r] Cons.prems(1,2) name show ?case
    by (auto simp: x res_get_SetScalar scalar_of_get split: option.split)
qed simp

lemma combine64_get:
  assumes "res_ok r" "res_ok res" "\<And>a. f a 0 = a"
  shows "res_ok (combine64 f r res) \<and>
    (n \<noteq> ResourcePods \<longrightarrow> res_get (combine64 f r res) n = wrap64 (f (res_get r n) (res_get res n)))"
proof -
  let ?r = "r\<lparr>res_MilliCPU := wrap64 (f (res_MilliCPU r) (res_MilliCPU res)),
              res_Memory := wrap64 (f (res_Memory r) (res_Memory res)),
              res_NvidiaGPU := wrap64 (f (res_NvidiaGPU r) (res_NvidiaGPU res)),
              res_EphemeralStorage := wrap64 (f (res_EphemeralStorage r) (res_EphemeralStorage res))\<rparr>"
  have get: "res_get ?r n =
      (if n \<in> {ResourceCPU, ResourceMemory, ResourceNvidiaGPU, ResourceEphemeralStorage}
       then wrap64 (f (res_get r n) (res_get res n)) else res_get r n)" for n
    using primary_distinct by (auto simp: res_get_def scalar_of_def)
  then have ok: "res_ok ?r" using assms(1) by (auto simp: res_ok_def scalars_ok_def)
  have sc: "gomap_wf (res_ScalarResources res)" "\<forall>name \<in> fst ` set (res_ScalarResources res). IsScalarResourceName name"
    using assms(2) by (auto simp: res_ok_def scalars_ok_def)
  have "map_of (res_ScalarResources res) n = None \<or> IsScalarResourceName n"
    using sc(2) by (auto simp: map_of_eq_None_iff)
  moreover have "res_get res n = (case map_of (res_ScalarResources res) n of Some q \<Rightarrow> q | None \<Rightarrow> 0)"
    if "n \<notin> {ResourceCPU, ResourceMemory, ResourceNvidiaGPU, ResourcePods, ResourceEphemeralStorage}"
    using that by (simp add: res_get_def scalar_of_def)
  moreover have "wrap64 (f (res_get r n) 0) = res_get r n" using assms(1,3) by (simp add: res_ok_def)
  ultimately show ?thesis
    using combine_scalars [OF sc ok, of f n] primary_not_scalar
    by (auto simp: combine64_def Let_def get split: option.splits)
qed

text \<open>The requested resources of a node are those of its pods together, modulo the width of the fields.\<close>

definition ni_sums :: "node_info \<Rightarrow> bool" where
  "ni_sums n =
     (res_ok (ni_requested n) \<and>
      (\<forall>name. name \<noteq> ResourcePods \<longrightarrow>
         res_get (ni_requested n) name = wrap64 (sum_list (map (\<lambda>p. pod_amount p name) (ni_pods n)))))"

lemma ni_sums_empty: "ni_sums empty_node_info"
  by (simp add: ni_sums_def empty_node_info_def int64_defs wrap64_def)

lemma ni_AddPod_simps [simp]:
  "ni_pods (ni_AddPod p n) = ni_pods n @ [p]" "ni_node (ni_AddPod p n) = ni_node n"
  "ni_allocatable (ni_AddPod p n) = ni_allocatable n"
  "ni_requested (ni_AddPod p n) = combine64 (+) (ni_requested n) (fst (calculateResource p))"
  by (simp_all add: ni_AddPod_def split: prod.split)

lemma AddPod_get:
  assumes "ni_sums n" "name \<noteq> ResourcePods"
  shows "res_get (ni_requested (ni_AddPod p n)) name = wrap64 (res_get (ni_requested n) name + pod_amount p name)"
  using combine64_get [OF _ calculateResource_ok, of "ni_requested n" "(+)"] assms by (simp add: ni_sums_def pod_amount_def)

lemma ni_sums_AddPod: "ni_sums n \<Longrightarrow> ni_sums (ni_AddPod p n)"
  using combine64_get [OF _ calculateResource_ok, of "ni_requested n" "(+)"]
  by (auto simp: ni_sums_def pod_amount_def)

lemma ni_sums_SetNode: "ni_sums (ni_SetNode x n) = ni_sums n" "ni_sums (ni_RemoveNode n) = ni_sums n"
  by (simp_all add: ni_sums_def ni_SetNode_def ni_RemoveNode_def)

text \<open>Removing a pod takes the one with its key away; its requests have to be those it was added with.\<close>

lemma find_pod_Some:
  "find_pod k ps = Some i \<Longrightarrow> i < length ps \<and> getPodKey (ps ! i) = Ok k"
  by (induction ps arbitrary: i) (auto split: if_splits)

lemma find_pod_None: "find_pod k ps = None \<longleftrightarrow> (\<forall>p \<in> set ps. getPodKey p \<noteq> Ok k)"
  by (induction ps) auto

lemma remove_swap_mset: "i < length xs \<Longrightarrow> mset (remove_swap i xs) = mset xs - {#xs ! i#}"
proof -
  assume i: "i < length xs"
  then have ne: "xs \<noteq> []" by auto
  have "xs[i := last xs] \<noteq> []" using ne by simp
  then have "mset (xs[i := last xs]) = mset (remove_swap i xs) + {#last (xs[i := last xs])#}"
    unfolding remove_swap_def by (metis append_butlast_last_id mset_append mset_single_iff_right mset.simps(2) add_mset_add_single empty_neutral(1) mset.simps(1))
  moreover have "last (xs[i := last xs]) = last xs" using ne i by (simp add: last_list_update)
  moreover have "mset (xs[i := last xs]) = add_mset (last xs) (mset xs - {#xs ! i#})" using i by (simp add: mset_update)
  ultimately show ?thesis by simp
qed

lemma sum_remove_swap:
  fixes g :: "'a \<Rightarrow> int"
  assumes "i < length xs"
  shows "sum_list (map g (remove_swap i xs)) = sum_list (map g xs) - g (xs ! i)"
proof -
  have "sum_mset (image_mset g (mset (remove_swap i xs))) = sum_mset (image_mset g (mset xs)) - g (xs ! i)"
    using assms by (simp add: remove_swap_mset image_mset_Diff sum_mset_diff)
  then show ?thesis by (simp flip: sum_mset_sum_list add: mset_map)
qed

lemma ni_RemovePod_found:
  assumes "getPodKey p = Ok k" "find_pod k (ni_pods n) = Some i"
  shows "snd (ni_RemovePod p n) = Ok ()" "ni_pods (fst (ni_RemovePod p n)) = remove_swap i (ni_pods n)"
    "ni_requested (fst (ni_RemovePod p n)) = combine64 (-) (ni_requested n) (fst (calculateResource p))"
    "ni_node (fst (ni_RemovePod p n)) = ni_node n" "ni_allocatable (fst (ni_RemovePod p n)) = ni_allocatable n"
  using assms by (simp_all add: ni_RemovePod_def split: prod.split)

definition same_requests :: "pod \<Rightarrow> node_info \<Rightarrow> bool" where
  "same_requests p n = (\<forall>q \<in> set (ni_pods n). getPodKey q = getPodKey p \<longrightarrow> pod_amount q = pod_amount p)"

lemma ni_sums_RemovePod:
  assumes "ni_sums n" "same_requests p n" shows "ni_sums (fst (ni_RemovePod p n))"
proof (cases "getPodKey p")
  case (Ok k)
  show ?thesis
  proof (cases "find_pod k (ni_pods n)")
    case (Some i)
    from find_pod_Some [OF this] have i: "i < length (ni_pods n)" "getPodKey (ni_pods n ! i) = Ok k" by auto
    with assms(2) Ok have "pod_amount (ni_pods n ! i) = pod_amount p" by (simp add: same_requests_def)
    with sum_remove_swap [OF i(1), of "\<lambda>p. pod_amount p _"] assms(1)
      combine64_get [OF _ calculateResource_ok, of "ni_requested n" "(-)"]
    show ?thesis
      by (auto simp: ni_sums_def ni_RemovePod_found [OF Ok Some] pod_amount_def [of p, symmetric] fun_eq_iff)
  qed (use assms(1) Ok in \<open>simp add: ni_RemovePod_def split: option.split\<close>)
qed (use assms(1) in \<open>simp_all add: ni_RemovePod_def\<close>)

text \<open>What a pod requests: the sum over its containers.\<close>

definition requests_maps :: "pod \<Rightarrow> bool" where
  "requests_maps p = list_all (\<lambda>c. gomap_wf (ctr_Requests c)) (pod_Containers p)"

lemma pod_amount_sum:
  assumes "requests_maps p"
  shows "pod_amount p name = wrap64 (sum_list (map (\<lambda>c. rl_amount (ctr_Requests c) name) (pod_Containers p)))"
proof -
  have "list_all (\<lambda>c. gomap_wf (ctr_Requests c)) cs \<Longrightarrow> res_ok r \<Longrightarrow>
      res_get (fold (\<lambda>c. res_Add (ctr_Requests c)) cs r) name =
      wrap64 (res_get r name + sum_list (map (\<lambda>c. rl_amount (ctr_Requests c) name) cs))" for cs r
    by (induction cs arbitrary: r) (simp_all add: res_Add_ok res_get_Add add.assoc, simp add: res_ok_def)
  from this [of "pod_Containers p" no_resource] assms show ?thesis
    by (simp add: pod_amount_def fst_calculateResource requests_maps_def)
qed

section \<open>Properties\<close>

inductive ni_reach :: "node_info \<Rightarrow> bool" where
  "ni_reach empty_node_info"
| "ni_reach n \<Longrightarrow> ni_reach (ni_AddPod p n)"
| "ni_reach n \<Longrightarrow> same_requests p n \<Longrightarrow> ni_reach (fst (ni_RemovePod p n))"
| "ni_reach n \<Longrightarrow> ni_reach (ni_SetNode x n)"
| "ni_reach n \<Longrightarrow> ni_reach (ni_RemoveNode n)"

lemma ni_reach_sums: "ni_reach n \<Longrightarrow> ni_sums n"
  by (induction rule: ni_reach.induct) (auto simp: ni_sums_empty ni_sums_AddPod ni_sums_RemovePod ni_sums_SetNode)

text \<open>
  Whatever pods were added to and removed from a node, the requested amount of every resource
  is the sum of the requests of the containers of the pods it holds now, modulo the 64 bits of the
  counter, provided a pod is removed with the requests it was added with.
\<close>

lemma node_info_sums:
  assumes "ni_reach n" "name \<noteq> ResourcePods" "list_all requests_maps (ni_pods n)"
  shows "res_get (ni_requested n) name =
    wrap64 (sum_list (map (\<lambda>p. sum_list (map (\<lambda>c. rl_amount (ctr_Requests c) name) (pod_Containers p))) (ni_pods n)))"
proof -
  have "map (\<lambda>p. pod_amount p name) (ni_pods n) =
      map (\<lambda>p. wrap64 (sum_list (map (\<lambda>c. rl_amount (ctr_Requests c) name) (pod_Containers p)))) (ni_pods n)"
    using assms(3) by (simp add: pod_amount_sum list_all_iff)
  then have "wrap64 (sum_list (map (\<lambda>p. pod_amount p name) (ni_pods n))) =
      wrap64 (sum_list (map (\<lambda>p. sum_list (map (\<lambda>c. rl_amount (ctr_Requests c) name) (pod_Containers p))) (ni_pods n)))"
    by (simp only: wrap64_sum_list)
  then show ?thesis using ni_reach_sums [OF assms(1)] assms(2) by (simp add: ni_sums_def)
qed

end
