(* ===== verification/Samples.thy ===== *)
theory Samples
  imports Command Node_Info
begin

text \<open>
  The sample program (\<open>pkg/main.go\<close>): sample pods and nodes of a given size, checkpoints
  read from files, and the constants it passes on.  Its \<open>getCheckpoints\<close> and
  \<open>runSimulator\<close> are copies of those in \<open>cmd/app/server.go\<close>.
\<close>

definition MB :: int where "MB = 1024 * 1024"
definition GB :: int where "GB = MB * 1024"
definition CPU :: int where "CPU = 1000"

definition newSamplePod :: "sched_resource list \<Rightarrow> pod" where
  "newSamplePod usage = empty_pod\<lparr>pod_Containers := map (\<lambda>req. \<lparr>ctr_Requests = ResourceList req\<rparr>) usage\<rparr>"

definition newSampleNode :: "sched_resource \<Rightarrow> node" where
  "newSampleNode usage = empty_node\<lparr>node_Capacity := ResourceList usage, node_Allocatable := ResourceList usage\<rparr>"

definition named_pod :: "string \<Rightarrow> pod \<Rightarrow> pod" where
  "named_pod u p = p\<lparr>pod_meta := (pod_meta p)\<lparr>om_UID := u, om_Name := u\<rparr>\<rparr>"

definition named_node :: "string \<Rightarrow> node \<Rightarrow> node" where
  "named_node u x = x\<lparr>node_meta := (node_meta x)\<lparr>om_UID := u, om_Name := u\<rparr>\<rparr>"

text \<open>The loops; a count that is not positive gives an empty list.\<close>

fun sample_pods_loop :: "(nat \<Rightarrow> string) \<Rightarrow> sched_resource \<Rightarrow> nat \<Rightarrow> nat \<Rightarrow> pod list" where
  "sample_pods_loop uuid res 0 k = []"
| "sample_pods_loop uuid res (Suc n) k =
     named_pod (uuid k) (newSamplePod [res]) # sample_pods_loop uuid res n (k + 1)"

definition createSamplePods :: "(nat \<Rightarrow> string) \<Rightarrow> int \<Rightarrow> sched_resource \<Rightarrow> nat \<Rightarrow> pod list" where
  "createSamplePods uuid podNum podRes k = sample_pods_loop uuid podRes (nat podNum) k"

fun sample_nodes_loop :: "(nat \<Rightarrow> string) \<Rightarrow> sched_resource \<Rightarrow> nat \<Rightarrow> nat \<Rightarrow> node list" where
  "sample_nodes_loop uuid res 0 k = []"
| "sample_nodes_loop uuid res (Suc n) k =
     named_node (uuid k) (newSampleNode res) # sample_nodes_loop uuid res n (k + 1)"

definition createSampleNodes :: "(nat \<Rightarrow> string) \<Rightarrow> int \<Rightarrow> sched_resource \<Rightarrow> nat \<Rightarrow> node list" where
  "createSampleNodes uuid nodeNum nodeRes k = sample_nodes_loop uuid nodeRes (nat nodeNum) k"

definition createSampleResource :: "(nat \<Rightarrow> string) \<Rightarrow> (node list \<times> pod list) outcome" where
  "createSampleResource uuid =
     (let podRes = no_resource\<lparr>res_MilliCPU := 1 * CPU, res_Memory := 1 * GB\<rparr>;
          pods = createSamplePods uuid 2 podRes 0;
          nodeRes = no_resource\<lparr>res_MilliCPU := 1 * CPU, res_Memory := 1 * GB, res_AllowedPodNumber := 1000\<rparr>;
          nodes = createSampleNodes uuid 2 nodeRes 2
      in Ok (nodes, pods))"

text \<open>The checkpoint files; reading and JSON decoding are parameters.\<close>

definition getPodsCheckPoint :: "(string \<Rightarrow> string outcome) \<Rightarrow> (string \<Rightarrow> pod list outcome) \<Rightarrow> pod list outcome" where
  "getPodsCheckPoint read decode = bind_outcome (read ''pods.json'') (\<lambda>d. bind_outcome (decode d) (\<lambda>pods. Ok pods))"

definition getNodeCheckPoint :: "(string \<Rightarrow> string outcome) \<Rightarrow> (string \<Rightarrow> node list outcome) \<Rightarrow> node list outcome" where
  "getNodeCheckPoint read decode = bind_outcome (read ''nodes.json'') (\<lambda>d. bind_outcome (decode d) (\<lambda>nodes. Ok nodes))"

definition anaCheckPoint ::
    "(string \<Rightarrow> string outcome) \<Rightarrow> (string \<Rightarrow> pod list outcome) \<Rightarrow> (string \<Rightarrow> node list outcome) \<Rightarrow>
       (node list \<times> pod list) outcome" where
  "anaCheckPoint read dp dn =
     bind_outcome (getPodsCheckPoint read dp)
       (\<lambda>pods. bind_outcome (getNodeCheckPoint read dn) (\<lambda>nodes. Ok (nodes, pods)))"

definition homeDir :: "(string \<Rightarrow> string) \<Rightarrow> string" where
  "homeDir getenv = (let h = getenv ''HOME'' in if h \<noteq> [] then h else getenv ''USERPROFILE'')"

text \<open>\<open>filepath.Clean\<close> and \<open>filepath.Join\<close> on a slash-separated system.\<close>

fun clean_parts :: "bool \<Rightarrow> string list \<Rightarrow> string list \<Rightarrow> string list" where
  "clean_parts rooted acc [] = rev acc"
| "clean_parts rooted acc (x # xs) =
     (if x = [] \<or> x = ''.'' then clean_parts rooted acc xs
      else if x = ''..'' then
        (case acc of
           y # ys \<Rightarrow> clean_parts rooted (if y = ''..'' then x # acc else ys) xs
         | [] \<Rightarrow> clean_parts rooted (if rooted then [] else [x]) xs)
      else clean_parts rooted (x # acc) xs)"

definition path_Clean :: "string \<Rightarrow> string" where
  "path_Clean path =
     (let rooted = HasPrefix path ''/'';
          out = (if rooted then ''/'' else []) @ Join ''/'' (clean_parts rooted [] (Split (CHR ''/'') path))
      in if out = [] then ''.'' else out)"

definition path_Join :: "string list \<Rightarrow> string" where
  "path_Join elems = (let es = filter (\<lambda>e. e \<noteq> []) elems in if es = [] then [] else path_Clean (Join ''/'' es))"

text \<open>
  The flag \<open>kubeconfig\<close> is defined after \<open>flag.Parse\<close> has run, so it keeps its default.
\<close>

definition main_kubeconfig :: "(string \<Rightarrow> string) \<Rightarrow> string" where
  "main_kubeconfig getenv =
     (let home = homeDir getenv in if home \<noteq> [] then path_Join [home, ''.kube'', ''config''] else [])"

definition fatal :: "string \<Rightarrow> 'a outcome \<Rightarrow> 'a outcome" where
  "fatal msg r = (case r of Err e \<Rightarrow> Panic (msg @ e) | _ \<Rightarrow> r)"

definition main_server :: sched_server where
  "main_server =
     \<lparr>srv_SchedulerName = ''test'',
      srv_AlgorithmSource = \<lparr>as_Policy = None, as_Provider = Some ''TalkintDataProvider''\<rparr>\<rparr>"

definition main_getCheckpoints :: "('conf, 'cl, 'file) world \<Rightarrow> 'cl \<Rightarrow> string \<Rightarrow> (pod list \<times> node list) outcome" where
  "main_getCheckpoints w cl namespace =
     bind_outcome (ListPods w cl namespace ''status.phase=Running'')
       (\<lambda>pods. bind_outcome (ListNodes w cl) (\<lambda>nodes. Ok (pods, nodes)))"

definition main_runSimulator ::
    "encoder \<Rightarrow> ('cfg, 'pol) configurator \<Rightarrow> sched_server \<Rightarrow> pod list \<Rightarrow> node list \<Rightarrow> pod list \<Rightarrow> int \<Rightarrow>
       general_review outcome \<Rightarrow> bool" where
  "main_runSimulator enc k srv pods nodes newPods now res =
     (case sim_New enc k srv newPods pods nodes of
        Err e \<Rightarrow> res = Err e
      | Panic p \<Rightarrow> res = Panic p
      | Ok (c, lb, cfg) \<Rightarrow>
          (\<exists>s. sim_reach (srv_SchedulerName srv) (sim_initial c) s \<and> ss_pc s = Returned \<and>
             res = Ok (snd (cc_Report now (ss_cc s)))))"

lemma main_copies:
  "main_getCheckpoints = getCheckpoints"
  "main_runSimulator enc k srv pods nodes newPods = runSimulator enc k srv pods newPods nodes"
  by (intro ext, simp_all add: main_getCheckpoints_def getCheckpoints_def main_runSimulator_def runSimulator_def fun_eq_iff)

definition main_inputs ::
    "('conf, 'cl, 'file) world \<Rightarrow> (string \<Rightarrow> string) \<Rightarrow> (pod list \<times> pod list \<times> node list) outcome" where
  "main_inputs w getenv =
     (let newPods = createSamplePods (uuid_New w) 100 (no_resource\<lparr>res_MilliCPU := 9 * CPU, res_Memory := 43 * GB\<rparr>) 0 in
      bind_outcome (fatal ''Failed to get config: '' (BuildConfigFromFlags w (main_kubeconfig getenv)))
        (\<lambda>config. bind_outcome (fatal ''Failed to create clientset: '' (NewForConfig w config))
           (\<lambda>cl. bind_outcome (fatal ''Failed to get checkpoints: '' (main_getCheckpoints w cl []))
              (\<lambda>(pods, nodes). bind_outcome (fatal ''Failed to create scheduler server: '' (NewSchedulerServer w main_server ''localhost''))
                 (\<lambda>_. Ok (pods, newPods, nodes))))))"

definition sample_main ::
    "encoder \<Rightarrow> ('cfg, 'pol) configurator \<Rightarrow> ('conf, 'cl, 'file) world \<Rightarrow> table_writer \<Rightarrow>
       (string \<Rightarrow> string) \<Rightarrow> int \<Rightarrow> string outcome \<Rightarrow> bool" where
  "sample_main enc k w tw getenv now out =
     (case main_inputs w getenv of
        Err e \<Rightarrow> out = Err e
      | Panic p \<Rightarrow> out = Panic p
      | Ok (pods, newPods, nodes) \<Rightarrow>
          (\<exists>res. main_runSimulator enc k main_server pods nodes newPods now res \<and>
             out = (case res of
                      Ok report \<Rightarrow> ClusterCapacityReviewPrint tw report
                    | Err e \<Rightarrow> Panic (''Failed to start scheduler simulator: '' @ e)
                    | Panic p \<Rightarrow> Panic p)))"

section \<open>What the samples are\<close>

definition res_in_range :: "sched_resource \<Rightarrow> bool" where
  "res_in_range r =
     (int64_range (res_MilliCPU r) \<and> int64_range (res_Memory r) \<and> int64_range (res_NvidiaGPU r) \<and>
      int64_range (res_AllowedPodNumber r) \<and> int64_range (res_EphemeralStorage r) \<and>
      list_all (\<lambda>(n, v). int64_range v) (res_ScalarResources r))"

lemma sample_pods_loop_names:
  "map pod_name (sample_pods_loop uuid res n k) = map uuid [k..<k + n]"
proof (induction n arbitrary: k)
  case (Suc n)
  then show ?case
    by (simp add: pod_name_def named_pod_def upt_rec [of k] del: upt_Suc)
qed simp

lemma sample_pods_unassigned: "list_all unassignedNonTerminatedPod (sample_pods_loop uuid res n k)"
  by (induction n arbitrary: k)
    (simp_all add: unassignedNonTerminatedPod_def named_pod_def newSamplePod_def empty_pod_def)

lemma fold_scalar_wf:
  "rl_wf m \<Longrightarrow> list_all (\<lambda>(n, v). int64_range v) xs \<Longrightarrow>
     rl_wf (fold (\<lambda>(name, v) m. AList.update name
       (if IsHugePageResourceName name then NewQuantity v BinarySI else NewQuantity v DecimalSI) m) xs m)"
proof (induction xs arbitrary: m)
  case (Cons x xs)
  obtain name v where x: "x = (name, v)" by fastforce
  with Cons.prems have "q_addable (if IsHugePageResourceName name then NewQuantity v BinarySI else NewQuantity v DecimalSI)"
    by (simp add: q_addable_simps NewQuantity_def)
  with Cons x show ?case by (simp add: rl_wf_update)
qed simp

lemma ResourceList_wf: "res_in_range r \<Longrightarrow> rl_wf (ResourceList r)"
  unfolding ResourceList_def
  by (rule fold_scalar_wf)
    (auto simp: res_in_range_def rl_wf_def q_addable_simps NewQuantity_def NewMilliQuantity_def)

text \<open>A sample pod with no scalar resources requests exactly what it was made of.\<close>

lemma newSamplePod_requested:
  assumes "res_ScalarResources r = []"
  shows "requested (newSamplePod [r]) ResourceMemory = of_int (res_Memory r)"
    and "requested (newSamplePod [r]) ResourceCPU = of_int (res_MilliCPU r) / 1000"
  using assms
  by (simp_all add: requested_def newSamplePod_def ResourceList_def amount_of_def q_val_def amount_val_def
      NewQuantity_def NewMilliQuantity_def power_int_minus divide_simps resource_name_defs)

section \<open>What the samples request\<close>

text \<open>
  Sample pods are as many as asked for, named by fresh identifiers, unassigned, and each requests
  exactly the memory and CPU it was made of.
\<close>

lemma sample_pods_sized:
  assumes "res_ScalarResources r = []"
  shows "length (createSamplePods uuid n r k) = nat n \<and>
    map pod_name (createSamplePods uuid n r k) = map uuid [k..<k + nat n] \<and>
    list_all unassignedNonTerminatedPod (createSamplePods uuid n r k) \<and>
    (\<forall>p \<in> set (createSamplePods uuid n r k). requested p ResourceMemory = of_int (res_Memory r) \<and>
       requested p ResourceCPU = of_int (res_MilliCPU r) / 1000)"
proof -
  have "\<forall>p \<in> set (sample_pods_loop uuid r m k). \<exists>u. p = named_pod u (newSamplePod [r])" for m
    by (induction m arbitrary: k) auto
  moreover have "requested (named_pod u p) name = requested p name" for u p name
    by (simp add: requested_def named_pod_def)
  moreover have "length (sample_pods_loop uuid r m k) = m" for m
    by (induction m arbitrary: k) auto
  ultimately show ?thesis
    using newSamplePod_requested [OF assms] sample_pods_unassigned [of uuid r "nat n" k]
    by (fastforce simp: createSamplePods_def sample_pods_loop_names)
qed

end
