(* ===== verification/Utils.thy ===== *)
theory Utils
  imports Api_Objects
begin

text \<open>
  Helpers of \<open>pkg/utils/utils.go\<close>: printing a pod in a chosen format and reading the master's
  address from a kubeconfig.  The codec factory and the kubeconfig loader are parameters.
\<close>

definition pod_content_type :: "string \<Rightarrow> string" where
  "pod_content_type format =
     (if format = ''json'' then ContentTypeJSON
      else if format = ''yaml'' then ''application/yaml''
      else ''application/yaml'')"

text \<open>\<open>codecs\<close>: the serialiser registered for a media type.\<close>

definition PrintPod :: "(string \<Rightarrow> (pod \<Rightarrow> string outcome) option) \<Rightarrow> pod \<Rightarrow> string \<Rightarrow> string outcome" where
  "PrintPod codecs p format =
     (let contentType = pod_content_type format in
      case codecs contentType of
        None \<Rightarrow> Err (''serializer for '' @ contentType @ '' not registered'')
      | Some encode \<Rightarrow> wrap_err ''Failed to create pod: '' (encode p))"

record kube_config =
  kc_CurrentContext :: string
  kc_Contexts :: "(string, string) gomap"
  kc_Clusters :: "(string, string) gomap"

definition GetMasterFromKubeConfig :: "(string \<Rightarrow> kube_config outcome) \<Rightarrow> string \<Rightarrow> string outcome" where
  "GetMasterFromKubeConfig load filename =
     bind_outcome (wrap_err ''can not load kubeconfig file: '' (load filename))
       (\<lambda>config.
          case map_of (kc_Contexts config) (kc_CurrentContext config) of
            None \<Rightarrow> Err ''Failed to get master address from kubeconfig''
          | Some cluster \<Rightarrow>
              (case map_of (kc_Clusters config) cluster of
                 Some server \<Rightarrow> Ok server
               | None \<Rightarrow> Err ''Failed to get master address from kubeconfig''))"

lemma GetMaster_Ok_iff:
  "GetMasterFromKubeConfig load file = Ok server \<longleftrightarrow>
     (\<exists>config cluster. load file = Ok config \<and>
        map_of (kc_Contexts config) (kc_CurrentContext config) = Some cluster \<and>
        map_of (kc_Clusters config) cluster = Some server)"
  by (cases "load file") (auto simp: GetMasterFromKubeConfig_def split: option.splits)

section \<open>Properties\<close>

text \<open>
  The master's address is the server of the cluster of the current context, and the function
  returns it exactly when the file loads and both are there; printing falls back to YAML for every
  format but json.
\<close>

lemma master_address:
  "(GetMasterFromKubeConfig load file = Ok server \<longleftrightarrow>
     (\<exists>config cluster. load file = Ok config \<and>
        map_of (kc_Contexts config) (kc_CurrentContext config) = Some cluster \<and>
        map_of (kc_Clusters config) cluster = Some server)) \<and>
   pod_content_type fmt = (if fmt = ''json'' then ''application/json'' else ''application/yaml'')"
  by (simp add: GetMaster_Ok_iff pod_content_type_def ContentTypeJSON_def)

end
