(* ===== verification/Simulation_Spec.thy ===== *)
theory Simulation_Spec
  imports Simulation_Start
begin

text \<open>
  What a simulation promises, without goroutines, queues and channels.  \<open>spec_step\<close> is the
  abstract machine: it takes the next pod, lets the scheduler decide, and puts the pod in the cluster.
  Every step of the concurrent system is one of its steps or none.  \<open>algo_step\<close> is the
  concurrent system under a scheduling algorithm, \<open>reference_run\<close> the function a deterministic
  one computes; every run of the concurrent system under that scheduler, however its goroutines
  interleave, reports exactly the result of this function.
\<close>

section \<open>The abstract machine\<close>

record sim_spec =
  sp_todo :: "pod list"
  sp_decided :: "(pod \<times> decision) list"
  sp_objects :: "resource_type \<Rightarrow> string \<Rightarrow> obj option"

inductive spec_step :: "sim_spec \<Rightarrow> sim_spec \<Rightarrow> bool" where
  "sp_todo a = p # ps \<Longrightarrow>
     spec_step a (a\<lparr>sp_todo := ps, sp_decided := sp_decided a @ [(p, d)],
       sp_objects := put_pod (settled (p, d)) (sp_objects a)\<rparr>)"

definition spec_init :: "pod list \<Rightarrow> (resource_type \<Rightarrow> string \<Rightarrow> obj option) \<Rightarrow> sim_spec" where
  "spec_init newPods L = \<lparr>sp_todo = rev newPods, sp_decided = [], sp_objects = L\<rparr>"

section \<open>The concurrent system refines it\<close>

definition sys_step :: "string \<Rightarrow> sim_sys \<Rightarrow> sim_sys \<Rightarrow> bool" where
  "sys_step n s s' = (sim_step n s s' \<or> client_step s s')"

definition spec_rel :: "string \<Rightarrow> pod list \<Rightarrow> pod list \<Rightarrow> (resource_type \<Rightarrow> string \<Rightarrow> obj option) \<Rightarrow> sim_sys \<Rightarrow> sim_spec \<Rightarrow> bool" where
  "spec_rel n newPods sched L s a =
     (list_all unassignedNonTerminatedPod newPods \<and> sim_at n newPods sched L (sp_decided a) s \<and>
      sp_todo a = in_flight s @ cc_pending (ss_cc s) \<and> sp_objects a = settle (sp_decided a) L)"

lemma sim_reach_sys: "sim_reach n s0 s \<Longrightarrow> (sys_step n)\<^sup>*\<^sup>* s0 s"
  by (induction rule: sim_reach.induct) (auto simp: sys_step_def intro: rtranclp.rtrancl_into_rtrancl)

lemma sim_at_todo: "sim_at n newPods sched L outs s \<Longrightarrow> rev newPods = map fst outs @ in_flight s @ cc_pending (ss_cc s)"
  by (simp add: sim_at_def flow_ok_def)

interpretation ref: refines "sys_step n" spec_step "spec_rel n newPods sched L" for n newPods sched L
proof
  fix s s' a
  assume step: "sys_step n s s'" and rel: "spec_rel n newPods sched L s a"
  then have una: "list_all unassignedNonTerminatedPod newPods" and inv: "sim_at n newPods sched L (sp_decided a) s"
    by (simp_all add: spec_rel_def)
  show "\<exists>a'. spec_rel n newPods sched L s' a' \<and> (a' = a \<or> spec_step a a')"
  proof (cases "sim_step n s s'")
    case True
    from sim_at_step [OF True inv una] obtain outs' where outs': "sim_at n newPods sched L outs' s'"
        "outs' = sp_decided a \<or> (\<exists>x. outs' = sp_decided a @ [x])" by (auto simp: step_result_def)
    show ?thesis
    proof (cases "outs' = sp_decided a")
      case True
      with outs'(1) rel sim_at_todo [OF inv] sim_at_todo [OF outs'(1)] show ?thesis
        by (intro exI [of _ a]) (simp add: spec_rel_def)
    next
      case False
      with outs'(2) obtain p d where pd: "outs' = sp_decided a @ [(p, d)]" by force
      with rel sim_at_todo [OF inv] sim_at_todo [OF outs'(1)]
      have todo: "sp_todo a = p # in_flight s' @ cc_pending (ss_cc s')" by (simp add: spec_rel_def)
      from spec_step.intros [OF this, of d] show ?thesis
        using rel outs'(1) pd by (intro exI conjI disjI2) (auto simp: spec_rel_def settle_snoc)
    qed
  next
    case False
    with step obtain e where "s' = set_env e s" "env_safe e" by (auto simp: sys_step_def elim: client_step.cases)
    with rel sim_at_client [OF inv] show ?thesis by (intro exI [of _ a]) (simp add: spec_rel_def)
  qed
qed

section \<open>The system under a scheduling algorithm\<close>

text \<open>
  An algorithm says which decisions are allowed for a pod after the decisions taken so far; the cluster
  is fixed.  A deterministic scheduler allows exactly one.
\<close>

type_synonym algorithm = "(pod \<times> decision) list \<Rightarrow> pod \<Rightarrow> decision \<Rightarrow> bool"

inductive allowed :: "algorithm \<Rightarrow> (pod \<times> decision) list \<Rightarrow> bool" for A where
  allowed_Nil: "allowed A []"
| allowed_snoc: "allowed A h \<Longrightarrow> A h p d \<Longrightarrow> allowed A (h @ [(p, d)])"

text \<open>The concurrent system with this algorithm, and the decisions it has taken.\<close>

definition decision_task :: "pod \<Rightarrow> decision \<Rightarrow> task" where
  "decision_task p d = (case d of Inl h \<Rightarrow> TBind p h | Inr m \<Rightarrow> TFail p m)"

inductive algo_step :: "algorithm \<Rightarrow> string \<Rightarrow> sim_sys \<times> (pod \<times> decision) list \<Rightarrow> sim_sys \<times> (pod \<times> decision) list \<Rightarrow> bool" for A n where
  decide: "ss_waiting s = p # w \<Longrightarrow> A h p d \<Longrightarrow>
    algo_step A n (s, h) (s\<lparr>ss_waiting := w, ss_tasks := ss_tasks s @ [decision_task p d]\<rparr>, h @ [(p, d)])"
| other: "sim_step n s s' \<Longrightarrow> length (ss_waiting s) \<le> length (ss_waiting s') \<Longrightarrow> algo_step A n (s, h) (s', h)"
| client: "client_step s s' \<Longrightarrow> algo_step A n (s, h) (s', h)"

inductive_cases algo_stepE: "algo_step A n (s, h) (s', h')"

lemma decision_step: "ss_waiting s = p # w \<Longrightarrow> sim_step n s (s\<lparr>ss_waiting := w, ss_tasks := ss_tasks s @ [decision_task p d]\<rparr>)"
  by (cases d) (auto simp: decision_task_def intro: sim_step.decide_bind sim_step.decide_fail)

lemma algo_step_sys: "algo_step A n (s, h) (s', h') \<Longrightarrow> sim_reach n s0 s \<Longrightarrow> sim_reach n s0 s'"
  by (auto elim!: algo_stepE intro: sim_reach.intros decision_step)

lemma algo_steps_reach:
  assumes "(algo_step A n)\<^sup>*\<^sup>* (s, h) (s', h')" shows "sim_reach n s s'"
  using assms by (induction rule: rtranclp_induct2) (auto intro: sim_reach.reach_refl algo_step_sys)

definition algo_at :: "algorithm \<Rightarrow> string \<Rightarrow> pod list \<Rightarrow> pod list \<Rightarrow> (resource_type \<Rightarrow> string \<Rightarrow> obj option) \<Rightarrow>
    sim_sys \<times> (pod \<times> decision) list \<Rightarrow> bool" where
  "algo_at A n newPods sched L sh =
     (\<exists>outs. sim_at n newPods sched L outs (fst sh) \<and> snd sh = outs @ taken (fst sh) \<and> allowed A (snd sh))"

lemma algo_at_step:
  assumes "algo_step A n sh sh'" "algo_at A n newPods sched L sh" "list_all unassignedNonTerminatedPod newPods"
  shows "algo_at A n newPods sched L sh'"
  using assms(1)
proof (cases rule: algo_step.cases)
  case (decide s p w h d)
  let ?s = "s\<lparr>ss_waiting := w, ss_tasks := ss_tasks s @ [decision_task p d]\<rparr>"
  from assms(2) decide obtain outs where outs: "sim_at n newPods sched L outs s" "h = outs @ taken s" "allowed A h"
    by (auto simp: algo_at_def)
  have "sim_at n newPods sched L outs ?s"
    by (rule sim_at_decide [OF outs(1) decide(3)]) (auto simp: decision_task_def split: sum.split)
  moreover have "taken ?s = taken s @ [(p, d)]" by (cases d) (simp_all add: taken_def decision_task_def)
  moreover have "allowed A (h @ [(p, d)])" using outs(3) decide(4) by (rule allowed_snoc)
  ultimately show ?thesis using decide(2) outs(2) by (auto simp: algo_at_def)
next
  case (other s s' h)
  from assms(2) other obtain outs where outs: "sim_at n newPods sched L outs s" "h = outs @ taken s" "allowed A h"
    by (auto simp: algo_at_def)
  from sim_at_step [OF other(3) outs(1) assms(3)] other(4) obtain outs' where
    "sim_at n newPods sched L outs' s'" "outs' @ taken s' = outs @ taken s" by (auto simp: step_result_def)
  moreover from this(2) have "h = outs' @ taken s'" using outs(2) by simp
  ultimately show ?thesis unfolding algo_at_def other(2) fst_conv snd_conv using outs(3) by blast
next
  case (client s s' h)
  then obtain e where e: "s' = set_env e s" "env_safe e" by (auto elim: client_step.cases)
  then have "taken s' = taken s" by (simp add: taken_def)
  with assms(2) sim_at_client [OF _ e(2), of n newPods sched L _ s] show ?thesis
    unfolding algo_at_def client(1,2) e(1) fst_conv snd_conv by metis
qed

lemma algo_at_steps:
  assumes "(algo_step A n)\<^sup>*\<^sup>* sh sh'" "algo_at A n newPods sched L sh" "list_all unassignedNonTerminatedPod newPods"
  shows "algo_at A n newPods sched L sh'"
  using assms by (induction rule: rtranclp_induct) (auto intro: algo_at_step)

lemma algo_at_returned:
  assumes "algo_at A n newPods sched L (s, h)" "ss_pc s = Returned"
  shows "allowed A h \<and> map fst h = rev newPods \<and> cc_status (ss_cc s) = final_status h sched \<and>
    cc_objects (ss_cc s) = settle h L"
proof -
  from assms(1) obtain outs where outs: "sim_at n newPods sched L outs s" "h = outs @ taken s" "allowed A h"
    by (auto simp: algo_at_def)
  have "in_flight s = []" using outs(1) assms(2) by (simp add: sim_at_def phase_ok_def)
  then have "taken s = []" using no_decision [of "ss_tasks s"] by (simp add: in_flight_def taken_def)
  with outs sim_at_returned [OF outs(1) assms(2)] show ?thesis by auto
qed

text \<open>The pod to decide is the next of the input.\<close>

lemma algo_decision_point:
  assumes "algo_at A n newPods sched L (s, h)" "ss_waiting s = p # w"
  shows "\<exists>rest. rev newPods = map fst h @ p # rest"
proof -
  from assms(1) obtain outs where outs: "sim_at n newPods sched L outs s" "h = outs @ taken s" by (auto simp: algo_at_def)
  have fl: "in_flight s = p # w @ concat (map task_pods (ss_tasks s))" using assms(2) by (simp add: in_flight_def)
  with outs(1) have "length (in_flight s) = 1" by (auto simp: sim_at_def phase_ok_def split: run_pc.splits)
  with fl have "in_flight s = [p]" "taken s = []" using no_decision [of "ss_tasks s"] by (auto simp: taken_def)
  with outs show ?thesis by (intro exI [of _ "cc_pending (ss_cc s)"]) (simp add: sim_at_def flow_ok_def)
qed

text \<open>When the algorithm has a decision for every pod of the input, a run can always be finished.\<close>

lemma algo_progress:
  assumes "sim_step n s s'" "algo_at A n newPods sched L (s, h)"
    and "\<And>h p. \<exists>rest. rev newPods = map fst h @ p # rest \<Longrightarrow> \<exists>d. A h p d"
  shows "\<exists>s' h'. algo_step A n (s, h) (s', h') \<and> sim_step n s s'"
proof (cases "length (ss_waiting s) \<le> length (ss_waiting s')")
  case True
  with assms(1) algo_step.other show ?thesis by blast
next
  case False
  then obtain p w where w: "ss_waiting s = p # w" by (cases "ss_waiting s") auto
  obtain d where "A h p d" using algo_decision_point [OF assms(2) w] assms(3) by blast
  from algo_step.decide [OF w, where A = A, OF this] decision_step [OF w, of n d] show ?thesis by blast
qed

lemma algo_can_finish:
  assumes "algo_at A n newPods sched L (s, h)" "list_all unassignedNonTerminatedPod newPods"
    and "\<And>h p. \<exists>rest. rev newPods = map fst h @ p # rest \<Longrightarrow> \<exists>d. A h p d"
  shows "\<exists>s' h'. (algo_step A n)\<^sup>*\<^sup>* (s, h) (s', h') \<and> sim_done s'"
  using assms(1)
proof (induction "sim_measure s" arbitrary: s h rule: less_induct)
  case less
  have inv: "sim_inv n newPods sched L s" using less.prems by (auto simp: algo_at_def sim_inv_def)
  show ?case
  proof (cases "sim_done s")
    case False
    with sim_progress [OF inv assms(2)] obtain s1 where "sim_step n s s1" by blast
    from algo_progress [OF this less.prems assms(3)] obtain s' h' where s': "algo_step A n (s, h) (s', h')" "sim_step n s s'" by blast
    from less.hyps [OF sim_inv_measure [OF inv s'(2)] algo_at_step [OF s'(1) less.prems assms(2)]] s'(1)
    show ?thesis by (meson converse_rtranclp_into_rtranclp)
  qed blast
qed

section \<open>A deterministic scheduler\<close>

type_synonym scheduler = "(pod \<times> decision) list \<Rightarrow> pod \<Rightarrow> decision"

abbreviation sched_step :: "scheduler \<Rightarrow> string \<Rightarrow> sim_sys \<times> (pod \<times> decision) list \<Rightarrow> sim_sys \<times> (pod \<times> decision) list \<Rightarrow> bool" where
  "sched_step D \<equiv> algo_step (\<lambda>h p d. d = D h p)"

fun reference_run :: "scheduler \<Rightarrow> pod list \<Rightarrow> (pod \<times> decision) list \<Rightarrow> (pod \<times> decision) list" where
  "reference_run D [] h = h"
| "reference_run D (p # ps) h = reference_run D ps (h @ [(p, D h p)])"

lemma reference_run_snoc:
  "reference_run D (ps @ [p]) h = reference_run D ps h @ [(p, D (reference_run D ps h) p)]"
  by (induction ps arbitrary: h) simp_all

lemma allowed_reference: "allowed (\<lambda>h p d. d = D h p) h \<Longrightarrow> h = reference_run D (map fst h) []"
  by (induction rule: allowed.induct) (simp_all add: reference_run_snoc)

section \<open>From the state New returns\<close>

lemma New_starts:
  assumes "enc_total enc f" "SchedulerConfigLocal k (srv_AlgorithmSource srv) = Ok cfg"
    and "assigned pods" "sim_New enc k srv newPods pods nodes = Ok (c, lb, cfg')"
  shows "sim_at (srv_SchedulerName srv) newPods pods (initial_objects pods nodes) [] (sim_initial c)"
    and "cc_report c = None" and "cc_pending c = rev newPods"
proof -
  have c: "sim_inv (srv_SchedulerName srv) newPods pods (cc_objects c) (sim_initial c)" "cc_report c = None"
      "cc_objects c = initial_objects pods nodes"
    using sim_New_Ok [OF assms(1,2), of newPods pods nodes] assms(3,4) by auto
  then obtain outs where "sim_at (srv_SchedulerName srv) newPods pods (initial_objects pods nodes) outs (sim_initial c)"
    by (auto simp: sim_inv_def)
  moreover from this have "outs = []" by (simp add: sim_at_def phase_ok_def sim_initial_def)
  ultimately show start: "sim_at (srv_SchedulerName srv) newPods pods (initial_objects pods nodes) [] (sim_initial c)"
    by simp
  show "cc_report c = None" by fact
  from sim_at_todo [OF start] show "cc_pending c = rev newPods" by (simp add: sim_initial_def in_flight_def)
qed

lemma New_algo_at:
  assumes "sim_at n newPods pods L [] (sim_initial c)"
  shows "algo_at A n newPods pods L (sim_initial c, [])"
  using assms by (simp add: algo_at_def taken_def sim_initial_def allowed_Nil)

lemma New_spec_rel:
  assumes "sim_at n newPods pods L [] (sim_initial c)" "list_all unassignedNonTerminatedPod newPods"
  shows "spec_rel n newPods pods L (sim_initial c) (spec_init newPods L)"
  using assms sim_at_todo [OF assms(1)] by (simp add: spec_rel_def spec_init_def settle_def)

section \<open>The contents of the store at the end\<close>

lemma settle_others: "r \<noteq> Pods \<Longrightarrow> settle outs L r = L r"
  by (induction outs rule: rev_induct) (simp_all add: settle_def put_pod_def)

lemma settle_Nodes: "settle outs L Nodes = L Nodes"
  by (rule settle_others) (simp add: Nodes_def Pods_def)

lemma settle_Pods:
  "settle outs L Pods = fold (\<lambda>x m. m(pod_key (fst x) \<mapsto> PodO (settled x))) outs (L Pods)"
  by (induction outs rule: rev_induct) (simp_all add: settle_def put_pod_def)

lemma settle_member:
  "distinct (map (\<lambda>x. pod_key (fst x)) outs) \<Longrightarrow> x \<in> set outs \<Longrightarrow>
    settle outs L Pods (pod_key (fst x)) = Some (PodO (settled x))"
  unfolding settle_Pods by (rule fold_upd_member)

lemma settle_keeps: "key \<notin> (\<lambda>x. pod_key (fst x)) ` set outs \<Longrightarrow> settle outs L Pods key = L Pods key"
  by (simp add: settle_Pods fold_upd_other)

lemma lookup_GetByKey: "rs_lookup s r key = Some x \<Longrightarrow> rs_GetByKey r key s = Ok (Some x)"
  by (auto simp: rs_GetByKey_lookup Resources_iff rs_lookup_def split: option.splits)

lemma initial_objects_member:
  "distinct (map node_key nodes) \<Longrightarrow> x \<in> set nodes \<Longrightarrow> initial_objects pods nodes Nodes (node_key x) = Some (NodeO x)"
  "distinct (map pod_key pods) \<Longrightarrow> p \<in> set pods \<Longrightarrow> initial_objects pods nodes Pods (pod_key p) = Some (PodO p)"
  using fold_upd_member [of node_key nodes x NodeO Map.empty] fold_upd_member [of pod_key pods p PodO Map.empty]
  by (simp_all add: initial_objects_def loaded_nodes_def loaded_pods_def Nodes_def Pods_def)

text \<open>
  What a client reads from the store at the end: the simulated pods with their hosts, the checkpoint
  and the nodes as they were given.
\<close>

lemma final_objects:
  assumes "map fst outs = rev newPods" "distinct (map pod_key (pods @ newPods))" "distinct (map node_key nodes)"
    and "rs_lookup st = settle outs (initial_objects pods nodes)"
  shows "x \<in> set outs \<Longrightarrow> rs_GetByKey Pods (pod_key (fst x)) st = Ok (Some (PodO (settled x)))"
    and "p \<in> set pods \<Longrightarrow> rs_GetByKey Pods (pod_key p) st = Ok (Some (PodO p))"
    and "y \<in> set nodes \<Longrightarrow> rs_GetByKey Nodes (node_key y) st = Ok (Some (NodeO y))"
proof -
  have keys: "map (\<lambda>x. pod_key (fst x)) outs = rev (map pod_key newPods)"
    using arg_cong [OF assms(1), of "map pod_key"] by (simp add: rev_map comp_def)
  then have "distinct (map (\<lambda>x. pod_key (fst x)) outs)" using assms(2) by simp
  then show "x \<in> set outs \<Longrightarrow> rs_GetByKey Pods (pod_key (fst x)) st = Ok (Some (PodO (settled x)))"
    by (intro lookup_GetByKey) (simp add: assms(4) settle_member)
  have "(\<lambda>x. pod_key (fst x)) ` set outs = pod_key ` set newPods"
    using arg_cong [OF keys, of set] by simp
  then have "p \<in> set pods \<Longrightarrow> pod_key p \<notin> (\<lambda>x. pod_key (fst x)) ` set outs" using assms(2) by auto
  then show "p \<in> set pods \<Longrightarrow> rs_GetByKey Pods (pod_key p) st = Ok (Some (PodO p))"
    using assms(2) by (intro lookup_GetByKey) (simp add: assms(4) settle_keeps initial_objects_member)
  show "y \<in> set nodes \<Longrightarrow> rs_GetByKey Nodes (node_key y) st = Ok (Some (NodeO y))"
    using assms(3) by (intro lookup_GetByKey) (simp add: assms(4) settle_Nodes initial_objects_member)
qed

text \<open>The abstract machine takes each pod of its list in turn and keeps the number of pods.\<close>

lemma spec_steps_todo:
  "spec_step\<^sup>*\<^sup>* a b \<Longrightarrow> map fst (sp_decided a) @ sp_todo a = map fst (sp_decided b) @ sp_todo b"
  by (induction rule: rtranclp_induct) (auto elim!: spec_step.cases)

end
