(* ===== verification/Sched_Predicates.thy ===== *)
theory Sched_Predicates
  imports Node_Info
begin

text \<open>
  The resource predicate of the scheduler
  (\<open>vendor/k8s.io/kubernetes/pkg/scheduler/algorithm/predicates\<close>): what a pod requests, whether a
  node has room for it, and the reasons when it has not.  Host ports and node selectors need parts of a
  pod that are not modelled; they are parameters of \<open>GeneralPredicates\<close>.

  Shown: a pod that passes leaves the node within its allocatable resources.
\<close>

section \<open>Reasons\<close>

datatype failure_reason =
    InsufficientResourceError string int int int
  | PredicateFailureError string string
  | FailureReason string

fun GetReason :: "failure_reason \<Rightarrow> string" where
  "GetReason (InsufficientResourceError name want used capacity) = ''Insufficient '' @ name"
| "GetReason (PredicateFailureError name desc) = desc"
| "GetReason (FailureReason reason) = reason"

definition ErrPodNotMatchHostName :: failure_reason where
  "ErrPodNotMatchHostName = PredicateFailureError ''HostName'' ''node(s) didn't match the requested hostname''"

text \<open>A predicate: whether the pod fits the node and the reasons if not, or an error.\<close>

type_synonym fit_predicate = "pod \<Rightarrow> node_info option \<Rightarrow> (bool \<times> failure_reason list) outcome"

section \<open>Requests\<close>

text \<open>An init container needs its resources only while it runs, so the maximum counts.\<close>

definition init_max_one :: "string \<times> quantity \<Rightarrow> sched_resource \<Rightarrow> sched_resource" where
  "init_max_one = (\<lambda>(rName, rQuantity) r.
     if rName = ResourceMemory then (let mem = q_Value rQuantity in if mem > res_Memory r then r\<lparr>res_Memory := mem\<rparr> else r)
     else if rName = ResourceEphemeralStorage then
       (let eph = q_Value rQuantity in if eph > res_EphemeralStorage r then r\<lparr>res_EphemeralStorage := eph\<rparr> else r)
     else if rName = ResourceCPU then
       (let cpu = q_MilliValue rQuantity in if cpu > res_MilliCPU r then r\<lparr>res_MilliCPU := cpu\<rparr> else r)
     else if rName = ResourceNvidiaGPU then
       (let gpu = q_Value rQuantity in if gpu > res_NvidiaGPU r then r\<lparr>res_NvidiaGPU := gpu\<rparr> else r)
     else if IsScalarResourceName rName then
       (let v = q_Value rQuantity in if v > scalar_of r rName then SetScalar rName v r else r)
     else r)"

definition GetResourceRequest :: "pod \<Rightarrow> sched_resource" where
  "GetResourceRequest p =
     fold (\<lambda>c r. fold init_max_one (ctr_Requests c) r) (pod_InitContainers p)
       (fold (\<lambda>c. res_Add (ctr_Requests c)) (pod_Containers p) no_resource)"

section \<open>Predicates\<close>

text \<open>What a predicate returns: it fits if there is no reason against it.\<close>

definition verdict :: "failure_reason list \<Rightarrow> (bool \<times> failure_reason list) outcome" where
  "verdict fails = Ok (length fails = 0, fails)"

definition lack :: "string \<Rightarrow> int \<Rightarrow> int \<Rightarrow> int \<Rightarrow> failure_reason list" where
  "lack name want used capacity =
     (if capacity < wrap64 (want + used) then [InsufficientResourceError name want used capacity] else [])"

definition PodFitsResources :: "string list \<Rightarrow> fit_predicate" where
  "PodFitsResources ignoredExtendedResources p info =
     (case Option.bind info ni_node of
        None \<Rightarrow> Err ''node not found''
      | Some node \<Rightarrow>
          (let n = the info; podCount = int (length (ni_pods n));
               allocatable = ni_allocatable n; used = ni_requested n;
               allowedPodNumber = res_AllowedPodNumber allocatable;
               countFails = (if podCount + 1 > allowedPodNumber
                             then [InsufficientResourceError ResourcePods 1 podCount allowedPodNumber] else []);
               req = GetResourceRequest p
           in if res_MilliCPU req = 0 \<and> res_Memory req = 0 \<and> res_NvidiaGPU req = 0 \<and> res_EphemeralStorage req = 0 \<and>
                 length (res_ScalarResources req) = 0
              then verdict countFails
              else (let predicateFails = countFails @
                      lack ResourceCPU (res_MilliCPU req) (res_MilliCPU used) (res_MilliCPU allocatable) @
                      lack ResourceMemory (res_Memory req) (res_Memory used) (res_Memory allocatable) @
                      lack ResourceNvidiaGPU (res_NvidiaGPU req) (res_NvidiaGPU used) (res_NvidiaGPU allocatable) @
                      lack ResourceEphemeralStorage (res_EphemeralStorage req) (res_EphemeralStorage used) (res_EphemeralStorage allocatable) @
                      concat (map (\<lambda>(rName, rQuant).
                          if IsExtendedResourceName rName \<and> rName \<in> set ignoredExtendedResources then []
                          else lack rName rQuant (scalar_of used rName) (scalar_of allocatable rName)) (res_ScalarResources req))
                    in verdict predicateFails)))"

definition PodFitsHost :: fit_predicate where
  "PodFitsHost p info =
     (if length (pod_NodeName p) = 0 then Ok (True, [])
      else case Option.bind info ni_node of
        None \<Rightarrow> Err ''node not found''
      | Some node \<Rightarrow>
          if pod_NodeName p = om_Name (node_meta node) then Ok (True, []) else Ok (False, [ErrPodNotMatchHostName]))"

text \<open>Several predicates in a row, all of them evaluated.\<close>

fun all_predicates :: "fit_predicate list \<Rightarrow> failure_reason list \<Rightarrow> fit_predicate" where
  "all_predicates [] fails p info = verdict fails"
| "all_predicates (pr # prs) fails p info =
     bind_outcome (pr p info) (\<lambda>(fit, reasons). all_predicates prs (if fit then fails else fails @ reasons) p info)"

definition noncriticalPredicates :: "string list \<Rightarrow> fit_predicate" where
  "noncriticalPredicates ignored = all_predicates [PodFitsResources ignored] []"

definition EssentialPredicates :: "fit_predicate \<Rightarrow> fit_predicate \<Rightarrow> fit_predicate" where
  "EssentialPredicates podFitsHostPorts podMatchNodeSelector =
     all_predicates [PodFitsHost, podFitsHostPorts, podMatchNodeSelector] []"

definition GeneralPredicates :: "string list \<Rightarrow> fit_predicate \<Rightarrow> fit_predicate \<Rightarrow> fit_predicate" where
  "GeneralPredicates ignored podFitsHostPorts podMatchNodeSelector =
     all_predicates [noncriticalPredicates ignored, EssentialPredicates podFitsHostPorts podMatchNodeSelector] []"

section \<open>What is requested\<close>

definition req_amount :: "pod \<Rightarrow> string \<Rightarrow> int" where
  "req_amount p = res_get (GetResourceRequest p)"

lemma res_get_init_max:
  "name \<noteq> ResourcePods \<Longrightarrow> res_get r name \<le> res_get (init_max_one x r) name"
  using primary_distinct primary_not_scalar
  by (cases x) (auto simp: init_max_one_def Let_def res_get_def scalar_of_SetScalar)

lemma scalars_ok_init_max: "scalars_ok r \<Longrightarrow> scalars_ok (init_max_one x r)"
  by (cases x) (auto simp: init_max_one_def Let_def scalars_ok_SetScalar; simp add: scalars_ok_def)

lemma init_containers:
  assumes "name \<noteq> ResourcePods"
  shows "res_get r name \<le> res_get (fold (\<lambda>c r. fold init_max_one (ctr_Requests c) r) cs r) name \<and>
    (scalars_ok r \<longrightarrow> scalars_ok (fold (\<lambda>c r. fold init_max_one (ctr_Requests c) r) cs r))"
proof -
  have inner: "res_get r name \<le> res_get (fold init_max_one xs r) name \<and> (scalars_ok r \<longrightarrow> scalars_ok (fold init_max_one xs r))"
    for xs r
  proof (induction xs arbitrary: r)
    case (Cons x xs)
    with res_get_init_max [OF assms, of r x] scalars_ok_init_max [of r x] show ?case
      by (fastforce intro: order_trans)
  qed simp
  show ?thesis
  proof (induction cs arbitrary: r)
    case (Cons c cs)
    with inner [of r "ctr_Requests c"] show ?case by (fastforce intro: order_trans)
  qed simp
qed

lemma pod_amount_le: "name \<noteq> ResourcePods \<Longrightarrow> pod_amount p name \<le> req_amount p name"
  using init_containers [of name "fst (calculateResource p)" "pod_InitContainers p"]
  by (simp add: req_amount_def GetResourceRequest_def pod_amount_def fst_calculateResource)

lemma GetResourceRequest_scalars: "scalars_ok (GetResourceRequest p)"
  using init_containers [of ResourceCPU "fst (calculateResource p)" "pod_InitContainers p"] calculateResource_ok [of p]
    primary_distinct
  by (simp add: GetResourceRequest_def fst_calculateResource res_ok_def)

section \<open>A pod that passes leaves the node within its resources\<close>

text \<open>The resources the predicate watches, and a node that has not given away more than it has.\<close>

definition governed :: "string list \<Rightarrow> string \<Rightarrow> bool" where
  "governed ignored name = (name \<noteq> ResourcePods \<and> \<not> (IsExtendedResourceName name \<and> name \<in> set ignored))"

definition within_alloc :: "string list \<Rightarrow> node_info \<Rightarrow> bool" where
  "within_alloc ignored n =
     (int (length (ni_pods n)) \<le> res_AllowedPodNumber (ni_allocatable n) \<and>
      (\<forall>name. governed ignored name \<longrightarrow> res_get (ni_requested n) name \<le> res_get (ni_allocatable n) name))"

lemma verdict_Ok: "verdict fails = Ok (fit, rs) \<longleftrightarrow> rs = fails \<and> fit = (rs = [])"
  by (auto simp: verdict_def)

lemma verdict_True: "verdict fails = Ok (True, rs) \<longleftrightarrow> fails = [] \<and> rs = []"
  by (auto simp: verdict_def)

lemma lack_Nil: "lack name want used capacity = [] \<longleftrightarrow> wrap64 (want + used) \<le> capacity"
  by (auto simp: lack_def)

lemma fits_room:
  assumes "PodFitsResources ignored p (Some n) = Ok (True, fails)"
  shows "int (length (ni_pods n)) + 1 \<le> res_AllowedPodNumber (ni_allocatable n)"
    and "governed ignored name \<Longrightarrow> req_amount p name \<noteq> 0 \<Longrightarrow>
      wrap64 (req_amount p name + res_get (ni_requested n) name) \<le> res_get (ni_allocatable n) name"
proof -
  let ?r = "GetResourceRequest p"
  obtain node where node: "ni_node n = Some node" using assms by (cases "ni_node n") (auto simp: PodFitsResources_def)
  show "int (length (ni_pods n)) + 1 \<le> res_AllowedPodNumber (ni_allocatable n)"
    using assms node by (auto simp: PodFitsResources_def Let_def verdict_True split: if_splits)
  assume g: "governed ignored name" and nz: "req_amount p name \<noteq> 0"
  have sc: "scalar_of ?r name \<noteq> 0 \<Longrightarrow> \<exists>q. (name, q) \<in> set (res_ScalarResources ?r) \<and> q = scalar_of ?r name"
    by (auto simp: scalar_of_def dest: map_of_SomeD split: option.splits)
  have nonzero: "\<not> (res_MilliCPU ?r = 0 \<and> res_Memory ?r = 0 \<and> res_NvidiaGPU ?r = 0 \<and> res_EphemeralStorage ?r = 0 \<and>
      res_ScalarResources ?r = [])"
    using nz g sc by (auto simp: req_amount_def res_get_def governed_def split: if_splits)
  let ?u = "ni_requested n" and ?a = "ni_allocatable n"
  let ?F = "\<lambda>(rName, rQuant). if IsExtendedResourceName rName \<and> rName \<in> set ignored then []
      else lack rName rQuant (scalar_of ?u rName) (scalar_of ?a rName)"
  have ok: "lack ResourceCPU (res_MilliCPU ?r) (res_MilliCPU ?u) (res_MilliCPU ?a) = [] \<and>
    lack ResourceMemory (res_Memory ?r) (res_Memory ?u) (res_Memory ?a) = [] \<and>
    lack ResourceNvidiaGPU (res_NvidiaGPU ?r) (res_NvidiaGPU ?u) (res_NvidiaGPU ?a) = [] \<and>
    lack ResourceEphemeralStorage (res_EphemeralStorage ?r) (res_EphemeralStorage ?u) (res_EphemeralStorage ?a) = [] \<and>
    (\<forall>x \<in> set (res_ScalarResources ?r). ?F x = [])"
    using assms node nonzero by (simp add: PodFitsResources_def Let_def verdict_True split: if_splits)
  have "lack name (scalar_of ?r name) (scalar_of ?u name) (scalar_of ?a name) = []" if nz': "scalar_of ?r name \<noteq> 0"
  proof -
    from sc [OF nz'] ok have "?F (name, scalar_of ?r name) = []" by blast
    then show ?thesis using g by (auto simp: governed_def)
  qed
  then show "wrap64 (req_amount p name + res_get ?u name) \<le> res_get ?a name"
    using ok g nz by (auto simp: req_amount_def res_get_def governed_def lack_Nil split: if_splits)
qed

text \<open>Amounts are not negative and their sum fits the counter.\<close>

definition fits_counter :: "pod \<Rightarrow> node_info \<Rightarrow> bool" where
  "fits_counter p n =
     (\<forall>name. name \<noteq> ResourcePods \<longrightarrow> 0 \<le> pod_amount p name \<and> 0 \<le> res_get (ni_requested n) name \<and>
        req_amount p name + res_get (ni_requested n) name \<le> mostPositive)"

lemma fits_within:
  assumes fits: "PodFitsResources ignored p (Some n) = Ok (True, fails)" and w: "within_alloc ignored n"
    and sums: "ni_sums n" and cnt: "fits_counter p n"
  shows "within_alloc ignored (ni_AddPod p n)"
proof -
  have "res_get (ni_requested (ni_AddPod p n)) name \<le> res_get (ni_allocatable n) name" if g: "governed ignored name" for name
  proof -
    have name: "name \<noteq> ResourcePods" using g by (simp add: governed_def)
    let ?u = "res_get (ni_requested n) name" and ?x = "pod_amount p name" and ?q = "req_amount p name"
    have b: "0 \<le> ?x" "0 \<le> ?u" "?q + ?u \<le> mostPositive" "?x \<le> ?q"
      using cnt name pod_amount_le [OF name, of p] by (auto simp: fits_counter_def)
    then have range: "int64_range (?u + ?x)" "int64_range (?q + ?u)" by (auto simp: int64_defs)
    have new: "res_get (ni_requested (ni_AddPod p n)) name = ?u + ?x"
      using AddPod_get [OF sums name] range(1) by simp
    show ?thesis
    proof (cases "?q = 0")
      case True
      then have "?x = 0" using b by simp
      with new w g show ?thesis by (simp add: within_alloc_def)
    next
      case False
      with fits_room(2) [OF fits g] range(2) b new show ?thesis by simp
    qed
  qed
  with fits_room(1) [OF fits] show ?thesis by (simp add: within_alloc_def)
qed

text \<open>
  Without the bound on the sum the comparison wraps around: a node that has given away one of its hundred
  bytes accepts a pod that asks for the largest int64.
\<close>

lemma overflow_admits:
  "PodFitsResources []
     (empty_pod\<lparr>pod_Containers := [\<lparr>ctr_Requests = [(ResourceMemory, NewQuantity 9223372036854775807 BinarySI)]\<rparr>]\<rparr>)
     (Some (empty_node_info\<lparr>ni_node := Some empty_node, ni_requested := no_resource\<lparr>res_Memory := 1\<rparr>,
        ni_allocatable := no_resource\<lparr>res_Memory := 100, res_AllowedPodNumber := 10\<rparr>\<rparr>)) = Ok (True, [])"
  by code_simp

text \<open>A pod that passes a list of predicates passes each of them.\<close>

lemma all_predicates_pass:
  assumes "all_predicates prs fails p info = Ok (True, reasons)"
  shows "fails = [] \<and> (\<forall>pr \<in> set prs. \<exists>fit rs. pr p info = Ok (fit, rs) \<and> (fit \<or> rs = []))"
  using assms
proof (induction prs arbitrary: fails)
  case (Cons pr prs)
  obtain fit rs where pr: "pr p info = Ok (fit, rs)" using Cons.prems by (cases "pr p info") auto
  with Cons.prems Cons.IH [of "if fit then fails else fails @ rs"] show ?case by (auto split: if_splits)
qed (simp add: verdict_Ok)

lemma PodFitsResources_consistent: "PodFitsResources ignored p info = Ok (fit, rs) \<Longrightarrow> fit = (rs = [])"
  by (simp add: PodFitsResources_def Let_def verdict_Ok split: option.splits if_splits)

lemma all_predicates_consistent: "all_predicates prs fs p info = Ok (fit, rs) \<Longrightarrow> fit = (rs = [])"
proof (induction prs arbitrary: fs)
  case (Cons pr prs)
  then show ?case by (cases "pr p info") auto
qed (simp add: verdict_Ok)

lemma GeneralPredicates_explains: "GeneralPredicates ignored ports sel p info = Ok (False, rs) \<Longrightarrow> rs \<noteq> []"
  unfolding GeneralPredicates_def using all_predicates_consistent by blast

lemma GeneralPredicates_resources:
  assumes "GeneralPredicates ignored ports sel p info = Ok (True, reasons)"
  shows "\<exists>rs. PodFitsResources ignored p info = Ok (True, rs)"
proof -
  from all_predicates_pass [OF assms [unfolded GeneralPredicates_def]] obtain fit rs where
    "noncriticalPredicates ignored p info = Ok (fit, rs)" "fit \<or> rs = []" by auto
  with all_predicates_consistent have "all_predicates [PodFitsResources ignored] [] p info = Ok (True, rs)"
    unfolding noncriticalPredicates_def by metis
  from all_predicates_pass [OF this] PodFitsResources_consistent show ?thesis by fastforce
qed

text \<open>For a node the cache knows there are no errors.\<close>

lemma all_predicates_Ok: "\<forall>pr \<in> set prs. \<exists>y. pr p info = Ok y \<Longrightarrow> \<exists>y. all_predicates prs fails p info = Ok y"
proof (induction prs arbitrary: fails)
  case (Cons pr prs)
  then obtain fit rs where "pr p info = Ok (fit, rs)" by fastforce
  with Cons show ?case by (cases fit) simp_all
qed (simp add: verdict_def)

lemma GeneralPredicates_Ok:
  assumes "ni_node n \<noteq> None" "\<exists>y. ports p (Some n) = Ok y" "\<exists>y. sel p (Some n) = Ok y"
  shows "\<exists>y. GeneralPredicates ignored ports sel p (Some n) = Ok y"
proof -
  have "\<exists>y. PodFitsResources ignored p (Some n) = Ok y" "\<exists>y. PodFitsHost p (Some n) = Ok y"
    using assms(1) by (auto simp: PodFitsResources_def PodFitsHost_def verdict_def Let_def)
  with assms(2,3) have "\<exists>y. noncriticalPredicates ignored p (Some n) = Ok y" "\<exists>y. EssentialPredicates ports sel p (Some n) = Ok y"
    unfolding noncriticalPredicates_def EssentialPredicates_def by (intro all_predicates_Ok; simp)+
  then show ?thesis unfolding GeneralPredicates_def by (intro all_predicates_Ok) simp
qed

end
