(* ===== verification/Generic_Scheduler.thy ===== *)
theory Generic_Scheduler
  imports Sched_Predicates "HOL-Library.Char_ord" "HOL-Library.List_Lexorder"
begin

text \<open>
  The scheduling algorithm
  (\<open>vendor/k8s.io/kubernetes/pkg/scheduler/core/generic_scheduler.go\<close>): filter the nodes by the
  predicates, score the rest, pick a host among the best in turn, or explain why no node fits.  The
  simulator runs it with pod priority, the equivalence cache and extenders off, so the second pass over
  nominated pods, the cached results and the extenders are left out.  The checks of volume claims and the
  scores are fields of the configuration; \<open>arrange\<close> is the order in which the parallel workers
  deliver the nodes that fit.

  Shown: a chosen host is one of the nodes and passes every predicate, and a fit error means that every
  node fails one.
\<close>

section \<open>Predicates on one node\<close>

definition GeneralPred :: string where "GeneralPred = ''GeneralPredicates''"

definition predicatesOrdering :: "string list" where
  "predicatesOrdering =
     [''CheckNodeCondition'', ''CheckNodeUnschedulable'', GeneralPred, ''HostName'', ''PodFitsHostPorts'',
      ''MatchNodeSelector'', ''PodFitsResources'', ''NoDiskConflict'', ''PodToleratesNodeTaints'',
      ''PodToleratesNodeNoExecuteTaints'', ''CheckNodeLabelPresence'', ''CheckServiceAffinity'',
      ''MaxEBSVolumeCount'', ''MaxGCEPDVolumeCount'', ''MaxAzureDiskVolumeCount'', ''CheckVolumeBinding'',
      ''NoVolumeZoneConflict'', ''CheckNodeMemoryPressure'', ''CheckNodeDiskPressure'', ''MatchInterPodAffinity'']"

type_synonym predicate_map = "(string, fit_predicate) gomap"

fun check_predicates :: "bool \<Rightarrow> predicate_map \<Rightarrow> string list \<Rightarrow> failure_reason list \<Rightarrow> fit_predicate" where
  "check_predicates always fs [] failedPredicates p info = verdict failedPredicates"
| "check_predicates always fs (key # keys) failedPredicates p info =
     (case map_of fs key of
        None \<Rightarrow> check_predicates always fs keys failedPredicates p info
      | Some predicate \<Rightarrow>
          bind_outcome (predicate p info)
            (\<lambda>(fit, reasons).
               if fit then check_predicates always fs keys failedPredicates p info
               else if \<not> always then verdict (failedPredicates @ reasons)
               else check_predicates always fs keys (failedPredicates @ reasons) p info))"

definition podFitsOnNode :: "bool \<Rightarrow> predicate_map \<Rightarrow> fit_predicate" where
  "podFitsOnNode alwaysCheckAllPredicates fs p info =
     check_predicates alwaysCheckAllPredicates fs predicatesOrdering [] p info"

section \<open>Nodes that fit\<close>

type_synonym failed_map = "(string, failure_reason list) gomap"

definition node_name :: "node \<Rightarrow> string" where
  "node_name x = om_Name (node_meta x)"

text \<open>The errors by message with their counts, and their text.\<close>

definition count_errors :: "string list \<Rightarrow> (string \<times> nat) list" where
  "count_errors errs = map (\<lambda>e. (e, count_list errs e)) (remdups errs)"

definition aggregate_error :: "string list \<Rightarrow> string" where
  "aggregate_error errs =
     (let ms = map (\<lambda>(e, n). e @ (if n > 1 then '' (repeated '' @ nat_digits n @ '' times)'' else [])) (count_errors errs)
      in if length ms = 1 then hd ms else ''['' @ Join '', '' ms @ '']'')"

fun check_nodes ::
    "bool \<Rightarrow> predicate_map \<Rightarrow> (string \<Rightarrow> node_info option) \<Rightarrow> pod \<Rightarrow> node list \<Rightarrow> (node list \<times> failed_map \<times> string list) outcome" where
  "check_nodes always fs infos p [] = Ok ([], [], [])"
| "check_nodes always fs infos p (x # xs) =
     bind_outcome (check_nodes always fs infos p xs)
       (\<lambda>(filtered, failed, errs).
          case podFitsOnNode always fs p (infos (node_name x)) of
            Err e \<Rightarrow> Ok (filtered, failed, e # errs)
          | Panic q \<Rightarrow> Panic q
          | Ok (fits, reasons) \<Rightarrow>
              if fits then Ok (x # filtered, failed, errs)
              else Ok (filtered, AList.update (node_name x) reasons failed, errs))"

definition findNodesThatFit ::
    "bool \<Rightarrow> predicate_map \<Rightarrow> (node list \<Rightarrow> node list) \<Rightarrow> (string \<Rightarrow> node_info option) \<Rightarrow> node list \<Rightarrow> pod \<Rightarrow>
       (node list \<times> failed_map) outcome" where
  "findNodesThatFit always fs arrange infos nodes p =
     (if length fs = 0 then Ok (nodes, [])
      else bind_outcome (check_nodes always fs infos p nodes)
        (\<lambda>(filtered, failed, errs).
           if length errs > 0 then Err (aggregate_error errs) else Ok (arrange filtered, failed)))"

section \<open>The error when no node fits\<close>

record fit_error =
  fe_NumAllNodes :: nat
  fe_FailedPredicates :: failed_map

definition histogram :: "failed_map \<Rightarrow> string list" where
  "histogram failed =
     (let reasons = map GetReason (concat (map snd failed))
      in sort (map (\<lambda>r. nat_digits (count_list reasons r) @ '' '' @ r) (remdups reasons)))"

definition FitError_Error :: "fit_error \<Rightarrow> string" where
  "FitError_Error f =
     ''0/'' @ nat_digits (fe_NumAllNodes f) @ '' nodes are available: '' @ Join '', '' (histogram (fe_FailedPredicates f)) @ ''.''"

section \<open>Choosing a host\<close>

type_synonym host_priorities = "(string \<times> int) list"

text \<open>Descending by score, and by name among equal scores.\<close>

definition sort_reverse :: "host_priorities \<Rightarrow> host_priorities" where
  "sort_reverse xs = rev (sort_key snd (sort_key fst xs))"

definition selectHost :: "nat \<Rightarrow> host_priorities \<Rightarrow> nat \<times> string outcome" where
  "selectHost lastNodeIndex priorityList =
     (if length priorityList = 0 then (lastNodeIndex, Err ''empty priorityList'')
      else (let xs = sort_reverse priorityList; maxScore = snd (xs ! 0);
                firstAfterMaxScore = length (takeWhile (\<lambda>x. \<not> snd x < maxScore) xs);
                ix = lastNodeIndex mod firstAfterMaxScore
            in ((lastNodeIndex + 1) mod 2 ^ 64, Ok (fst (xs ! ix)))))"

section \<open>Schedule\<close>

record generic_scheduler =
  gs_predicates :: predicate_map
  gs_alwaysCheckAllPredicates :: bool
  gs_podPassesBasicChecks :: "pod \<Rightarrow> unit outcome"
  gs_PrioritizeNodes :: "pod \<Rightarrow> (string \<Rightarrow> node_info option) \<Rightarrow> node list \<Rightarrow> host_priorities outcome"
  gs_lastNodeIndex :: nat

definition gs_Schedule ::
    "(node list \<Rightarrow> node list) \<Rightarrow> (string \<Rightarrow> node_info option) \<Rightarrow> node list \<Rightarrow> pod \<Rightarrow> generic_scheduler \<Rightarrow>
       generic_scheduler \<times> (string + fit_error) outcome" where
  "gs_Schedule arrange infos nodes p g =
     (case gs_podPassesBasicChecks g p of
        Err e \<Rightarrow> (g, Err e)
      | Panic q \<Rightarrow> (g, Panic q)
      | Ok _ \<Rightarrow>
          (if length nodes = 0 then (g, Err ''no nodes available to schedule pods'')
           else case findNodesThatFit (gs_alwaysCheckAllPredicates g) (gs_predicates g) arrange infos nodes p of
             Err e \<Rightarrow> (g, Err e)
           | Panic q \<Rightarrow> (g, Panic q)
           | Ok (filteredNodes, failed) \<Rightarrow>
               (if length filteredNodes = 0 then
                  (g, Ok (Inr \<lparr>fe_NumAllNodes = length nodes, fe_FailedPredicates = failed\<rparr>))
                else if length filteredNodes = 1 then (g, Ok (Inl (node_name (filteredNodes ! 0))))
                else case gs_PrioritizeNodes g p infos filteredNodes of
                  Err e \<Rightarrow> (g, Err e)
                | Panic q \<Rightarrow> (g, Panic q)
                | Ok priorityList \<Rightarrow>
                    (case selectHost (gs_lastNodeIndex g) priorityList of
                       (i, r) \<Rightarrow> (g\<lparr>gs_lastNodeIndex := i\<rparr>, bind_outcome r (\<lambda>h. Ok (Inl h)))))))"

section \<open>A node that fits\<close>

text \<open>
  A predicate that fails has to say why: one that fails without a reason counts as passed, and ends the
  evaluation.
\<close>

definition explains :: "predicate_map \<Rightarrow> bool" where
  "explains fs = (\<forall>key pr p info rs. map_of fs key = Some pr \<longrightarrow> pr p info = Ok (False, rs) \<longrightarrow> rs \<noteq> [])"

lemma check_predicates_pass:
  assumes "explains fs"
  shows "check_predicates always fs keys fails p info = Ok (True, reasons) \<Longrightarrow>
    fails = [] \<and> (\<forall>key \<in> set keys. \<forall>pr. map_of fs key = Some pr \<longrightarrow> (\<exists>rs. pr p info = Ok (True, rs)))"
proof (induction keys arbitrary: fails)
  case (Cons key keys)
  show ?case
  proof (cases "map_of fs key")
    case None
    with Cons show ?thesis by simp
  next
    case (Some pr)
    with Cons.prems obtain fit rs where pr: "pr p info = Ok (fit, rs)" by (cases "pr p info") auto
    show ?thesis
    proof (cases fit)
      case True
      with Cons.prems Some pr Cons.IH [of fails] show ?thesis by simp
    next
      case False
      with pr Some assms have "rs \<noteq> []" by (auto simp: explains_def)
      with Cons.prems Some pr False Cons.IH [of "fails @ rs"] show ?thesis by (cases always) (simp_all add: verdict_True)
    qed
  qed
qed (simp add: verdict_True)

lemma podFitsOnNode_general:
  assumes "explains fs" "map_of fs GeneralPred = Some (GeneralPredicates ignored ports sel)"
    and "podFitsOnNode always fs p info = Ok (True, reasons)"
  shows "\<exists>rs. PodFitsResources ignored p info = Ok (True, rs)"
proof -
  have "GeneralPred \<in> set predicatesOrdering" by (simp add: predicatesOrdering_def)
  with check_predicates_pass [OF assms(1) assms(3) [unfolded podFitsOnNode_def]] assms(2)
  obtain rs where "GeneralPredicates ignored ports sel p info = Ok (True, rs)" by blast
  from GeneralPredicates_resources [OF this] show ?thesis .
qed

section \<open>Filtering\<close>

lemma check_nodes_filter:
  "check_nodes always fs infos p nodes = Ok (filtered, failed, []) \<Longrightarrow>
     filtered = filter (\<lambda>x. \<exists>rs. podFitsOnNode always fs p (infos (node_name x)) = Ok (True, rs)) nodes \<and>
     (\<forall>x \<in> set nodes. x \<notin> set filtered \<longrightarrow>
        (\<exists>rs. podFitsOnNode always fs p (infos (node_name x)) = Ok (False, rs) \<and> map_of failed (node_name x) = Some rs))"
proof (induction nodes arbitrary: filtered failed)
  case (Cons x xs)
  from Cons.prems obtain fl fd es where rest: "check_nodes always fs infos p xs = Ok (fl, fd, es)"
    by (cases "check_nodes always fs infos p xs") auto
  with Cons.prems have "es = []" by (auto split: outcome.splits if_splits)
  note IH = Cons.IH [OF rest [unfolded this]]
  obtain fits rs where fit: "podFitsOnNode always fs p (infos (node_name x)) = Ok (fits, rs)"
    using Cons.prems rest by (cases "podFitsOnNode always fs p (infos (node_name x))") auto
  show ?case
  proof (cases fits)
    case True
    with Cons.prems rest fit \<open>es = []\<close> have "filtered = x # fl" "failed = fd" by auto
    with IH fit True show ?thesis by auto
  next
    case False
    with Cons.prems rest fit \<open>es = []\<close> have eq: "filtered = fl" "failed = AList.update (node_name x) rs fd" by auto
    have "map_of failed (node_name y) = Some r" if "podFitsOnNode always fs p (infos (node_name y)) = Ok (False, r)"
        "map_of fd (node_name y) = Some r" for y r
      using that fit False by (auto simp: eq update_conv')
    with IH fit False eq show ?thesis by (auto simp: update_conv')
  qed
qed simp

definition arranges :: "(node list \<Rightarrow> node list) \<Rightarrow> bool" where
  "arranges arrange = (\<forall>xs. set (arrange xs) = set xs)"

lemma findNodesThatFit_Ok:
  assumes "findNodesThatFit always fs arrange infos nodes p = Ok (filtered, failed)" "arranges arrange" "fs \<noteq> []"
  shows "set filtered = {x \<in> set nodes. \<exists>rs. podFitsOnNode always fs p (infos (node_name x)) = Ok (True, rs)}"
    and "x \<in> set nodes \<Longrightarrow> x \<notin> set filtered \<Longrightarrow>
      \<exists>rs. podFitsOnNode always fs p (infos (node_name x)) = Ok (False, rs) \<and> map_of failed (node_name x) = Some rs"
proof -
  from assms obtain fl where c: "check_nodes always fs infos p nodes = Ok (fl, failed, [])" "filtered = arrange fl"
    by (cases "check_nodes always fs infos p nodes") (auto simp: findNodesThatFit_def split: if_splits)
  have "set filtered = set fl" using c(2) assms(2) by (simp add: arranges_def)
  with check_nodes_filter [OF c(1)]
  show "set filtered = {x \<in> set nodes. \<exists>rs. podFitsOnNode always fs p (infos (node_name x)) = Ok (True, rs)}"
    and "x \<in> set nodes \<Longrightarrow> x \<notin> set filtered \<Longrightarrow>
      \<exists>rs. podFitsOnNode always fs p (infos (node_name x)) = Ok (False, rs) \<and> map_of failed (node_name x) = Some rs"
    by auto
qed

section \<open>The choice\<close>

lemma sort_reverse_set [simp]: "set (sort_reverse xs) = set xs" "length (sort_reverse xs) = length xs"
  by (simp_all add: sort_reverse_def)

lemma sort_reverse_head: "y \<in> set xs \<Longrightarrow> snd y \<le> snd (sort_reverse xs ! 0)"
proof -
  assume y: "y \<in> set xs"
  let ?ys = "sort_key snd (sort_key fst xs)"
  have len: "length ?ys = length xs" "length xs > 0" using y by auto
  then have last: "sort_reverse xs ! 0 = ?ys ! (length ?ys - 1)" by (simp add: sort_reverse_def rev_nth)
  from y obtain j where j: "j < length ?ys" "y = ?ys ! j" by (metis in_set_conv_nth set_sort)
  have "sorted (map snd ?ys)" by (rule sorted_sort_key)
  then have "map snd ?ys ! j \<le> map snd ?ys ! (length ?ys - 1)"
    by (rule sorted_nth_mono) (use j len in auto)
  with j len last show ?thesis by simp
qed

lemma selectHost_choice:
  assumes "selectHost i xs = (j, Ok h)"
  shows "\<exists>score. (h, score) \<in> set xs \<and> (\<forall>y \<in> set xs. snd y \<le> score)"
proof -
  let ?xs = "sort_reverse xs"
  let ?best = "takeWhile (\<lambda>x. \<not> snd x < snd (?xs ! 0)) ?xs"
  from assms have ne: "xs \<noteq> []" and h: "h = fst (?xs ! (i mod length ?best))"
    by (auto simp: selectHost_def Let_def split: if_splits)
  then obtain y ys where y: "?xs = y # ys" by (cases ?xs) (auto dest: arg_cong [of _ _ set])
  then have "length ?best > 0" by simp
  then have ix: "i mod length ?best < length ?best" by simp
  then have "?best ! (i mod length ?best) \<in> set ?best" by (rule nth_mem)
  moreover have "?best ! (i mod length ?best) = ?xs ! (i mod length ?best)" by (rule takeWhile_nth [OF ix])
  ultimately have "?xs ! (i mod length ?best) \<in> set ?best" by simp
  then have c: "?xs ! (i mod length ?best) \<in> set ?xs" "snd (?xs ! 0) \<le> snd (?xs ! (i mod length ?best))"
    by (auto dest: set_takeWhileD)
  have "snd y \<le> snd (?xs ! (i mod length ?best))" if "y \<in> set xs" for y
    using sort_reverse_head [OF that] c(2) by simp
  moreover have "(h, snd (?xs ! (i mod length ?best))) \<in> set xs" using c(1) h by simp
  ultimately show ?thesis by blast
qed

lemma selectHost_member: "selectHost i xs = (j, Ok h) \<Longrightarrow> h \<in> fst ` set xs"
  using selectHost_choice by force

text \<open>The scores are given to the nodes that were passed on.\<close>

definition scores_hosts :: "generic_scheduler \<Rightarrow> bool" where
  "scores_hosts g = (\<forall>p infos nodes xs. gs_PrioritizeNodes g p infos nodes = Ok xs \<longrightarrow> map fst xs = map node_name nodes)"

lemma Schedule_host:
  assumes "gs_Schedule arrange infos nodes p g = (g', Ok (Inl h))" "arranges arrange" "scores_hosts g" "gs_predicates g \<noteq> []"
  shows "\<exists>x \<in> set nodes. node_name x = h \<and>
    (\<exists>rs. podFitsOnNode (gs_alwaysCheckAllPredicates g) (gs_predicates g) p (infos h) = Ok (True, rs))"
proof -
  let ?find = "findNodesThatFit (gs_alwaysCheckAllPredicates g) (gs_predicates g) arrange infos nodes p"
  from assms(1) obtain filtered failed where f: "?find = Ok (filtered, failed)"
    by (cases ?find) (auto simp: gs_Schedule_def split: outcome.splits if_splits)
  have "h \<in> node_name ` set filtered"
  proof (cases "length filtered = 1")
    case True
    with assms(1) f show ?thesis by (auto simp: gs_Schedule_def length_Suc_conv split: outcome.splits if_splits)
  next
    case False
    with assms(1) f obtain xs i where xs: "gs_PrioritizeNodes g p infos filtered = Ok xs" "selectHost (gs_lastNodeIndex g) xs = (i, Ok h)"
      by (auto simp: gs_Schedule_def split: outcome.splits if_splits prod.splits elim: bind_outcome.elims)
    have "map fst xs = map node_name filtered" using xs(1) assms(3) by (simp add: scores_hosts_def)
    then have "fst ` set xs = node_name ` set filtered" by (metis list.set_map)
    with selectHost_member [OF xs(2)] show ?thesis by simp
  qed
  with findNodesThatFit_Ok(1) [OF f assms(2,4)] show ?thesis by auto
qed

lemma Schedule_fit_error:
  assumes "gs_Schedule arrange infos nodes p g = (g', Ok (Inr f))" "arranges arrange" "gs_predicates g \<noteq> []"
  shows "nodes \<noteq> [] \<and> fe_NumAllNodes f = length nodes \<and>
    (\<forall>x \<in> set nodes. \<exists>rs. podFitsOnNode (gs_alwaysCheckAllPredicates g) (gs_predicates g) p (infos (node_name x)) = Ok (False, rs) \<and>
       map_of (fe_FailedPredicates f) (node_name x) = Some rs)"
proof -
  let ?find = "findNodesThatFit (gs_alwaysCheckAllPredicates g) (gs_predicates g) arrange infos nodes p"
  from assms(1) obtain filtered failed where find: "?find = Ok (filtered, failed)" "nodes \<noteq> []"
    by (cases ?find) (auto simp: gs_Schedule_def split: outcome.splits if_splits)
  with assms(1) have "filtered = []" "fe_NumAllNodes f = length nodes" "fe_FailedPredicates f = failed"
    by (auto simp: gs_Schedule_def split: outcome.splits if_splits prod.splits elim: bind_outcome.elims)
  with find(2) findNodesThatFit_Ok(2) [OF find(1) assms(2,3)] show ?thesis by auto
qed

section \<open>Properties\<close>

text \<open>
  C18: the scheduling algorithm chooses well: the host it returns is a node that passes every
  predicate; when several nodes pass, its score is the best of theirs; and when it reports that nothing
  fits, every node has failed a predicate and its reasons are recorded under its name.
\<close>

theorem schedule_chooses_best:
  assumes "gs_Schedule arrange infos nodes p g = (g', Ok r)" "arranges arrange" "scores_hosts g" "gs_predicates g \<noteq> []"
  shows "case r of
      Inl h \<Rightarrow> (\<exists>x \<in> set nodes. node_name x = h \<and>
          (\<exists>rs. podFitsOnNode (gs_alwaysCheckAllPredicates g) (gs_predicates g) p (infos h) = Ok (True, rs))) \<and>
        (\<exists>filtered. set filtered = {x \<in> set nodes. \<exists>rs. podFitsOnNode (gs_alwaysCheckAllPredicates g) (gs_predicates g) p (infos (node_name x)) = Ok (True, rs)} \<and>
          (length filtered > 1 \<longrightarrow> (\<exists>scores best. gs_PrioritizeNodes g p infos filtered = Ok scores \<and>
             (h, best) \<in> set scores \<and> (\<forall>y \<in> set scores. snd y \<le> best))))
    | Inr f \<Rightarrow> \<forall>x \<in> set nodes. \<exists>rs. podFitsOnNode (gs_alwaysCheckAllPredicates g) (gs_predicates g) p (infos (node_name x)) = Ok (False, rs) \<and>
        map_of (fe_FailedPredicates f) (node_name x) = Some rs"
proof (cases r)
  case (Inl h)
  let ?find = "findNodesThatFit (gs_alwaysCheckAllPredicates g) (gs_predicates g) arrange infos nodes p"
  note sch = assms(1) [unfolded Inl]
  from sch obtain filtered failed where f: "?find = Ok (filtered, failed)"
    by (cases ?find) (auto simp: gs_Schedule_def split: outcome.splits if_splits)
  have "\<exists>scores best. gs_PrioritizeNodes g p infos filtered = Ok scores \<and> (h, best) \<in> set scores \<and> (\<forall>y \<in> set scores. snd y \<le> best)"
    if "length filtered > 1"
  proof -
    from sch f that obtain xs i where xs: "gs_PrioritizeNodes g p infos filtered = Ok xs" "selectHost (gs_lastNodeIndex g) xs = (i, Ok h)"
      by (auto simp: gs_Schedule_def split: outcome.splits if_splits prod.splits elim: bind_outcome.elims)
    with selectHost_choice [OF xs(2)] show ?thesis by blast
  qed
  with Schedule_host [OF sch assms(2-4)] findNodesThatFit_Ok(1) [OF f assms(2,4)] show ?thesis by (auto simp: Inl)
next
  case (Inr f)
  with Schedule_fit_error [of arrange infos nodes p g g' f] assms show ?thesis by simp
qed

theorem schedule_chooses_best_witness:
  "\<exists>g x. snd (gs_Schedule (\<lambda>xs. xs) (\<lambda>_. None) [x] empty_pod g) = Ok (Inl (node_name x)) \<and>
    (\<exists>rs. podFitsOnNode (gs_alwaysCheckAllPredicates g) (gs_predicates g) empty_pod None = Ok (True, rs))"
proof -
  let ?g = "\<lparr>gs_predicates = [(GeneralPred, \<lambda>_ _. Ok (True, []))], gs_alwaysCheckAllPredicates = False,
    gs_podPassesBasicChecks = (\<lambda>_. Ok ()), gs_PrioritizeNodes = (\<lambda>_ _ ns. Ok (map (\<lambda>x. (node_name x, 1)) ns)), gs_lastNodeIndex = 0\<rparr>"
  have sch: "gs_Schedule (\<lambda>xs. xs) (\<lambda>_. None) [empty_node] empty_pod ?g = (?g, Ok (Inl (node_name empty_node)))"
    by (simp add: gs_Schedule_def findNodesThatFit_def podFitsOnNode_def predicatesOrdering_def GeneralPred_def verdict_def)
  have "scores_hosts ?g" by (simp add: scores_hosts_def comp_def)
  from schedule_chooses_best [OF sch _ this] have "\<exists>rs. podFitsOnNode False (gs_predicates ?g) empty_pod None = Ok (True, rs)"
    by (simp add: arranges_def)
  with sch show ?thesis by (intro exI [of _ ?g] exI [of _ empty_node]) simp
qed

end
