(* ===== verification/Sched_Cache.thy ===== *)
theory Sched_Cache
  imports Generic_Scheduler
begin

text \<open>
  The scheduler's cache (\<open>vendor/k8s.io/kubernetes/pkg/scheduler/schedulercache/cache.go\<close>): the pods
  by identifier, assumed by the scheduler or confirmed by an informer, and the information about every
  node that the scheduling algorithm works on.  Times are numbers of nanoseconds; the mutex makes every
  operation atomic.  Disruption budgets are left out: nothing reads them while pod priority is off.

  Shown: every sequence of operations keeps pods and nodes consistent and the counters exact, and each
  operation makes the pod follow the life cycle drawn in \<open>interface.go\<close>.
\<close>

section \<open>State\<close>

record pod_state =
  ps_pod :: pod
  ps_deadline :: "int option"
  ps_bindingFinished :: bool

type_synonym cache_nodes = "(string, node_info) gomap"

record sched_cache =
  sc_ttl :: int
  sc_assumedPods :: "(string, bool) gomap"
  sc_podStates :: "(string, pod_state) gomap"
  sc_nodes :: cache_nodes

definition newSchedulerCache :: "int \<Rightarrow> sched_cache" where
  "newSchedulerCache ttl = \<lparr>sc_ttl = ttl, sc_assumedPods = [], sc_podStates = [], sc_nodes = []\<rparr>"

section \<open>Nodes\<close>

definition cache_node :: "string \<Rightarrow> cache_nodes \<Rightarrow> node_info" where
  "cache_node name m = (case map_of m name of Some n \<Rightarrow> n | None \<Rightarrow> NewNodeInfo [])"

definition sc_AddNode :: "node \<Rightarrow> sched_cache \<Rightarrow> sched_cache \<times> unit outcome" where
  "sc_AddNode x c =
     (c\<lparr>sc_nodes := AList.update (node_name x) (ni_SetNode x (cache_node (node_name x) (sc_nodes c))) (sc_nodes c)\<rparr>, Ok ())"

definition sc_UpdateNode :: "node \<Rightarrow> node \<Rightarrow> sched_cache \<Rightarrow> sched_cache \<times> unit outcome" where
  "sc_UpdateNode oldNode newNode c =
     (c\<lparr>sc_nodes := AList.update (node_name newNode) (ni_SetNode newNode (cache_node (node_name newNode) (sc_nodes c))) (sc_nodes c)\<rparr>, Ok ())"

text \<open>A node is dropped when it is gone and holds no pods.\<close>

definition put_node :: "string \<Rightarrow> node_info \<Rightarrow> sched_cache \<Rightarrow> sched_cache" where
  "put_node name n c =
     c\<lparr>sc_nodes := (if length (ni_pods n) = 0 \<and> ni_node n = None then AList.delete name (sc_nodes c)
                    else AList.update name n (sc_nodes c))\<rparr>"

definition sc_RemoveNode :: "node \<Rightarrow> sched_cache \<Rightarrow> sched_cache \<times> unit outcome" where
  "sc_RemoveNode x c =
     (case map_of (sc_nodes c) (node_name x) of
        None \<Rightarrow> (c, Panic ''nil pointer dereference'')
      | Some n \<Rightarrow> (put_node (node_name x) (ni_RemoveNode n) c, Ok ()))"

section \<open>Pods\<close>

definition sc_addPod :: "pod \<Rightarrow> sched_cache \<Rightarrow> sched_cache" where
  "sc_addPod p c =
     c\<lparr>sc_nodes := AList.update (pod_NodeName p) (ni_AddPod p (cache_node (pod_NodeName p) (sc_nodes c))) (sc_nodes c)\<rparr>"

definition sc_removePod :: "pod \<Rightarrow> sched_cache \<Rightarrow> sched_cache \<times> unit outcome" where
  "sc_removePod p c =
     (case map_of (sc_nodes c) (pod_NodeName p) of
        None \<Rightarrow> (c, bind_outcome (getPodKey p) (\<lambda>_. Panic ''nil pointer dereference''))
      | Some n \<Rightarrow>
          (case ni_RemovePod p n of
             (n', Ok _) \<Rightarrow> (put_node (pod_NodeName p) n' c, Ok ())
           | (_, e) \<Rightarrow> (c, e)))"

definition sc_updatePod :: "pod \<Rightarrow> pod \<Rightarrow> sched_cache \<Rightarrow> sched_cache \<times> unit outcome" where
  "sc_updatePod oldPod newPod c =
     (case sc_removePod oldPod c of
        (c', Ok _) \<Rightarrow> (sc_addPod newPod c', Ok ())
      | (c', e) \<Rightarrow> (c', e))"

text \<open>Every operation on a pod starts with its key and returns the error when there is none.\<close>

definition with_key :: "pod \<Rightarrow> sched_cache \<Rightarrow> (string \<Rightarrow> sched_cache \<times> 'a outcome) \<Rightarrow> sched_cache \<times> 'a outcome" where
  "with_key p c f = (case getPodKey p of Ok key \<Rightarrow> f key | Err e \<Rightarrow> (c, Err e) | Panic x \<Rightarrow> (c, Panic x))"

definition is_assumed :: "sched_cache \<Rightarrow> string \<Rightarrow> bool" where
  "is_assumed c key = (map_of (sc_assumedPods c) key = Some True)"

definition AssumePod :: "pod \<Rightarrow> sched_cache \<Rightarrow> sched_cache \<times> unit outcome" where
  "AssumePod p c = with_key p c (\<lambda>key.
     case map_of (sc_podStates c) key of
       Some _ \<Rightarrow> (c, Err (''pod '' @ key @ '' is in the cache, so can't be assumed''))
     | None \<Rightarrow>
         (let c = sc_addPod p c in
          (c\<lparr>sc_podStates := AList.update key \<lparr>ps_pod = p, ps_deadline = None, ps_bindingFinished = False\<rparr> (sc_podStates c),
             sc_assumedPods := AList.update key True (sc_assumedPods c)\<rparr>, Ok ())))"

definition finishBinding :: "pod \<Rightarrow> int \<Rightarrow> sched_cache \<Rightarrow> sched_cache \<times> unit outcome" where
  "finishBinding p now c = with_key p c (\<lambda>key.
     (case map_of (sc_podStates c) key of
        Some s \<Rightarrow>
          if is_assumed c key
          then c\<lparr>sc_podStates := AList.update key (s\<lparr>ps_bindingFinished := True, ps_deadline := Some (now + sc_ttl c)\<rparr>) (sc_podStates c)\<rparr>
          else c
      | None \<Rightarrow> c, Ok ()))"

definition drop_state :: "string \<Rightarrow> sched_cache \<Rightarrow> sched_cache" where
  "drop_state key c =
     c\<lparr>sc_assumedPods := AList.delete key (sc_assumedPods c), sc_podStates := AList.delete key (sc_podStates c)\<rparr>"

definition ForgetPod :: "pod \<Rightarrow> sched_cache \<Rightarrow> sched_cache \<times> unit outcome" where
  "ForgetPod p c = with_key p c (\<lambda>key.
     case map_of (sc_podStates c) key of
       None \<Rightarrow> (c, Err (''pod '' @ key @ '' wasn't assumed so cannot be forgotten''))
     | Some s \<Rightarrow>
         if pod_NodeName (ps_pod s) \<noteq> pod_NodeName p
         then (c, Err (''pod '' @ key @ '' was assumed on '' @ pod_NodeName p @ '' but assigned to '' @ pod_NodeName (ps_pod s)))
         else if is_assumed c key
         then (case sc_removePod p c of (c', Ok _) \<Rightarrow> (drop_state key c', Ok ()) | (c', e) \<Rightarrow> (c', e))
         else (c, Err (''pod '' @ key @ '' wasn't assumed so cannot be forgotten'')))"

text \<open>The error of the clean-up of a pod that turns up on another node is ignored.\<close>

definition confirm :: "string \<Rightarrow> pod \<Rightarrow> pod_state \<Rightarrow> sched_cache \<Rightarrow> sched_cache" where
  "confirm key p s c =
     c\<lparr>sc_assumedPods := AList.delete key (sc_assumedPods c),
       sc_podStates := AList.update key (s\<lparr>ps_deadline := None, ps_pod := p\<rparr>) (sc_podStates c)\<rparr>"

definition sc_AddPod :: "pod \<Rightarrow> sched_cache \<Rightarrow> sched_cache \<times> unit outcome" where
  "sc_AddPod p c = with_key p c (\<lambda>key.
     case map_of (sc_podStates c) key of
       None \<Rightarrow>
         (let c = sc_addPod p c in
          (c\<lparr>sc_podStates := AList.update key \<lparr>ps_pod = p, ps_deadline = None, ps_bindingFinished = False\<rparr> (sc_podStates c)\<rparr>, Ok ()))
     | Some s \<Rightarrow>
         if is_assumed c key
         then (if pod_NodeName (ps_pod s) \<noteq> pod_NodeName p
               then (case sc_removePod (ps_pod s) c of
                       (c', Panic x) \<Rightarrow> (c', Panic x)
                     | (c', _) \<Rightarrow> (confirm key p s (sc_addPod p c'), Ok ()))
               else (confirm key p s c, Ok ()))
         else (c, Err (''pod '' @ key @ '' was already in added state'')))"

text \<open>Where the code calls \<open>glog.Fatalf\<close> the process ends.\<close>

definition sc_UpdatePod :: "pod \<Rightarrow> pod \<Rightarrow> sched_cache \<Rightarrow> sched_cache \<times> unit outcome" where
  "sc_UpdatePod oldPod newPod c = with_key oldPod c (\<lambda>key.
     case map_of (sc_podStates c) key of
       None \<Rightarrow> (c, Err (''pod '' @ key @ '' is not added to scheduler cache, so cannot be updated''))
     | Some s \<Rightarrow>
         if \<not> is_assumed c key
         then (if pod_NodeName (ps_pod s) \<noteq> pod_NodeName newPod
               then (c, Panic ''Schedulercache is corrupted and can badly affect scheduling decisions'')
               else sc_updatePod oldPod newPod c)
         else (c, Err (''pod '' @ key @ '' is not added to scheduler cache, so cannot be updated'')))"

definition sc_RemovePod :: "pod \<Rightarrow> sched_cache \<Rightarrow> sched_cache \<times> unit outcome" where
  "sc_RemovePod p c = with_key p c (\<lambda>key.
     case map_of (sc_podStates c) key of
       None \<Rightarrow> (c, Err (''pod '' @ key @ '' is not found in scheduler cache, so cannot be removed from it''))
     | Some s \<Rightarrow>
         if \<not> is_assumed c key
         then (if pod_NodeName (ps_pod s) \<noteq> pod_NodeName p
               then (c, Panic ''Schedulercache is corrupted and can badly affect scheduling decisions'')
               else (case sc_removePod (ps_pod s) c of
                       (c', Ok _) \<Rightarrow> (c'\<lparr>sc_podStates := AList.delete key (sc_podStates c')\<rparr>, Ok ())
                     | (c', e) \<Rightarrow> (c', e)))
         else (c, Err (''pod '' @ key @ '' is not found in scheduler cache, so cannot be removed from it'')))"

definition IsAssumedPod :: "pod \<Rightarrow> sched_cache \<Rightarrow> bool outcome" where
  "IsAssumedPod p c =
     bind_outcome (getPodKey p) (\<lambda>key. Ok (case map_of (sc_assumedPods c) key of None \<Rightarrow> False | Some b \<Rightarrow> b))"

definition GetPod :: "pod \<Rightarrow> sched_cache \<Rightarrow> pod outcome" where
  "GetPod p c =
     bind_outcome (getPodKey p) (\<lambda>key.
       case map_of (sc_podStates c) key of
         None \<Rightarrow> Err (''pod '' @ key @ '' does not exist in scheduler cache'')
       | Some s \<Rightarrow> Ok (ps_pod s))"

definition FilteredList :: "(pod \<Rightarrow> bool) \<Rightarrow> ((string, string) gomap \<Rightarrow> bool) \<Rightarrow> sched_cache \<Rightarrow> pod list" where
  "FilteredList podFilter matches c =
     filter (\<lambda>p. podFilter p \<and> matches (om_Labels (pod_meta p))) (concat (map (\<lambda>(name, n). ni_pods n) (sc_nodes c)))"

definition sc_List :: "((string, string) gomap \<Rightarrow> bool) \<Rightarrow> sched_cache \<Rightarrow> pod list" where
  "sc_List matches c = FilteredList (\<lambda>p. True) matches c"

section \<open>Expiry\<close>

definition expirePod :: "string \<Rightarrow> pod_state \<Rightarrow> sched_cache \<Rightarrow> sched_cache \<times> unit outcome" where
  "expirePod key s c =
     (case sc_removePod (ps_pod s) c of (c', Ok _) \<Rightarrow> (drop_state key c', Ok ()) | (c', e) \<Rightarrow> (c', e))"

text \<open>An error of \<open>expirePod\<close> is logged and the loop goes on.\<close>

fun cleanup_keys :: "int \<Rightarrow> string list \<Rightarrow> sched_cache \<Rightarrow> sched_cache \<times> unit outcome" where
  "cleanup_keys now [] c = (c, Ok ())"
| "cleanup_keys now (key # keys) c =
     (case map_of (sc_podStates c) key of
        None \<Rightarrow> (c, Panic ''Key found in assumed set but not in podStates. Potentially a logical error.'')
      | Some s \<Rightarrow>
          if \<not> ps_bindingFinished s then cleanup_keys now keys c
          else (case ps_deadline s of
                  None \<Rightarrow> (c, Panic ''nil pointer dereference'')
                | Some deadline \<Rightarrow>
                    if now > deadline
                    then (case expirePod key s c of
                            (c', Panic x) \<Rightarrow> (c', Panic x)
                          | (c', _) \<Rightarrow> cleanup_keys now keys c')
                    else cleanup_keys now keys c))"

definition cleanupAssumedPods :: "int \<Rightarrow> sched_cache \<Rightarrow> sched_cache \<times> unit outcome" where
  "cleanupAssumedPods now c = cleanup_keys now (map fst (sc_assumedPods c)) c"

section \<open>Snapshots\<close>

text \<open>The algorithm's own copy of the nodes is refreshed where the generation has changed.\<close>

definition refresh_node :: "string \<times> node_info \<Rightarrow> cache_nodes \<Rightarrow> cache_nodes" where
  "refresh_node = (\<lambda>(name, info) m.
     case map_of m name of
       Some current \<Rightarrow> if ni_generation current \<noteq> ni_generation info then AList.update name info m else m
     | None \<Rightarrow> AList.update name info m)"

definition UpdateNodeNameToInfoMap :: "sched_cache \<Rightarrow> cache_nodes \<Rightarrow> cache_nodes" where
  "UpdateNodeNameToInfoMap c m =
     filter (\<lambda>(name, _). map_of (sc_nodes c) name \<noteq> None) (fold refresh_node (sc_nodes c) m)"

section \<open>Operations as a whole\<close>

datatype cache_op =
    OpAssume pod | OpFinish pod int | OpForget pod | OpAdd pod | OpUpdate pod pod | OpRemove pod
  | OpAddNode node | OpUpdateNode node node | OpRemoveNode node | OpCleanup int

fun run_cache_op :: "cache_op \<Rightarrow> sched_cache \<Rightarrow> sched_cache \<times> unit outcome" where
  "run_cache_op (OpAssume p) c = AssumePod p c"
| "run_cache_op (OpFinish p now) c = finishBinding p now c"
| "run_cache_op (OpForget p) c = ForgetPod p c"
| "run_cache_op (OpAdd p) c = sc_AddPod p c"
| "run_cache_op (OpUpdate oldPod newPod) c = sc_UpdatePod oldPod newPod c"
| "run_cache_op (OpRemove p) c = sc_RemovePod p c"
| "run_cache_op (OpAddNode x) c = sc_AddNode x c"
| "run_cache_op (OpUpdateNode oldNode newNode) c = sc_UpdateNode oldNode newNode c"
| "run_cache_op (OpRemoveNode x) c = sc_RemoveNode x c"
| "run_cache_op (OpCleanup now) c = cleanupAssumedPods now c"

section \<open>Nodes and the pods on them\<close>

text \<open>Maps are looked up below, not enumerated.\<close>

declare map_of_eq_Some_iff [simp del]

definition keys_of :: "cache_nodes \<Rightarrow> string \<Rightarrow> string outcome list" where
  "keys_of m name = (case map_of m name of None \<Rightarrow> [] | Some n \<Rightarrow> map getPodKey (ni_pods n))"

text \<open>A pod requests what is on record for its key.\<close>

definition steady :: "(string \<Rightarrow> string \<Rightarrow> int) \<Rightarrow> pod \<Rightarrow> bool" where
  "steady R p = (\<forall>k. getPodKey p = Ok k \<longrightarrow> pod_amount p = R k)"

definition info_ok :: "(string \<Rightarrow> string \<Rightarrow> int) \<Rightarrow> node_info \<Rightarrow> bool" where
  "info_ok R n = (ni_sums n \<and> list_all (steady R) (ni_pods n) \<and> distinct (map getPodKey (ni_pods n)))"

text \<open>
  The nodes hold exactly the pods that \<open>H\<close> puts on them, each once, with exact counters, and no node
  without pods is kept once it is gone.
\<close>

definition nodes_ok :: "(string \<Rightarrow> string \<Rightarrow> int) \<Rightarrow> cache_nodes \<Rightarrow> (string \<Rightarrow> string option) \<Rightarrow> bool" where
  "nodes_ok R m H =
     (gomap_wf m \<and>
      (\<forall>name n. map_of m name = Some n \<longrightarrow> info_ok R n \<and> (ni_pods n \<noteq> [] \<or> ni_node n \<noteq> None)) \<and>
      (\<forall>name key. key \<in> set (keys_of m name) \<longleftrightarrow> (\<exists>k. key = Ok k \<and> H k = Some name)))"

lemma keys_of_update [simp]:
  "keys_of (AList.update nm n m) name = (if name = nm then map getPodKey (ni_pods n) else keys_of m name)"
  by (simp add: keys_of_def)

lemma keys_of_put_node:
  "keys_of (sc_nodes (put_node nm n c)) name = (if name = nm then map getPodKey (ni_pods n) else keys_of (sc_nodes c) name)"
  by (simp add: keys_of_def put_node_def)

lemma put_node_simps [simp]:
  "sc_podStates (put_node nm n c) = sc_podStates c" "sc_assumedPods (put_node nm n c) = sc_assumedPods c"
  "sc_ttl (put_node nm n c) = sc_ttl c"
  by (simp_all add: put_node_def)

lemma nodes_okD:
  assumes "nodes_ok R m H"
  shows "gomap_wf m" "map_of m name = Some n \<Longrightarrow> info_ok R n"
    "key \<in> set (keys_of m name) \<longleftrightarrow> (\<exists>k. key = Ok k \<and> H k = Some name)"
  using assms by (auto simp: nodes_ok_def)

lemma info_ok_empty: "info_ok R (NewNodeInfo [])"
  by (simp add: info_ok_def NewNodeInfo_def ni_sums_empty) (simp add: empty_node_info_def)

lemma info_ok_cache_node: "nodes_ok R m H \<Longrightarrow> info_ok R (cache_node name m)"
  by (auto simp: cache_node_def info_ok_empty dest: nodes_okD(2) split: option.split)

lemma keys_cache_node: "map getPodKey (ni_pods (cache_node name m)) = keys_of m name"
  by (simp add: cache_node_def keys_of_def NewNodeInfo_def empty_node_info_def split: option.split)

lemma set_keys_cache_node [simp]: "getPodKey ` set (ni_pods (cache_node name m)) = set (keys_of m name)"
  by (metis keys_cache_node set_map)

lemma nodes_ok_update:
  assumes "nodes_ok R m H" "info_ok R n" "ni_pods n \<noteq> [] \<or> ni_node n \<noteq> None"
    and "\<And>name key. key \<in> set (if name = nm then map getPodKey (ni_pods n) else keys_of m name) \<longleftrightarrow>
      (\<exists>k. key = Ok k \<and> H' k = Some name)"
  shows "nodes_ok R (AList.update nm n m) H'"
  unfolding nodes_ok_def keys_of_update
  using assms(1-3) by (intro conjI allI assms(4)) (auto simp: nodes_ok_def split: if_splits)

lemma nodes_ok_SetNode:
  assumes "nodes_ok R m H"
  shows "nodes_ok R (AList.update nm (ni_SetNode x (cache_node nm m)) m) H"
proof (rule nodes_ok_update [OF assms])
  show "info_ok R (ni_SetNode x (cache_node nm m))"
    using info_ok_cache_node [OF assms, of nm] by (simp add: info_ok_def ni_sums_SetNode) (simp add: ni_SetNode_def)
  show "key \<in> set (if name = nm then map getPodKey (ni_pods (ni_SetNode x (cache_node nm m))) else keys_of m name) \<longleftrightarrow>
      (\<exists>k. key = Ok k \<and> H k = Some name)" for name key
    using nodes_okD(3) [OF assms, of key name] by (auto simp: ni_SetNode_def)
qed (simp add: ni_SetNode_def)

lemma nodes_ok_put:
  assumes "nodes_ok R (sc_nodes c) H" "info_ok R n"
    and "\<And>name key. key \<in> set (if name = nm then map getPodKey (ni_pods n) else keys_of (sc_nodes c) name) \<longleftrightarrow>
      (\<exists>k. key = Ok k \<and> H' k = Some name)"
  shows "nodes_ok R (sc_nodes (put_node nm n c)) H'"
  unfolding nodes_ok_def keys_of_put_node
  using assms(1,2) by (intro conjI allI assms(3)) (auto simp: nodes_ok_def put_node_def split: if_splits)

lemma nodes_ok_RemoveNode:
  assumes "nodes_ok R (sc_nodes c) H" "map_of (sc_nodes c) nm = Some n"
  shows "nodes_ok R (sc_nodes (put_node nm (ni_RemoveNode n) c)) H"
proof (rule nodes_ok_put [OF assms(1)])
  show "info_ok R (ni_RemoveNode n)"
    using nodes_okD(2) [OF assms] by (simp add: info_ok_def ni_sums_SetNode) (simp add: ni_RemoveNode_def)
  show "key \<in> set (if name = nm then map getPodKey (ni_pods (ni_RemoveNode n)) else keys_of (sc_nodes c) name) \<longleftrightarrow>
      (\<exists>k. key = Ok k \<and> H k = Some name)" for name key
    using nodes_okD(3) [OF assms(1), of key name] assms(2) by (auto simp: ni_RemoveNode_def keys_of_def)
qed

lemma nodes_ok_addPod:
  assumes "nodes_ok R (sc_nodes c) H" "getPodKey p = Ok k" "H k = None" "steady R p"
  shows "nodes_ok R (sc_nodes (sc_addPod p c)) (H(k \<mapsto> pod_NodeName p))"
proof -
  let ?m = "sc_nodes c" and ?n = "cache_node (pod_NodeName p) (sc_nodes c)"
  have "nodes_ok R (AList.update (pod_NodeName p) (ni_AddPod p ?n) ?m) (H(k \<mapsto> pod_NodeName p))"
  proof (rule nodes_ok_update [OF assms(1)])
    have "Ok k \<notin> set (keys_of ?m (pod_NodeName p))" using nodes_okD(3) [OF assms(1)] assms(3) by simp
    with info_ok_cache_node [OF assms(1), of "pod_NodeName p"] assms(2,4)
    show "info_ok R (ni_AddPod p ?n)" by (simp add: info_ok_def ni_sums_AddPod)
    show "key \<in> set (if name = pod_NodeName p then map getPodKey (ni_pods (ni_AddPod p ?n)) else keys_of ?m name) \<longleftrightarrow>
        (\<exists>k'. key = Ok k' \<and> (H(k \<mapsto> pod_NodeName p)) k' = Some name)" for name key
      using nodes_okD(3) [OF assms(1), of key name] assms(2,3) by auto (metis option.distinct(1))
  qed simp
  then show ?thesis by (simp add: sc_addPod_def)
qed

text \<open>Removing a pod takes it off the node it is on; anything else is refused and changes nothing.\<close>

lemma remove_swap_set:
  "distinct xs \<Longrightarrow> i < length xs \<Longrightarrow> set (remove_swap i xs) = set xs - {xs ! i} \<and> distinct (remove_swap i xs)"
  using remove_swap_mset [of i xs] by (auto simp flip: mset_remove1 dest: mset_eq_setD mset_eq_imp_distinct_iff)

lemma remove_swap_subset: "i < length xs \<Longrightarrow> set (remove_swap i xs) \<subseteq> set xs"
  by (metis remove_swap_mset in_diffD set_mset_mset subsetI)

lemma map_remove_swap: "i < length xs \<Longrightarrow> map f (remove_swap i xs) = remove_swap i (map f xs)"
  by (cases "xs = []") (simp_all add: remove_swap_def map_butlast map_update last_map)

lemma removePod_Ok:
  assumes "nodes_ok R (sc_nodes c) H" "getPodKey p = Ok k" "H k = Some (pod_NodeName p)" "steady R p"
  shows "\<exists>n. sc_removePod p c = (put_node (pod_NodeName p) n c, Ok ()) \<and>
    nodes_ok R (sc_nodes (put_node (pod_NodeName p) n c)) (H(k := None))"
proof -
  let ?name = "pod_NodeName p"
  have "Ok k \<in> set (keys_of (sc_nodes c) ?name)" using nodes_okD(3) [OF assms(1)] assms(3) by simp
  then obtain n where n: "map_of (sc_nodes c) ?name = Some n" "Ok k \<in> set (map getPodKey (ni_pods n))"
    by (cases "map_of (sc_nodes c) ?name") (auto simp: keys_of_def)
  then obtain i where i: "find_pod k (ni_pods n) = Some i"
    by (cases "find_pod k (ni_pods n)") (auto simp: find_pod_None)
  note i' = find_pod_Some [OF i]
  let ?n = "fst (ni_RemovePod p n)"
  note rem = ni_RemovePod_found [OF assms(2) i]
  note ok = nodes_okD(2) [OF assms(1) n(1)]
  have keys: "set (map getPodKey (ni_pods ?n)) = set (map getPodKey (ni_pods n)) - {Ok k}" "distinct (map getPodKey (ni_pods ?n))"
    using ok i' remove_swap_set [of "map getPodKey (ni_pods n)" i] by (simp_all add: rem(2) map_remove_swap info_ok_def)
  have "same_requests p n"
    using ok assms(2,4) by (auto simp: same_requests_def info_ok_def list_all_iff steady_def)
  moreover have "list_all (steady R) (ni_pods ?n)"
    using ok i' remove_swap_subset [of i "ni_pods n"] by (auto simp: info_ok_def rem(2) list_all_iff)
  ultimately have "info_ok R ?n" using ok keys(2) by (simp add: info_ok_def ni_sums_RemovePod)
  moreover have "key \<in> set (if name = ?name then map getPodKey (ni_pods ?n) else keys_of (sc_nodes c) name) \<longleftrightarrow>
      (\<exists>k'. key = Ok k' \<and> (H(k := None)) k' = Some name)" for name key
    using nodes_okD(3) [OF assms(1), of key name] assms(3) n(1) keys(1) by (auto simp: keys_of_def) (metis option.inject)
  ultimately have "nodes_ok R (sc_nodes (put_node ?name ?n c)) (H(k := None))"
    by (rule nodes_ok_put [OF assms(1)])
  moreover have "sc_removePod p c = (put_node ?name ?n c, Ok ())"
    using n(1) rem(1) by (cases "ni_RemovePod p n") (simp add: sc_removePod_def)
  ultimately show ?thesis by blast
qed

lemma removePod_refused:
  assumes "nodes_ok R (sc_nodes c) H" "getPodKey p = Ok k" "H k \<noteq> Some (pod_NodeName p)"
  shows "fst (sc_removePod p c) = c" "\<not> is_ok (snd (sc_removePod p c))"
proof -
  have no: "Ok k \<notin> set (keys_of (sc_nodes c) (pod_NodeName p))" using nodes_okD(3) [OF assms(1)] assms(3) by simp
  have "fst (sc_removePod p c) = c \<and> \<not> is_ok (snd (sc_removePod p c))"
  proof (cases "map_of (sc_nodes c) (pod_NodeName p)")
    case (Some n)
    with no have "find_pod k (ni_pods n) = None" by (simp add: keys_of_def find_pod_None image_iff) metis
    with Some assms(2) show ?thesis by (auto simp: sc_removePod_def ni_RemovePod_def is_ok_def split: option.split)
  qed (simp add: sc_removePod_def assms(2) is_ok_def)
  then show "fst (sc_removePod p c) = c" "\<not> is_ok (snd (sc_removePod p c))" by auto
qed

section \<open>The life cycle of a pod\<close>

text \<open>The states and arrows of the diagram in \<open>interface.go\<close>; \<open>None\<close> is a refused event.\<close>

datatype pod_life = Absent | Assumed string | Added string

datatype life_event = LAssume string | LAdd string | LUpdate | LRemove | LForget | LExpire

fun life_step :: "life_event \<Rightarrow> pod_life \<Rightarrow> pod_life option" where
  "life_step (LAssume h) Absent = Some (Assumed h)"
| "life_step (LAdd h) Absent = Some (Added h)"
| "life_step (LAdd h) (Assumed h') = Some (Added h)"
| "life_step LUpdate (Added h) = Some (Added h)"
| "life_step LRemove (Added h) = Some Absent"
| "life_step LForget (Assumed h) = Some Absent"
| "life_step LExpire (Assumed h) = Some Absent"
| "life_step _ _ = None"

definition life :: "sched_cache \<Rightarrow> string \<Rightarrow> pod_life" where
  "life c k =
     (case map_of (sc_podStates c) k of
        None \<Rightarrow> Absent
      | Some s \<Rightarrow> if is_assumed c k then Assumed (pod_NodeName (ps_pod s)) else Added (pod_NodeName (ps_pod s)))"

section \<open>The invariant\<close>

definition hosts :: "(string, pod_state) gomap \<Rightarrow> string \<Rightarrow> string option" where
  "hosts m k = map_option (\<lambda>s. pod_NodeName (ps_pod s)) (map_of m k)"

definition states_ok :: "(string \<Rightarrow> string \<Rightarrow> int) \<Rightarrow> sched_cache \<Rightarrow> bool" where
  "states_ok R c =
     (gomap_wf (sc_assumedPods c) \<and> gomap_wf (sc_podStates c) \<and>
      (\<forall>k b. map_of (sc_assumedPods c) k = Some b \<longrightarrow>
         b \<and> (\<exists>s. map_of (sc_podStates c) k = Some s \<and> (ps_bindingFinished s \<longrightarrow> ps_deadline s \<noteq> None))) \<and>
      (\<forall>k s. map_of (sc_podStates c) k = Some s \<longrightarrow> getPodKey (ps_pod s) = Ok k \<and> steady R (ps_pod s)))"

definition sc_inv :: "(string \<Rightarrow> string \<Rightarrow> int) \<Rightarrow> sched_cache \<Rightarrow> bool" where
  "sc_inv R c = (states_ok R c \<and> nodes_ok R (sc_nodes c) (hosts (sc_podStates c)))"

lemma hosts_simps [simp]:
  "hosts (AList.update k s m) = (hosts m)(k \<mapsto> pod_NodeName (ps_pod s))"
  "hosts (AList.delete k m) = (hosts m)(k := None)"
  by (auto simp: hosts_def)

lemma hosts_life: "hosts (sc_podStates c) k = (case life c k of Absent \<Rightarrow> None | Assumed h \<Rightarrow> Some h | Added h \<Rightarrow> Some h)"
  by (simp add: hosts_def life_def split: option.split)

lemma sc_inv_new: "sc_inv R (newSchedulerCache ttl)"
  by (simp add: sc_inv_def states_ok_def nodes_ok_def newSchedulerCache_def keys_of_def hosts_def)

lemma addPod_simps [simp]:
  "sc_podStates (sc_addPod p c) = sc_podStates c" "sc_assumedPods (sc_addPod p c) = sc_assumedPods c"
  "sc_ttl (sc_addPod p c) = sc_ttl c" "is_assumed (sc_addPod p c) = is_assumed c"
  by (simp_all add: sc_addPod_def is_assumed_def fun_eq_iff)

lemma same_states:
  assumes "sc_podStates c' = sc_podStates c" "sc_assumedPods c' = sc_assumedPods c"
  shows "states_ok R c' = states_ok R c" "life c' = life c"
  using assms by (auto simp: states_ok_def life_def is_assumed_def fun_eq_iff split: option.split)

text \<open>One operation makes the pod take one arrow, or is refused and changes nothing.\<close>

definition follows :: "(string \<Rightarrow> string \<Rightarrow> int) \<Rightarrow> sched_cache \<Rightarrow> string \<Rightarrow> life_event \<Rightarrow> sched_cache \<times> unit outcome \<Rightarrow> bool" where
  "follows R c k e res =
     ((case life_step e (life c k) of
         Some l \<Rightarrow> snd res = Ok () \<and> life (fst res) = (life c)(k := l)
       | None \<Rightarrow> (\<exists>msg. snd res = Err msg) \<and> fst res = c) \<and> sc_inv R (fst res))"

lemma AssumePod_follows:
  assumes "sc_inv R c" "getPodKey p = Ok k" "steady R p"
  shows "follows R c k (LAssume (pod_NodeName p)) (AssumePod p c)"
proof (cases "map_of (sc_podStates c) k")
  case None
  then have "life c k = Absent" "hosts (sc_podStates c) k = None" by (simp_all add: life_def hosts_def)
  with assms nodes_ok_addPod [of R c "hosts (sc_podStates c)" p k] None show ?thesis
    by (auto simp: follows_def AssumePod_def with_key_def Let_def sc_inv_def states_ok_def life_def is_assumed_def fun_eq_iff
        split: option.split)
next
  case (Some s)
  with assms show ?thesis by (auto simp: follows_def AssumePod_def with_key_def life_def)
qed

lemma follows_refused: "sc_inv R c \<Longrightarrow> life_step e (life c k) = None \<Longrightarrow> follows R c k e (c, Err msg)"
  by (simp add: follows_def)

lemma sc_invD:
  assumes "sc_inv R c"
  shows "nodes_ok R (sc_nodes c) (hosts (sc_podStates c))" "states_ok R c"
    "map_of (sc_podStates c) k = Some s \<Longrightarrow> getPodKey (ps_pod s) = Ok k \<and> steady R (ps_pod s)"
    "map_of (sc_assumedPods c) k = Some b \<Longrightarrow> b"
    "map_of (sc_assumedPods c) k = Some b \<Longrightarrow> \<exists>s. map_of (sc_podStates c) k = Some s \<and> (ps_bindingFinished s \<longrightarrow> ps_deadline s \<noteq> None)"
  using assms by (auto simp: sc_inv_def states_ok_def)

text \<open>Taking a pod off its node and dropping its state.\<close>

lemma removePod_drop:
  assumes "sc_inv R c" "map_of (sc_podStates c) k = Some s" "getPodKey p = Ok k" "steady R p"
    and "pod_NodeName (ps_pod s) = pod_NodeName p"
  shows "\<exists>c'. sc_removePod p c = (c', Ok ()) \<and> sc_podStates c' = sc_podStates c \<and> sc_assumedPods c' = sc_assumedPods c \<and>
    nodes_ok R (sc_nodes c') ((hosts (sc_podStates c))(k := None)) \<and> sc_inv R (drop_state k c') \<and>
    life (drop_state k c') = (life c)(k := Absent)"
proof -
  have "hosts (sc_podStates c) k = Some (pod_NodeName p)" using assms(2,5) by (simp add: hosts_def)
  from removePod_Ok [OF sc_invD(1) [OF assms(1)] assms(3) this assms(4)] obtain n where
    n: "sc_removePod p c = (put_node (pod_NodeName p) n c, Ok ())"
      "nodes_ok R (sc_nodes (put_node (pod_NodeName p) n c)) ((hosts (sc_podStates c))(k := None))" by blast
  have "sc_inv R (drop_state k (put_node (pod_NodeName p) n c))"
    using n(2) sc_invD(2) [OF assms(1)] by (auto simp: sc_inv_def drop_state_def states_ok_def)
  moreover have "life (drop_state k (put_node (pod_NodeName p) n c)) = (life c)(k := Absent)"
    by (auto simp: life_def drop_state_def is_assumed_def fun_eq_iff split: option.split)
  ultimately show ?thesis using n by fastforce
qed

lemma ForgetPod_follows:
  assumes "sc_inv R c" "getPodKey p = Ok k" "steady R p" "\<And>h. life c k = Assumed h \<Longrightarrow> h = pod_NodeName p"
  shows "follows R c k LForget (ForgetPod p c)"
proof (cases "map_of (sc_podStates c) k")
  case None
  with assms(1,2) show ?thesis by (simp add: ForgetPod_def with_key_def follows_refused life_def)
next
  case (Some s)
  show ?thesis
  proof (cases "is_assumed c k")
    case True
    with Some assms(4) have "pod_NodeName (ps_pod s) = pod_NodeName p" by (simp add: life_def)
    with removePod_drop [OF assms(1) Some assms(2,3)] Some True assms(2) show ?thesis
      by (auto simp: ForgetPod_def with_key_def follows_def life_def [of c])
  next
    case False
    with Some assms(1,2) show ?thesis by (simp add: ForgetPod_def with_key_def follows_refused life_def)
  qed
qed

lemma expirePod_follows:
  assumes "sc_inv R c" "map_of (sc_podStates c) k = Some s" "is_assumed c k"
  shows "follows R c k LExpire (expirePod k s c)"
  using removePod_drop [OF assms(1,2), of "ps_pod s"] sc_invD(3) [OF assms(1,2)] assms(2,3)
  by (auto simp: expirePod_def follows_def life_def [of c])

lemma sc_RemovePod_follows:
  assumes "sc_inv R c" "getPodKey p = Ok k" "\<And>h. life c k = Added h \<Longrightarrow> h = pod_NodeName p"
  shows "follows R c k LRemove (sc_RemovePod p c)"
proof (cases "map_of (sc_podStates c) k")
  case None
  with assms(1,2) show ?thesis by (simp add: sc_RemovePod_def with_key_def follows_refused life_def)
next
  case (Some s)
  show ?thesis
  proof (cases "is_assumed c k")
    case True
    with Some assms(1,2) show ?thesis by (simp add: sc_RemovePod_def with_key_def follows_refused life_def)
  next
    case False
    with Some assms(3) have h: "pod_NodeName (ps_pod s) = pod_NodeName p" by (simp add: life_def)
    note s = sc_invD(3) [OF assms(1) Some]
    from removePod_drop [OF assms(1) Some s [THEN conjunct1] s [THEN conjunct2] refl] obtain c' where
      c': "sc_removePod (ps_pod s) c = (c', Ok ())" "sc_assumedPods c' = sc_assumedPods c"
        "sc_inv R (drop_state k c')" "life (drop_state k c') = (life c)(k := Absent)" by blast
    have "map_of (sc_assumedPods c) k = None" using False sc_invD(4) [OF assms(1), of k] by (cases "map_of (sc_assumedPods c) k") (auto simp: is_assumed_def)
    then have "drop_state k c' = c'\<lparr>sc_podStates := AList.delete k (sc_podStates c')\<rparr>"
      using c'(2) by (simp add: drop_state_def AList.delete_id map_of_eq_None_iff)
    with c' Some False h assms(2) show ?thesis
      by (simp add: sc_RemovePod_def with_key_def follows_def life_def [of c])
  qed
qed

lemma confirm_follows:
  assumes "sc_inv R c" "map_of (sc_podStates c) k = Some s" "getPodKey p = Ok k" "steady R p" "is_assumed c k"
    and "sc_podStates c' = sc_podStates c" "sc_assumedPods c' = sc_assumedPods c"
    and "nodes_ok R (sc_nodes c') ((hosts (sc_podStates c))(k \<mapsto> pod_NodeName p))"
  shows "follows R c k (LAdd (pod_NodeName p)) (confirm k p s c', Ok ())"
proof -
  have "life c k = Assumed (pod_NodeName (ps_pod s))" using assms(2,5) by (simp add: life_def)
  moreover have "life (confirm k p s c') = (life c)(k := Added (pod_NodeName p))"
    using assms(6,7) by (auto simp: life_def confirm_def is_assumed_def fun_eq_iff split: option.split)
  moreover have "sc_inv R (confirm k p s c')"
    using assms(3,4,6-8) sc_invD(2) [OF assms(1)] by (auto simp: sc_inv_def confirm_def states_ok_def)
  ultimately show ?thesis by (simp add: follows_def)
qed

lemma sc_AddPod_follows:
  assumes "sc_inv R c" "getPodKey p = Ok k" "steady R p"
  shows "follows R c k (LAdd (pod_NodeName p)) (sc_AddPod p c)"
proof (cases "map_of (sc_podStates c) k")
  case None
  then have "life c k = Absent" "hosts (sc_podStates c) k = None" "map_of (sc_assumedPods c) k = None"
    using sc_invD(5) [OF assms(1), of k] by (auto simp: life_def hosts_def intro: ccontr)
  with assms nodes_ok_addPod [of R c "hosts (sc_podStates c)" p k] None show ?thesis
    by (auto simp: follows_def sc_AddPod_def with_key_def Let_def sc_inv_def states_ok_def life_def is_assumed_def fun_eq_iff
        split: option.split)
next
  case (Some s)
  note s = sc_invD(3) [OF assms(1) Some]
  show ?thesis
  proof (cases "is_assumed c k")
    case False
    with Some assms(1,2) show ?thesis by (simp add: sc_AddPod_def with_key_def follows_refused life_def)
  next
    case True
    show ?thesis
    proof (cases "pod_NodeName (ps_pod s) = pod_NodeName p")
      case same: True
      with Some have "(hosts (sc_podStates c))(k \<mapsto> pod_NodeName p) = hosts (sc_podStates c)"
        by (simp add: hosts_def fun_upd_idem)
      with confirm_follows [OF assms(1) Some assms(2,3) True refl refl] sc_invD(1) [OF assms(1)] Some True same assms(2)
      show ?thesis by (simp add: sc_AddPod_def with_key_def)
    next
      case other: False
      from removePod_drop [OF assms(1) Some s [THEN conjunct1] s [THEN conjunct2] refl] obtain c' where
        c': "sc_removePod (ps_pod s) c = (c', Ok ())" "sc_podStates c' = sc_podStates c" "sc_assumedPods c' = sc_assumedPods c"
          "nodes_ok R (sc_nodes c') ((hosts (sc_podStates c))(k := None))" by blast
      from nodes_ok_addPod [OF c'(4) assms(2) _ assms(3)]
      have "nodes_ok R (sc_nodes (sc_addPod p c')) ((hosts (sc_podStates c))(k \<mapsto> pod_NodeName p))" by simp
      from confirm_follows [OF assms(1) Some assms(2,3) True _ _ this] c' Some True other assms(2)
      show ?thesis by (simp add: sc_AddPod_def with_key_def)
    qed
  qed
qed

lemma sc_UpdatePod_follows:
  assumes "sc_inv R c" "getPodKey old = Ok k" "getPodKey new = Ok k" "steady R old" "steady R new"
    and "\<And>h. life c k = Added h \<Longrightarrow> h = pod_NodeName old \<and> h = pod_NodeName new"
  shows "follows R c k LUpdate (sc_UpdatePod old new c)"
proof (cases "map_of (sc_podStates c) k")
  case None
  with assms(1,2) show ?thesis by (simp add: sc_UpdatePod_def with_key_def follows_refused life_def)
next
  case (Some s)
  show ?thesis
  proof (cases "is_assumed c k")
    case True
    with Some assms(1,2) show ?thesis by (simp add: sc_UpdatePod_def with_key_def follows_refused life_def)
  next
    case False
    with Some assms(6) have h: "pod_NodeName (ps_pod s) = pod_NodeName old" "pod_NodeName (ps_pod s) = pod_NodeName new"
      by (auto simp: life_def)
    from removePod_drop [OF assms(1) Some assms(2,4) h(1)] obtain c' where
      c': "sc_removePod old c = (c', Ok ())" "sc_podStates c' = sc_podStates c" "sc_assumedPods c' = sc_assumedPods c"
        "nodes_ok R (sc_nodes c') ((hosts (sc_podStates c))(k := None))" by blast
    have "(hosts (sc_podStates c))(k \<mapsto> pod_NodeName new) = hosts (sc_podStates c)"
      using Some h by (simp add: hosts_def fun_upd_idem)
    with nodes_ok_addPod [OF c'(4) assms(3) _ assms(5)] c'(2,3) sc_invD(2) [OF assms(1)]
    have "sc_inv R (sc_addPod new c')" using same_states(1) [of "sc_addPod new c'" c] by (simp add: sc_inv_def)
    moreover have "life (sc_addPod new c') = life c" using c'(2,3) by (intro same_states) simp_all
    moreover have "life c k = Added (pod_NodeName new)" using Some False h by (simp add: life_def)
    ultimately show ?thesis
      using c'(1) Some False h assms(2) by (simp add: sc_UpdatePod_def sc_updatePod_def with_key_def follows_def fun_upd_idem)
  qed
qed

lemma finishBinding_keeps:
  assumes "sc_inv R c"
  shows "sc_inv R (fst (finishBinding p now c))" "life (fst (finishBinding p now c)) = life c"
  using assms sc_invD(3) [OF assms]
  by (auto simp: finishBinding_def with_key_def sc_inv_def states_ok_def life_def is_assumed_def hosts_def fun_eq_iff fun_upd_idem
      split: outcome.split option.split)

text \<open>An assumed pod expires when its binding has finished and its deadline has passed.\<close>

definition due :: "int \<Rightarrow> sched_cache \<Rightarrow> string \<Rightarrow> bool" where
  "due now c k =
     (case map_of (sc_podStates c) k of
        None \<Rightarrow> False
      | Some s \<Rightarrow> ps_bindingFinished s \<and> (case ps_deadline s of None \<Rightarrow> False | Some d \<Rightarrow> now > d))"

lemma expirePod_drops:
  assumes "sc_inv R c" "map_of (sc_podStates c) k = Some s"
  shows "\<exists>c'. expirePod k s c = (c', Ok ()) \<and> sc_inv R c' \<and> life c' = (life c)(k := Absent) \<and>
    sc_podStates c' = AList.delete k (sc_podStates c) \<and> sc_assumedPods c' = AList.delete k (sc_assumedPods c)"
  using removePod_drop [OF assms, of "ps_pod s"] sc_invD(3) [OF assms]
  by (auto simp: expirePod_def) (auto simp: drop_state_def)

lemma cleanup_keys_expires:
  assumes "sc_inv R c" "distinct ks" "\<forall>k \<in> set ks. is_assumed c k"
  shows "snd (cleanup_keys now ks c) = Ok () \<and> sc_inv R (fst (cleanup_keys now ks c)) \<and>
    life (fst (cleanup_keys now ks c)) = (\<lambda>k. if k \<in> set ks \<and> due now c k then Absent else life c k)"
  using assms
proof (induction ks arbitrary: c)
  case (Cons k ks)
  from Cons.prems(3) have "map_of (sc_assumedPods c) k = Some True" by (simp add: is_assumed_def)
  from sc_invD(5) [OF Cons.prems(1) this] obtain s where
    s: "map_of (sc_podStates c) k = Some s" "ps_bindingFinished s \<Longrightarrow> ps_deadline s \<noteq> None" by blast
  show ?case
  proof (cases "due now c k")
    case False
    with s have "cleanup_keys now (k # ks) c = cleanup_keys now ks c" by (auto simp: due_def)
    with Cons False show ?thesis by auto
  next
    case True
    from expirePod_drops [OF Cons.prems(1) s(1)] obtain c' where
      c': "expirePod k s c = (c', Ok ())" "sc_inv R c'" "life c' = (life c)(k := Absent)"
        "sc_podStates c' = AList.delete k (sc_podStates c)" "sc_assumedPods c' = AList.delete k (sc_assumedPods c)" by blast
    have "cleanup_keys now (k # ks) c = cleanup_keys now ks c'" using s(1) True c'(1) by (auto simp: due_def split: option.splits)
    moreover have "\<forall>k' \<in> set ks. is_assumed c' k'" using Cons.prems(2,3) c'(5) by (auto simp: is_assumed_def)
    moreover have "k' \<noteq> k \<Longrightarrow> due now c' k' = due now c k'" for k' by (simp add: due_def c'(4))
    ultimately show ?thesis using Cons.IH [OF c'(2)] Cons.prems(2) True c'(3) by (auto simp: fun_eq_iff)
  qed
qed simp

lemma cleanupAssumedPods_expires:
  assumes "sc_inv R c"
  shows "snd (cleanupAssumedPods now c) = Ok ()" "sc_inv R (fst (cleanupAssumedPods now c))"
    "life (fst (cleanupAssumedPods now c)) = (\<lambda>k. if is_assumed c k \<and> due now c k then Absent else life c k)"
proof -
  have wf: "gomap_wf (sc_assumedPods c)" using assms by (simp add: sc_inv_def states_ok_def)
  have keys: "k \<in> set (map fst (sc_assumedPods c)) \<longleftrightarrow> is_assumed c k" for k
  proof -
    have "k \<in> set (map fst (sc_assumedPods c)) \<longleftrightarrow> map_of (sc_assumedPods c) k \<noteq> None" by (simp add: map_of_eq_None_iff)
    also have "\<dots> \<longleftrightarrow> is_assumed c k" using sc_invD(4) [OF assms, of k] by (auto simp: is_assumed_def)
    finally show ?thesis .
  qed
  have "\<forall>k \<in> set (map fst (sc_assumedPods c)). is_assumed c k" using keys by blast
  from cleanup_keys_expires [OF assms wf this, of now]
  show "snd (cleanupAssumedPods now c) = Ok ()" "sc_inv R (fst (cleanupAssumedPods now c))"
    "life (fst (cleanupAssumedPods now c)) = (\<lambda>k. if is_assumed c k \<and> due now c k then Absent else life c k)"
    unfolding cleanupAssumedPods_def keys by auto
qed

section \<open>Reachable caches\<close>

text \<open>
  What an operation brings: the pod and the arrow it takes, the pods with their requests, and the
  agreement with the cache that the informers provide.
\<close>

fun cache_event :: "cache_op \<Rightarrow> (pod \<times> life_event) option" where
  "cache_event (OpAssume p) = Some (p, LAssume (pod_NodeName p))"
| "cache_event (OpAdd p) = Some (p, LAdd (pod_NodeName p))"
| "cache_event (OpForget p) = Some (p, LForget)"
| "cache_event (OpUpdate oldPod newPod) = Some (oldPod, LUpdate)"
| "cache_event (OpRemove p) = Some (p, LRemove)"
| "cache_event _ = None"

fun op_pods :: "cache_op \<Rightarrow> pod list" where
  "op_pods (OpUpdate oldPod newPod) = [oldPod, newPod]"
| "op_pods op = (case cache_event op of Some (p, _) \<Rightarrow> [p] | None \<Rightarrow> [])"

fun same_key :: "cache_op \<Rightarrow> bool" where
  "same_key (OpUpdate oldPod newPod) = (getPodKey newPod = getPodKey oldPod)"
| "same_key op = True"

fun op_agrees :: "cache_op \<Rightarrow> pod_life \<Rightarrow> bool" where
  "op_agrees (OpForget p) (Assumed h) = (h = pod_NodeName p)"
| "op_agrees (OpRemove p) (Added h) = (h = pod_NodeName p)"
| "op_agrees (OpUpdate oldPod newPod) (Added h) = (h = pod_NodeName oldPod \<and> h = pod_NodeName newPod)"
| "op_agrees op l = True"

inductive cache_reach :: "(string \<Rightarrow> string \<Rightarrow> int) \<Rightarrow> sched_cache \<Rightarrow> bool" for R where
  new: "cache_reach R (newSchedulerCache ttl)"
| run: "cache_reach R c \<Longrightarrow> list_all (steady R) (op_pods op) \<Longrightarrow> same_key op \<Longrightarrow> cache_reach R (fst (run_cache_op op c))"

lemma op_follows:
  assumes "sc_inv R c" "cache_event op = Some (p, e)" "getPodKey p = Ok k" "list_all (steady R) (op_pods op)" "same_key op"
    and "op_agrees op (life c k)"
  shows "follows R c k e (run_cache_op op c)"
  using assms
  by (cases op) (auto simp: AssumePod_follows sc_AddPod_follows
      intro!: ForgetPod_follows sc_RemovePod_follows sc_UpdatePod_follows)

text \<open>An operation that disagrees with the cache is refused and changes nothing.\<close>

lemma op_disagrees:
  assumes "sc_inv R c" "cache_event op = Some (p, e)" "getPodKey p = Ok k" "same_key op" "\<not> op_agrees op (life c k)"
  shows "fst (run_cache_op op c) = c"
proof (cases op)
  case (OpForget q)
  with assms(2,3,5) show ?thesis
    by (cases "map_of (sc_podStates c) k") (auto simp: ForgetPod_def with_key_def life_def)
next
  case (OpRemove q)
  with assms(2,3,5) show ?thesis
    by (cases "map_of (sc_podStates c) k") (auto simp: sc_RemovePod_def with_key_def life_def)
next
  case (OpUpdate old new)
  with assms(2,3,5) obtain s where s: "map_of (sc_podStates c) k = Some s" "\<not> is_assumed c k" "old = p" and
      h: "pod_NodeName (ps_pod s) \<noteq> pod_NodeName old \<or> pod_NodeName (ps_pod s) \<noteq> pod_NodeName new"
    by (cases "map_of (sc_podStates c) k") (auto simp: life_def split: if_splits)
  show ?thesis
  proof (cases "pod_NodeName (ps_pod s) = pod_NodeName new")
    case True
    with h s(1) have "hosts (sc_podStates c) k \<noteq> Some (pod_NodeName p)" by (simp add: hosts_def s(3))
    note ref = removePod_refused [OF sc_invD(1) [OF assms(1)] assms(3) this]
    then have "fst (sc_updatePod p new c) = c"
      by (cases "sc_removePod p c") (auto simp: sc_updatePod_def is_ok_def split: outcome.splits)
    with True s OpUpdate assms(3) show ?thesis by (simp add: sc_UpdatePod_def with_key_def)
  qed (use s OpUpdate assms(3) in \<open>simp add: sc_UpdatePod_def with_key_def\<close>)
qed (use assms(5) in simp_all)

lemma no_key_unchanged: "cache_event op = Some (p, e) \<Longrightarrow> \<not> is_ok (getPodKey p) \<Longrightarrow> fst (run_cache_op op c) = c"
  by (cases op; cases "getPodKey p")
    (auto simp: is_ok_def AssumePod_def sc_AddPod_def ForgetPod_def sc_RemovePod_def sc_UpdatePod_def with_key_def)

lemma node_ops_inv:
  assumes "sc_inv R c"
  shows "sc_inv R (fst (sc_AddNode x c))" "sc_inv R (fst (sc_UpdateNode y x c))" "sc_inv R (fst (sc_RemoveNode x c))"
proof -
  have same: "sc_inv R c'" if "sc_podStates c' = sc_podStates c" "sc_assumedPods c' = sc_assumedPods c"
      "nodes_ok R (sc_nodes c') (hosts (sc_podStates c))" for c'
    using same_states(1) [OF that(1,2)] that sc_invD(2) [OF assms] by (simp add: sc_inv_def)
  note set = nodes_ok_SetNode [OF sc_invD(1) [OF assms]] and remove = nodes_ok_RemoveNode [OF sc_invD(1) [OF assms]]
  show "sc_inv R (fst (sc_AddNode x c))" "sc_inv R (fst (sc_UpdateNode y x c))"
    by (rule same; simp add: sc_AddNode_def sc_UpdateNode_def set)+
  show "sc_inv R (fst (sc_RemoveNode x c))"
    by (rule same) (simp_all add: sc_RemoveNode_def remove sc_invD(1) [OF assms] split: option.split)
qed

lemma run_cache_op_inv:
  assumes "sc_inv R c" "list_all (steady R) (op_pods op)" "same_key op"
  shows "sc_inv R (fst (run_cache_op op c))"
proof (cases "cache_event op")
  case None
  then show ?thesis
    using node_ops_inv [OF assms(1)] finishBinding_keeps(1) [OF assms(1)] cleanupAssumedPods_expires(2) [OF assms(1)]
    by (cases op) simp_all
next
  case (Some pe)
  then obtain p e where pe: "cache_event op = Some (p, e)" by (cases pe) auto
  show ?thesis
  proof (cases "getPodKey p")
    case (Ok k)
    show ?thesis
    proof (cases "op_agrees op (life c k)")
      case True
      from op_follows [OF assms(1) pe Ok assms(2,3) this] show ?thesis by (simp add: follows_def)
    next
      case False
      from op_disagrees [OF assms(1) pe Ok assms(3) this] assms(1) show ?thesis by simp
    qed
  qed (use no_key_unchanged [OF pe, of c] assms(1) in \<open>simp_all add: is_ok_def\<close>)
qed

lemma cache_reach_inv: "cache_reach R c \<Longrightarrow> sc_inv R c"
  by (induction rule: cache_reach.induct) (simp_all add: sc_inv_new run_cache_op_inv)

lemma on_node_life:
  assumes "sc_inv R c"
  shows "(\<exists>n p. map_of (sc_nodes c) name = Some n \<and> p \<in> set (ni_pods n) \<and> getPodKey p = Ok k) \<longleftrightarrow>
    life c k \<in> {Assumed name, Added name}"
proof -
  have "(\<exists>n p. map_of (sc_nodes c) name = Some n \<and> p \<in> set (ni_pods n) \<and> getPodKey p = Ok k) \<longleftrightarrow> Ok k \<in> set (keys_of (sc_nodes c) name)"
    by (cases "map_of (sc_nodes c) name") (auto simp: keys_of_def image_iff, metis)
  also have "\<dots> \<longleftrightarrow> life c k \<in> {Assumed name, Added name}"
    using nodes_okD(3) [OF sc_invD(1) [OF assms]] by (cases "life c k") (simp_all add: hosts_life)
  finally show ?thesis .
qed

text \<open>Listing the cache gives every pod once.\<close>

lemma distinct_concat_gomap:
  assumes "gomap_wf m" "\<And>a x. (a, x) \<in> set m \<Longrightarrow> distinct (f x)"
    and "\<And>a x b y z. (a, x) \<in> set m \<Longrightarrow> (b, y) \<in> set m \<Longrightarrow> z \<in> set (f x) \<Longrightarrow> z \<in> set (f y) \<Longrightarrow> a = b"
  shows "distinct (concat (map (\<lambda>(a, x). f x) m))"
  using assms
proof (induction m)
  case (Cons ax m)
  obtain a x where ax: "ax = (a, x)" by (cases ax)
  have "distinct (concat (map (\<lambda>(a, x). f x) m))"
  proof (rule Cons.IH)
    show "gomap_wf m" using Cons.prems(1) by simp
    show "(b, y) \<in> set m \<Longrightarrow> distinct (f y)" for b y using Cons.prems(2) [of b y] by simp
    show "b = b'" if "(b, y) \<in> set m" "(b', y') \<in> set m" "z \<in> set (f y)" "z \<in> set (f y')" for b y b' y' z
      using Cons.prems(3) [of b y b' y' z] that by simp
  qed
  moreover have "distinct (f x)" using Cons.prems(2) [of a x] ax by simp
  moreover have "z \<notin> set (f y)" if "(b, y) \<in> set m" "z \<in> set (f x)" for b y z
  proof
    assume "z \<in> set (f y)"
    then have "a = b" using Cons.prems(3) [of a x b y z] ax that by simp
    with that(1) Cons.prems(1) ax show False by force
  qed
  ultimately show ?case using ax by auto
qed simp

lemma sc_List_once:
  assumes "sc_inv R c"
  shows "distinct (map getPodKey (sc_List (\<lambda>_. True) c))"
    "set (map getPodKey (sc_List (\<lambda>_. True) c)) = {Ok k |k. life c k \<noteq> Absent}"
proof -
  note ok = sc_invD(1) [OF assms]
  have keys: "map getPodKey (sc_List (\<lambda>_. True) c) = concat (map (\<lambda>(name, n). map getPodKey (ni_pods n)) (sc_nodes c))"
    by (simp add: sc_List_def FilteredList_def map_concat comp_def case_prod_unfold)
  have inn: "key \<in> set (map getPodKey (ni_pods n)) \<Longrightarrow> map_of (sc_nodes c) name = Some n \<Longrightarrow>
      \<exists>k. key = Ok k \<and> hosts (sc_podStates c) k = Some name" for key name n
    using nodes_okD(3) [OF ok, of key name] by (auto simp: keys_of_def)
  show "distinct (map getPodKey (sc_List (\<lambda>_. True) c))"
    unfolding keys
  proof (rule distinct_concat_gomap [OF nodes_okD(1) [OF ok]])
    have look: "(a, x) \<in> set (sc_nodes c) \<Longrightarrow> map_of (sc_nodes c) a = Some x" for a x
      using nodes_okD(1) [OF ok] by (simp add: map_of_eq_Some_iff)
    show "(a, x) \<in> set (sc_nodes c) \<Longrightarrow> distinct (map getPodKey (ni_pods x))" for a x
      using nodes_okD(2) [OF ok look] by (simp add: info_ok_def)
    show "a = b" if "(a, x) \<in> set (sc_nodes c)" "(b, y) \<in> set (sc_nodes c)" "z \<in> set (map getPodKey (ni_pods x))"
        "z \<in> set (map getPodKey (ni_pods y))" for a b x y z
      using inn [OF that(3) look [OF that(1)]] inn [OF that(4) look [OF that(2)]] by force
  qed
  show "set (map getPodKey (sc_List (\<lambda>_. True) c)) = {Ok k |k. life c k \<noteq> Absent}"
  proof (intro set_eqI iffI)
    fix key assume "key \<in> set (map getPodKey (sc_List (\<lambda>_. True) c))"
    then obtain name n where "(name, n) \<in> set (sc_nodes c)" "key \<in> set (map getPodKey (ni_pods n))"
      unfolding keys by auto
    with inn [of key n name] nodes_okD(1) [OF ok] obtain k where "key = Ok k" "hosts (sc_podStates c) k = Some name"
      by (auto simp: map_of_eq_Some_iff)
    then show "key \<in> {Ok k |k. life c k \<noteq> Absent}" by (auto simp: hosts_life)
  next
    fix key assume "key \<in> {Ok k |k. life c k \<noteq> Absent}"
    then obtain k where k: "key = Ok k" "life c k \<noteq> Absent" by blast
    from k(2) obtain name where "life c k \<in> {Assumed name, Added name}" by (cases "life c k") auto
    with on_node_life [OF assms, of name k] obtain n p where
      n: "map_of (sc_nodes c) name = Some n" "p \<in> set (ni_pods n)" "getPodKey p = Ok k" by blast
    then have "key \<in> set (map getPodKey (ni_pods n))" using k(1) by (metis image_eqI set_map)
    with map_of_SomeD [OF n(1)] show "key \<in> set (map getPodKey (sc_List (\<lambda>_. True) c))" unfolding keys by auto
  qed
qed

section \<open>Properties\<close>

text \<open>
  C20: in every cache that operations on pods with fixed requests can produce, a pod is on a node
  exactly when its life cycle says so, a listing has every pod once, the requested resources of each node
  are the sums over its pods modulo 64 bits, and looking for expired pods never fails.
\<close>

theorem scheduler_cache_invariant:
  assumes "cache_reach R c"
  shows "(\<forall>name k. (\<exists>n p. map_of (sc_nodes c) name = Some n \<and> p \<in> set (ni_pods n) \<and> getPodKey p = Ok k) \<longleftrightarrow>
        life c k \<in> {Assumed name, Added name}) \<and>
    distinct (map getPodKey (sc_List (\<lambda>_. True) c)) \<and>
    set (map getPodKey (sc_List (\<lambda>_. True) c)) = {Ok k |k. life c k \<noteq> Absent} \<and>
    (\<forall>name n r. map_of (sc_nodes c) name = Some n \<longrightarrow> r \<noteq> ResourcePods \<longrightarrow>
       res_get (ni_requested n) r = wrap64 (sum_list (map (\<lambda>p. pod_amount p r) (ni_pods n)))) \<and>
    (\<forall>now. snd (cleanupAssumedPods now c) = Ok ())"
proof -
  note inv = cache_reach_inv [OF assms]
  have "res_get (ni_requested n) r = wrap64 (sum_list (map (\<lambda>p. pod_amount p r) (ni_pods n)))"
    if "map_of (sc_nodes c) name = Some n" "r \<noteq> ResourcePods" for name n r
    using nodes_okD(2) [OF sc_invD(1) [OF inv] that(1)] that(2) by (simp add: info_ok_def ni_sums_def)
  then show ?thesis using on_node_life [OF inv] sc_List_once [OF inv] cleanupAssumedPods_expires(1) [OF inv] by simp
qed

theorem scheduler_cache_invariant_witness:
  "let p = empty_pod\<lparr>pod_meta := empty_meta\<lparr>om_UID := ''u''\<rparr>, pod_NodeName := ''n''\<rparr>;
       c = fst (run_cache_op (OpAssume p) (newSchedulerCache 30))
   in life c ''u'' = Assumed ''n'' \<and> (\<exists>n q. map_of (sc_nodes c) ''n'' = Some n \<and> q \<in> set (ni_pods n) \<and> getPodKey q = Ok ''u'')"
proof -
  let ?p = "empty_pod\<lparr>pod_meta := empty_meta\<lparr>om_UID := ''u''\<rparr>, pod_NodeName := ''n''\<rparr>"
  let ?c = "fst (run_cache_op (OpAssume ?p) (newSchedulerCache 30))"
  have "cache_reach (\<lambda>_. pod_amount ?p) ?c"
    by (rule cache_reach.run [OF cache_reach.new]) (simp_all add: steady_def)
  from scheduler_cache_invariant [OF this] have "\<forall>name k. (\<exists>n p. map_of (sc_nodes ?c) name = Some n \<and> p \<in> set (ni_pods n) \<and> getPodKey p = Ok k) \<longleftrightarrow>
        life ?c k \<in> {Assumed name, Added name}" by (rule conjunct1)
  moreover have "life ?c ''u'' = Assumed ''n''" by code_simp
  ultimately show ?thesis by (simp add: Let_def)
qed

text \<open>
  C19: the cache implements the life cycle of a pod drawn in its interface: an operation on a
  reachable cache makes the pod take the arrow of the diagram and leaves every other pod alone, or, where the
  diagram has no arrow, returns an error and changes nothing; a clean-up takes exactly the assumed pods
  whose binding has finished and whose deadline has passed.  Pods keep their requests, and \<open>op_agrees\<close>
  leaves out the calls that name another node than the one the cache has for the pod: \<open>ForgetPod\<close> refuses
  them, \<open>UpdatePod\<close> and \<open>RemovePod\<close> end in \<open>glog.Fatalf\<close>, and the informers make none.
\<close>

theorem cache_follows_life_cycle:
  assumes "cache_reach R c" "list_all (steady R) (op_pods op)" "same_key op"
    and "cache_event op = Some (p, e)" "getPodKey p = Ok k" "op_agrees op (life c k)"
  shows "(case life_step e (life c k) of
       Some l \<Rightarrow> snd (run_cache_op op c) = Ok () \<and> life (fst (run_cache_op op c)) = (life c)(k := l)
     | None \<Rightarrow> (\<exists>msg. snd (run_cache_op op c) = Err msg) \<and> fst (run_cache_op op c) = c) \<and>
    life (fst (run_cache_op (OpCleanup now) c)) = (\<lambda>k. if is_assumed c k \<and> due now c k then Absent else life c k)"
  using op_follows [OF cache_reach_inv [OF assms(1)] assms(4,5,2,3,6)] cleanupAssumedPods_expires(3) [OF cache_reach_inv [OF assms(1)]]
  by (simp add: follows_def)

theorem cache_follows_life_cycle_witness:
  "let p = empty_pod\<lparr>pod_meta := empty_meta\<lparr>om_UID := ''u''\<rparr>, pod_NodeName := ''n''\<rparr>;
       c = fst (run_cache_op (OpAssume p) (newSchedulerCache 30))
   in snd (run_cache_op (OpAdd p) c) = Ok () \<and> life (fst (run_cache_op (OpAdd p) c)) = (life c)(''u'' := Added ''n'')"
proof -
  let ?p = "empty_pod\<lparr>pod_meta := empty_meta\<lparr>om_UID := ''u''\<rparr>, pod_NodeName := ''n''\<rparr>"
  let ?c = "fst (run_cache_op (OpAssume ?p) (newSchedulerCache 30))"
  have reach: "cache_reach (\<lambda>_. pod_amount ?p) ?c"
    by (rule cache_reach.run [OF cache_reach.new]) (simp_all add: steady_def)
  have key: "getPodKey ?p = Ok ''u''" by code_simp
  have "life ?c ''u'' = Assumed ''n''" by code_simp
  with cache_follows_life_cycle [OF reach, of "OpAdd ?p" ?p "LAdd ''n''" "''u''"] key show ?thesis
    by (simp add: Let_def steady_def)
qed

text \<open>
  The requests have to be fixed: an update does not reach the recorded state of the pod, so removing the
  pod gives back what it requested before the update and the node keeps the difference for ever.
\<close>

lemma update_leaks_requests:
  "let pod = \<lambda>cpu. empty_pod\<lparr>pod_meta := empty_meta\<lparr>om_UID := ''u''\<rparr>, pod_NodeName := ''n'',
         pod_Containers := [\<lparr>ctr_Requests = [(ResourceCPU, NewMilliQuantity cpu DecimalSI)]\<rparr>]\<rparr>;
       node = empty_node\<lparr>node_meta := empty_meta\<lparr>om_Name := ''n''\<rparr>\<rparr>;
       c = fold (\<lambda>op c. fst (run_cache_op op c)) [OpAddNode node, OpAdd (pod 100), OpUpdate (pod 100) (pod 300), OpRemove (pod 300)]
         (newSchedulerCache 30)
   in map_option (\<lambda>n. (length (ni_pods n), res_MilliCPU (ni_requested n))) (map_of (sc_nodes c) ''n'') = Some (0, 200)"
  by code_simp

text \<open>
  Generations start over when a node is dropped and comes back, so the algorithm's copy can miss that a
  node was replaced by another of the same name.
\<close>

lemma replaced_node_missed:
  "let node = \<lambda>cpu. empty_node\<lparr>node_meta := empty_meta\<lparr>om_Name := ''n''\<rparr>,
         node_Allocatable := [(ResourceCPU, NewMilliQuantity cpu DecimalSI)]\<rparr>;
       c = fst (run_cache_op (OpAddNode (node 4000)) (newSchedulerCache 30));
       m = UpdateNodeNameToInfoMap c [];
       c' = fold (\<lambda>op c. fst (run_cache_op op c)) [OpRemoveNode (node 4000), OpAddNode (node 1000)] c;
       cpu = \<lambda>m. map_option (\<lambda>n. res_MilliCPU (ni_allocatable n)) (map_of m ''n'')
   in cpu (sc_nodes c') = Some 1000 \<and> cpu (UpdateNodeNameToInfoMap c' m) = Some 4000"
  by code_simp

end
