(* ===== verification/Sched_View.thy ===== *)
theory Sched_View
  imports Simulation_Spec Sched_Cache
begin

text \<open>
  What the scheduling algorithm sees during a simulation.  The informers report every node and every pod
  of the checkpoint to the scheduler's cache, in any order; the scheduler assumes each pod it binds, and
  the informers report the bound pod later, or not at all before the next decision.  A watch starts with
  everything again, so a pod can be reported several times, but once the copy is in use only on a node that
  has been reported.  No assumed pod expires in between.  The algorithm works on its own copy of the nodes, which it refreshes before each
  decision.

  Shown: the copy is exact, and each node in it carries exactly the pods placed on it so far.
\<close>

section \<open>The cache during a simulation\<close>

text \<open>
  \<open>sched_view k ns ps c m\<close>: the cache \<open>c\<close> has been told of the nodes \<open>ns\<close> and the pods
  \<open>ps\<close>, the algorithm's copy is \<open>m\<close>, and \<open>k\<close> changes were made since it was refreshed.
\<close>

inductive sched_view :: "nat \<Rightarrow> node list \<Rightarrow> pod list \<Rightarrow> sched_cache \<Rightarrow> cache_nodes \<Rightarrow> bool" where
  start: "sched_view 0 [] [] (newSchedulerCache ttl) []"
| node: "sched_view k ns ps c m \<Longrightarrow> node_name x \<notin> node_name ` set ns \<Longrightarrow>
    sched_view (Suc k) (ns @ [x]) ps (fst (run_cache_op (OpAddNode x) c)) m"
| listed: "sched_view k ns ps c m \<Longrightarrow> getPodKey p = Ok u \<Longrightarrow> Ok u \<notin> getPodKey ` set ps \<Longrightarrow>
    sched_view (Suc k) ns (ps @ [p]) (fst (run_cache_op (OpAdd p) c)) m"
| assumed: "sched_view k ns ps c m \<Longrightarrow> getPodKey p = Ok u \<Longrightarrow> Ok u \<notin> getPodKey ` set ps \<Longrightarrow>
    sched_view (Suc k) ns (ps @ [bound_pod p host]) (fst (run_cache_op (OpAssume (p\<lparr>pod_NodeName := host\<rparr>)) c)) m"
| finished: "sched_view k ns ps c m \<Longrightarrow> sched_view k ns ps (fst (run_cache_op (OpFinish p now) c)) m"
| confirmed: "sched_view k ns ps c m \<Longrightarrow> p \<in> set ps \<Longrightarrow> sched_view k ns ps (fst (run_cache_op (OpAdd p) c)) m"
| reported: "sched_view k ns ps c m \<Longrightarrow> p \<in> set ps \<Longrightarrow> m = [] \<or> pod_NodeName p \<in> node_name ` set ns \<Longrightarrow>
    sched_view (Suc (Suc k)) ns ps (fst (run_cache_op (OpUpdate p p) c)) m"
| cleaned: "sched_view k ns ps c m \<Longrightarrow> \<forall>u. \<not> due now c u \<Longrightarrow> sched_view k ns ps (fst (run_cache_op (OpCleanup now) c)) m"
| refreshed: "sched_view k ns ps c m \<Longrightarrow> m = [] \<or> k < 2 ^ 64 \<Longrightarrow> sched_view 0 ns ps c (UpdateNodeNameToInfoMap c m)"

section \<open>Refreshing the copy\<close>

declare map_of_eq_Some_iff [simp del]

lemma refresh_fold:
  assumes "gomap_wf xs"
  shows "map_of (fold refresh_node xs m) name =
    (case map_of xs name of
       None \<Rightarrow> map_of m name
     | Some info \<Rightarrow>
         (case map_of m name of
            Some current \<Rightarrow> Some (if ni_generation current = ni_generation info then current else info)
          | None \<Rightarrow> Some info))"
  using assms
proof (induction xs arbitrary: m)
  case (Cons x xs)
  obtain a i where x: "x = (a, i)" by (cases x)
  have "map_of (refresh_node x m) name =
      (if name = a then (case map_of m a of Some cur \<Rightarrow> Some (if ni_generation cur = ni_generation i then cur else i) | None \<Rightarrow> Some i)
       else map_of m name)"
    by (simp add: x refresh_node_def split: option.split)
  moreover have "map_of xs a = None" using Cons.prems x by (simp add: map_of_eq_None_iff)
  ultimately show ?case using Cons x by (auto split: option.split)
qed (simp split: option.split)

lemma map_of_filter_keys: "map_of (filter (\<lambda>(name, _). P name) m) name = (if P name then map_of m name else None)"
  by (induction m) auto

lemma refresh_exact:
  assumes "gomap_wf (sc_nodes c)"
    and "\<And>name cur info. map_of m name = Some cur \<Longrightarrow> map_of (sc_nodes c) name = Some info \<Longrightarrow>
      ni_generation cur = ni_generation info \<Longrightarrow> cur = info"
  shows "map_of (UpdateNodeNameToInfoMap c m) = map_of (sc_nodes c)"
  by (auto simp: UpdateNodeNameToInfoMap_def map_of_filter_keys refresh_fold [OF assms(1)] fun_eq_iff
      split: option.split dest: assms(2))

text \<open>An older copy of a node differs in its generation, unless 2^64 changes went by.\<close>

definition older :: "nat \<Rightarrow> node_info \<Rightarrow> node_info \<Rightarrow> bool" where
  "older k cur n = (n = cur \<or> (\<exists>j. 1 \<le> j \<and> j \<le> k \<and> ni_generation n = wrap64 (ni_generation cur + int j)))"

lemma older_same:
  assumes "older k cur n" "k < 2 ^ 64" "ni_generation cur = ni_generation n" shows "n = cur"
proof (rule ccontr)
  assume "n \<noteq> cur"
  with assms(1,3) obtain j where j: "1 \<le> j" "j \<le> k" "ni_generation cur = wrap64 (ni_generation cur + int j)" by (auto simp: older_def)
  let ?g = "ni_generation cur"
  from j(3) have "?g + 2 ^ 63 = (?g + int j + 2 ^ 63) mod 2 ^ 64" by (simp add: wrap64_def)
  then have "(?g + 2 ^ 63) mod 2 ^ 64 = (?g + int j + 2 ^ 63) mod 2 ^ 64" by (metis mod_mod_trivial)
  then have "(2 ^ 64 :: int) dvd (?g + int j + 2 ^ 63) - (?g + 2 ^ 63)" using mod_eq_dvd_iff by metis
  then have "(2 ^ 64 :: int) dvd int j" by simp
  with j(1) have "2 ^ 64 \<le> int j" by (intro zdvd_imp_le) simp_all
  with j(2) assms(2) show False by simp
qed

lemma older_mono: "older k cur n \<Longrightarrow> older (Suc k) cur n"
  by (auto simp: older_def)

lemma older_change:
  assumes "older k cur n" "ni_generation n' = wrap64 (ni_generation n + 1)" shows "older (Suc k) cur n'"
proof -
  have "wrap64 (wrap64 x + 1) = wrap64 (x + 1)" for x by (simp add: wrap64_def mod_simps algebra_simps)
  with assms show ?thesis
    by (auto simp: older_def algebra_simps intro: exI [of _ 1])
qed

section \<open>What a node in the cache carries\<close>

text \<open>The cache may hold a pod as it was assumed, before it was running.\<close>

definition unphased :: "pod \<Rightarrow> pod" where
  "unphased p = p\<lparr>pod_Phase := []\<rparr>"

abbreviation on_node :: "string \<Rightarrow> pod list \<Rightarrow> pod list" where
  "on_node name ps \<equiv> filter (\<lambda>p. pod_NodeName p = name) ps"

definition carries :: "string \<Rightarrow> pod list \<Rightarrow> node_info \<Rightarrow> bool" where
  "carries name ps n = (mset (map unphased (ni_pods n)) = mset (map unphased (on_node name ps)) \<and> ni_sums n)"

lemma unphased_simps [simp]:
  "pod_NodeName (unphased p) = pod_NodeName p" "getPodKey (unphased p) = getPodKey p" "pod_amount (unphased p) = pod_amount p"
  by (simp_all add: unphased_def getPodKey_def pod_amount_def [abs_def] calculateResource_def)

lemma bound_pod_simps [simp]:
  "pod_NodeName (bound_pod p h) = h" "getPodKey (bound_pod p h) = getPodKey p" "pod_amount (bound_pod p h) = pod_amount p"
  "getPodKey (p\<lparr>pod_NodeName := h\<rparr>) = getPodKey p" "unphased (p\<lparr>pod_NodeName := h\<rparr>) = unphased (bound_pod p h)"
  by (simp_all add: bound_pod_def unphased_def getPodKey_def pod_amount_def [abs_def] calculateResource_def)

lemma carries_empty: "carries name [] (NewNodeInfo [])"
  by (simp add: carries_def NewNodeInfo_def ni_sums_empty) (simp add: empty_node_info_def)

lemma carries_AddPod:
  assumes "carries name ps n" "unphased q = unphased p" "pod_NodeName p = name"
  shows "carries name (ps @ [p]) (ni_AddPod q n)"
  using assms by (simp add: carries_def ni_sums_AddPod)

lemma carries_SetNode: "carries name ps (ni_SetNode x n) = carries name ps n"
  by (simp add: carries_def ni_sums_SetNode) (simp add: ni_SetNode_def)

lemma generation_change [simp]:
  "ni_generation (ni_AddPod p n) = wrap64 (ni_generation n + 1)" "ni_generation (ni_SetNode x n) = wrap64 (ni_generation n + 1)"
  "ni_node (ni_SetNode x n) = Some x" "ni_allocatable (ni_SetNode x n) = NewResource (node_Allocatable x)"
  by (simp_all add: ni_AddPod_def ni_SetNode_def split: prod.split)

text \<open>A pod that is taken off its node and put back.\<close>

definition identified :: "pod list \<Rightarrow> bool" where
  "identified ps = (distinct (map getPodKey ps) \<and> list_all (\<lambda>p. is_ok (getPodKey p)) ps)"

lemma carries_set: "carries name ps n \<Longrightarrow> unphased ` set (ni_pods n) = unphased ` set (on_node name ps)"
  using mset_eq_setD [of "map unphased (ni_pods n)" "map unphased (on_node name ps)"] by (simp add: carries_def)

lemma carries_key:
  assumes "carries name ps n" "identified ps" "p \<in> set ps" "q \<in> set (ni_pods n)" "getPodKey q = getPodKey p"
  shows "unphased q = unphased p"
proof -
  have "unphased q \<in> unphased ` set (on_node name ps)"
    using assms(4) unfolding carries_set [OF assms(1), symmetric] by (rule imageI)
  then obtain p' where p': "p' \<in> set ps" "unphased q = unphased p'" by auto
  then have "getPodKey p' = getPodKey p" using assms(5) by (metis unphased_simps(2))
  with p'(1) assms(2,3) have "p' = p" by (auto simp: identified_def distinct_map dest: inj_onD)
  with p'(2) show ?thesis by simp
qed

lemma carries_again:
  assumes "carries name ps n" "identified ps" "p \<in> set ps" "pod_NodeName p = name"
  defines "n' \<equiv> fst (ni_RemovePod p n)"
  shows "snd (ni_RemovePod p n) = Ok ()" "carries name ps (ni_AddPod p n')"
    "ni_node n' = ni_node n" "ni_allocatable n' = ni_allocatable n" "ni_generation n' = wrap64 (ni_generation n + 1)"
proof -
  from assms(2,3) obtain u where u: "getPodKey p = Ok u" by (cases "getPodKey p") (auto simp: identified_def list_all_iff is_ok_def)
  have "unphased p \<in> unphased ` set (ni_pods n)" unfolding carries_set [OF assms(1)] using assms(3,4) by (intro imageI) simp
  then obtain q where "q \<in> set (ni_pods n)" "getPodKey q = Ok u" using u by (auto, metis unphased_simps(2))
  then obtain i where i: "find_pod u (ni_pods n) = Some i" using find_pod_None [of u "ni_pods n"] by auto
  note i' = find_pod_Some [OF i] and rem = ni_RemovePod_found [OF u i]
  have same: "unphased (ni_pods n ! i) = unphased p" using carries_key [OF assms(1-3)] i' u by simp
  show "snd (ni_RemovePod p n) = Ok ()" "ni_node n' = ni_node n" "ni_allocatable n' = ni_allocatable n" using rem by (simp_all add: n'_def)
  show "ni_generation n' = wrap64 (ni_generation n + 1)" by (simp add: n'_def ni_RemovePod_def u i split: prod.split)
  have "mset (map unphased (ni_pods n')) = mset (map unphased (ni_pods n)) - {#unphased p#}"
    using i' same by (simp add: n'_def rem(2) remove_swap_mset image_mset_Diff)
  moreover have "unphased p \<in># mset (map unphased (ni_pods n))" using i' same by (metis length_map nth_map nth_mem set_mset_mset)
  ultimately have "mset (map unphased (ni_pods (ni_AddPod p n'))) = mset (map unphased (ni_pods n))" by simp
  moreover have "same_requests p n"
    unfolding same_requests_def using carries_key [OF assms(1-3)] by (metis unphased_simps(3))
  then have "ni_sums n'" using assms(1) by (simp add: n'_def ni_sums_RemovePod carries_def)
  ultimately show "carries name ps (ni_AddPod p n')" using assms(1) by (simp add: carries_def ni_sums_AddPod)
qed

text \<open>A node entry without pods and without a node is as good as a new one.\<close>

lemma carries_fresh:
  assumes "carries name ps (ni_AddPod p n)" "ni_pods n = []"
  shows "carries name ps (ni_AddPod p (NewNodeInfo []))"
  using assms by (simp add: carries_def ni_sums_AddPod NewNodeInfo_def ni_sums_empty) (simp add: empty_node_info_def)

section \<open>The invariant\<close>

text \<open>The nodes, the states of the pods, and the copy.\<close>

definition view_nodes :: "node list \<Rightarrow> pod list \<Rightarrow> cache_nodes \<Rightarrow> bool" where
  "view_nodes ns ps m =
     (gomap_wf m \<and> (\<forall>name. carries name ps (cache_node name m)) \<and>
      (\<forall>x \<in> set ns. \<exists>n. map_of m (node_name x) = Some n \<and> ni_node n = Some x \<and> ni_allocatable n = NewResource (node_Allocatable x)))"

definition view_states :: "pod list \<Rightarrow> (string, pod_state) gomap \<Rightarrow> bool" where
  "view_states ps m =
     ((\<forall>p \<in> set ps. \<exists>u. getPodKey p = Ok u \<and> hosts m u = Some (pod_NodeName p)) \<and>
      (\<forall>u. hosts m u \<noteq> None \<longrightarrow> Ok u \<in> getPodKey ` set ps))"

definition view_copy :: "nat \<Rightarrow> cache_nodes \<Rightarrow> cache_nodes \<Rightarrow> bool" where
  "view_copy k nodes m = (\<forall>name cur. map_of m name = Some cur \<longrightarrow> (\<exists>n. map_of nodes name = Some n \<and> older k cur n))"

lemma cache_node_update: "cache_node name (AList.update nm n m) = (if name = nm then n else cache_node name m)"
  by (simp add: cache_node_def)

lemma cache_node_delete: "cache_node name (AList.delete nm m) = (if name = nm then NewNodeInfo [] else cache_node name m)"
  by (simp add: cache_node_def)

lemma cache_node_Some: "map_of m name = Some n \<Longrightarrow> cache_node name m = n"
  by (simp add: cache_node_def)

lemma view_nodes_add:
  assumes "view_nodes ns ps m" "unphased q = unphased p"
  shows "view_nodes ns (ps @ [p]) (AList.update (pod_NodeName q) (ni_AddPod q (cache_node (pod_NodeName q) m)) m)"
proof -
  have q: "pod_NodeName q = pod_NodeName p" using assms(2) by (metis unphased_simps(1))
  have "carries name (ps @ [p]) (cache_node name (AList.update (pod_NodeName q) (ni_AddPod q (cache_node (pod_NodeName q) m)) m))" for name
  proof (cases "name = pod_NodeName q")
    case True
    with assms q show ?thesis by (simp add: cache_node_update view_nodes_def carries_AddPod)
  next
    case False
    with assms q show ?thesis by (simp add: cache_node_update view_nodes_def) (simp add: carries_def)
  qed
  moreover have "\<exists>n. map_of (AList.update (pod_NodeName q) (ni_AddPod q (cache_node (pod_NodeName q) m)) m) (node_name x) = Some n \<and>
      ni_node n = Some x \<and> ni_allocatable n = NewResource (node_Allocatable x)" if "x \<in> set ns" for x
    using assms(1) that by (cases "node_name x = pod_NodeName q") (auto simp: view_nodes_def cache_node_def)
  ultimately show ?thesis using assms(1) by (simp add: view_nodes_def)
qed

lemma view_nodes_set:
  assumes "view_nodes ns ps m" "node_name x \<notin> node_name ` set ns"
  shows "view_nodes (ns @ [x]) ps (AList.update (node_name x) (ni_SetNode x (cache_node (node_name x) m)) m)"
proof -
  have "carries name ps (cache_node name (AList.update (node_name x) (ni_SetNode x (cache_node (node_name x) m)) m))" for name
    using assms(1) by (simp add: cache_node_update view_nodes_def carries_SetNode)
  moreover have "\<exists>n. map_of (AList.update (node_name x) (ni_SetNode x (cache_node (node_name x) m)) m) (node_name y) = Some n \<and>
      ni_node n = Some y \<and> ni_allocatable n = NewResource (node_Allocatable y)" if "y \<in> set (ns @ [x])" for y
  proof (cases "y = x")
    case False
    with that assms(2) have "y \<in> set ns" "node_name y \<noteq> node_name x" by (auto, metis image_eqI)
    with assms(1) show ?thesis by (simp add: view_nodes_def)
  qed simp
  ultimately show ?thesis using assms(1) unfolding view_nodes_def by blast
qed

lemma view_copy_change:
  assumes "view_copy k nodes m" "ni_generation n' = wrap64 (ni_generation (cache_node nm nodes) + 1)"
  shows "view_copy (Suc k) (AList.update nm n' nodes) m"
proof -
  have "\<exists>n. map_of (AList.update nm n' nodes) name = Some n \<and> older (Suc k) cur n" if cur: "map_of m name = Some cur" for name cur
  proof -
    from assms(1) cur obtain n where n: "map_of nodes name = Some n" "older k cur n" by (auto simp: view_copy_def)
    with older_mono [OF n(2)] older_change [OF n(2), of n'] assms(2) show ?thesis
      by (cases "name = nm") (simp_all add: cache_node_Some)
  qed
  then show ?thesis by (simp add: view_copy_def)
qed

lemma view_states_add:
  assumes "view_states ps m" "getPodKey p = Ok u" "Ok u \<notin> getPodKey ` set ps" "pod_NodeName (ps_pod s) = pod_NodeName p"
  shows "view_states (ps @ [p]) (AList.update u s m)" "map_of m u = None"
proof -
  have "\<exists>v. getPodKey q = Ok v \<and> v \<noteq> u \<and> hosts m v = Some (pod_NodeName q)" if "q \<in> set ps" for q
  proof -
    from assms(1) that obtain v where v: "getPodKey q = Ok v" "hosts m v = Some (pod_NodeName q)" by (auto simp: view_states_def)
    moreover from v(1) assms(3) that have "v \<noteq> u" by (metis image_eqI)
    ultimately show ?thesis by blast
  qed
  with assms show "view_states (ps @ [p]) (AList.update u s m)" unfolding view_states_def by fastforce
  show "map_of m u = None" using assms(1,3) by (auto simp: view_states_def hosts_def)
qed

lemma view_states_same: "view_states ps m \<Longrightarrow> hosts m' = hosts m \<Longrightarrow> view_states ps m'"
  by (simp add: view_states_def)

definition only_nodes :: "node list \<Rightarrow> cache_nodes \<Rightarrow> bool" where
  "only_nodes ns m = (\<forall>name. ni_node (cache_node name m) \<noteq> None \<longrightarrow> name \<in> node_name ` set ns)"

lemma only_nodes_AddPod:
  "only_nodes ns m \<Longrightarrow> only_nodes ns (AList.update nm (ni_AddPod p (cache_node nm m)) m)"
  by (simp add: only_nodes_def cache_node_update)

lemma only_nodes_delete: "only_nodes ns m \<Longrightarrow> only_nodes ns (AList.delete nm m)"
  by (simp add: only_nodes_def cache_node_delete NewNodeInfo_def) (simp add: empty_node_info_def)

definition view_inv :: "nat \<Rightarrow> node list \<Rightarrow> pod list \<Rightarrow> sched_cache \<Rightarrow> cache_nodes \<Rightarrow> bool" where
  "view_inv k ns ps c m =
     (view_nodes ns ps (sc_nodes c) \<and> view_states ps (sc_podStates c) \<and> view_copy k (sc_nodes c) m \<and>
      identified ps \<and> distinct (map node_name ns) \<and> only_nodes ns (sc_nodes c))"

lemma view_start: "view_inv 0 [] [] (newSchedulerCache ttl) []"
  by (simp add: view_inv_def view_nodes_def view_states_def view_copy_def identified_def newSchedulerCache_def
      cache_node_def carries_empty hosts_def only_nodes_def)
    (simp add: NewNodeInfo_def empty_node_info_def)

lemma view_node:
  assumes "view_inv k ns ps c m" "node_name x \<notin> node_name ` set ns"
  shows "view_inv (Suc k) (ns @ [x]) ps (fst (run_cache_op (OpAddNode x) c)) m"
  using assms view_nodes_set [of ns ps "sc_nodes c" x] view_copy_change [of k "sc_nodes c" m "ni_SetNode x (cache_node (node_name x) (sc_nodes c))" "node_name x"]
  by (auto simp: view_inv_def sc_AddNode_def only_nodes_def cache_node_update)

lemma view_addPod:
  assumes "view_inv k ns ps c m" "getPodKey p = Ok u" "Ok u \<notin> getPodKey ` set ps" "unphased q = unphased p"
    and "pod_NodeName (ps_pod s) = pod_NodeName p" "sc_nodes c' = sc_nodes (sc_addPod q c)" "sc_podStates c' = AList.update u s (sc_podStates c)"
  shows "view_inv (Suc k) ns (ps @ [p]) c' m"
proof -
  have "view_nodes ns (ps @ [p]) (sc_nodes c')"
    using assms(1,4,6) by (simp add: view_inv_def sc_addPod_def view_nodes_add)
  moreover have "view_states (ps @ [p]) (sc_podStates c')"
    using assms(1,7) by (simp add: view_inv_def view_states_add(1) [OF _ assms(2,3,5)])
  moreover have "view_copy (Suc k) (sc_nodes c') m"
    using assms(1,6) by (simp add: view_inv_def sc_addPod_def view_copy_change)
  moreover have "only_nodes ns (sc_nodes c')"
    using assms(1,6) by (simp add: view_inv_def sc_addPod_def only_nodes_AddPod)
  ultimately show ?thesis using assms(1-3) by (simp add: view_inv_def identified_def is_ok_def)
qed

lemma view_new_key: "view_inv k ns ps c m \<Longrightarrow> Ok u \<notin> getPodKey ` set ps \<Longrightarrow> map_of (sc_podStates c) u = None"
  by (auto simp: view_inv_def view_states_def hosts_def)

lemma view_listed:
  assumes "view_inv k ns ps c m" "getPodKey p = Ok u" "Ok u \<notin> getPodKey ` set ps"
  shows "view_inv (Suc k) ns (ps @ [p]) (fst (run_cache_op (OpAdd p) c)) m"
  by (rule view_addPod [OF assms refl, where s = "\<lparr>ps_pod = p, ps_deadline = None, ps_bindingFinished = False\<rparr>"])
    (simp_all add: sc_AddPod_def with_key_def assms(2) view_new_key [OF assms(1,3)] Let_def)

lemma view_assumed:
  assumes "view_inv k ns ps c m" "getPodKey p = Ok u" "Ok u \<notin> getPodKey ` set ps"
  shows "view_inv (Suc k) ns (ps @ [bound_pod p h]) (fst (run_cache_op (OpAssume (p\<lparr>pod_NodeName := h\<rparr>)) c)) m"
  by (rule view_addPod [OF assms(1) _ assms(3), where q = "p\<lparr>pod_NodeName := h\<rparr>" and
        s = "\<lparr>ps_pod = p\<lparr>pod_NodeName := h\<rparr>, ps_deadline = None, ps_bindingFinished = False\<rparr>"])
    (simp_all add: AssumePod_def with_key_def assms(2) view_new_key [OF assms(1,3)] Let_def)

text \<open>The other operations leave the nodes and the places of the pods alone.\<close>

lemma view_same:
  assumes "view_inv k ns ps c m" "sc_nodes c' = sc_nodes c" "hosts (sc_podStates c') = hosts (sc_podStates c)"
  shows "view_inv k ns ps c' m"
  using assms view_states_same [OF _ assms(3)] by (simp add: view_inv_def)

lemma view_finished: "view_inv k ns ps c m \<Longrightarrow> view_inv k ns ps (fst (run_cache_op (OpFinish p now) c)) m"
  by (erule view_same) (auto simp: finishBinding_def with_key_def hosts_def fun_eq_iff split: outcome.split option.split)

lemma view_confirmed:
  assumes "view_inv k ns ps c m" "p \<in> set ps"
  shows "view_inv k ns ps (fst (run_cache_op (OpAdd p) c)) m"
proof -
  from assms obtain u s where u: "getPodKey p = Ok u" "map_of (sc_podStates c) u = Some s" "pod_NodeName (ps_pod s) = pod_NodeName p"
    by (auto simp: view_inv_def view_states_def hosts_def)
  then have "sc_nodes (fst (run_cache_op (OpAdd p) c)) = sc_nodes c \<and>
      hosts (sc_podStates (fst (run_cache_op (OpAdd p) c))) = hosts (sc_podStates c)"
    by (auto simp: sc_AddPod_def with_key_def confirm_def hosts_def fun_eq_iff)
  with assms(1) show ?thesis by (blast intro: view_same)
qed

lemma view_copy_mono: "view_copy k nodes m \<Longrightarrow> view_copy (Suc k) nodes m"
  unfolding view_copy_def by (blast intro: older_mono)

text \<open>An update of a confirmed pod takes it off its node and puts it back.\<close>

lemma view_put_back:
  assumes "view_inv k ns ps c m" "m = [] \<or> name \<in> node_name ` set ns" "map_of (sc_nodes c) name = Some n" "pod_NodeName p = name"
    and "ni_node n' = ni_node n" "ni_allocatable n' = ni_allocatable n" "ni_generation n' = wrap64 (ni_generation n + 1)"
    and "carries name ps (ni_AddPod p n')"
  defines "c1 \<equiv> put_node name n' c"
  shows "view_copy (Suc (Suc k)) (sc_nodes (sc_addPod p c1)) m" "view_nodes ns ps (sc_nodes (sc_addPod p c1))"
    and "only_nodes ns (sc_nodes (sc_addPod p c1))"
proof -
  have car: "carries nm ps (cache_node nm (sc_nodes c))" for nm using assms(1) by (simp add: view_inv_def view_nodes_def)
  note step = c1_def sc_addPod_def put_node_def cache_node_update assms(4)
  show "view_copy (Suc (Suc k)) (sc_nodes (sc_addPod p c1)) m"
  proof (cases "ni_node n")
    case None
    with assms(1-3) have "m = []" by (auto simp: view_inv_def view_nodes_def)
    then show ?thesis by (simp add: view_copy_def)
  next
    case (Some x)
    have "view_copy (Suc k) (AList.update name n' (sc_nodes c)) m"
      by (rule view_copy_change) (use assms(1,3,7) in \<open>simp_all add: view_inv_def cache_node_Some\<close>)
    from view_copy_change [OF this, of "ni_AddPod p n'" name] assms(5) Some show ?thesis by (simp add: step)
  qed
  have "carries nm ps (cache_node nm (sc_nodes (sc_addPod p c1)))" for nm
    using car [of nm] assms(8) carries_fresh [OF assms(8)] by (simp add: step cache_node_delete)
  moreover have "\<exists>n'. map_of (sc_nodes (sc_addPod p c1)) (node_name y) = Some n' \<and> ni_node n' = Some y \<and>
      ni_allocatable n' = NewResource (node_Allocatable y)" if "y \<in> set ns" for y
    using assms(1) that assms(3,5,6) by (cases "node_name y = name") (auto simp: step view_inv_def view_nodes_def)
  moreover have "gomap_wf (sc_nodes (sc_addPod p c1))" using assms(1) by (simp add: step view_inv_def view_nodes_def)
  ultimately show "view_nodes ns ps (sc_nodes (sc_addPod p c1))" unfolding view_nodes_def by blast
  have "only_nodes ns (sc_nodes c1)"
    using assms(1,5) only_nodes_delete [of ns "sc_nodes c"] cache_node_Some [OF assms(3)]
    by (auto simp: step view_inv_def only_nodes_def)
  then show "only_nodes ns (sc_nodes (sc_addPod p c1))" by (simp add: sc_addPod_def only_nodes_AddPod)
qed

lemma view_reported:
  assumes "view_inv k ns ps c m" "p \<in> set ps" "m = [] \<or> pod_NodeName p \<in> node_name ` set ns"
  shows "view_inv (Suc (Suc k)) ns ps (fst (run_cache_op (OpUpdate p p) c)) m"
proof -
  let ?name = "pod_NodeName p" and ?c = "fst (sc_UpdatePod p p c)"
  from assms obtain u s where u: "getPodKey p = Ok u" "map_of (sc_podStates c) u = Some s" "pod_NodeName (ps_pod s) = ?name"
    by (auto simp: view_inv_def view_states_def hosts_def)
  have "view_inv (Suc (Suc k)) ns ps ?c m"
  proof (cases "is_assumed c u")
    case True
    with u have "?c = c" by (simp add: sc_UpdatePod_def with_key_def)
    with assms(1) show ?thesis by (simp add: view_inv_def view_copy_mono)
  next
    case False
    have car: "carries name ps (cache_node name (sc_nodes c))" for name using assms(1) by (simp add: view_inv_def view_nodes_def)
    have "unphased p \<in> unphased ` set (ni_pods (cache_node ?name (sc_nodes c)))"
      unfolding carries_set [OF car] using assms(2) by (intro imageI) simp
    then obtain n where n: "map_of (sc_nodes c) ?name = Some n"
      by (cases "map_of (sc_nodes c) ?name") (auto simp: cache_node_def NewNodeInfo_def empty_node_info_def)
    have "identified ps" using assms(1) by (simp add: view_inv_def)
    note again = carries_again [OF car [of ?name, unfolded cache_node_Some [OF n]] this assms(2) refl]
    let ?c1 = "put_node ?name (fst (ni_RemovePod p n)) c"
    have "sc_removePod p c = (?c1, Ok ())" using n again(1) by (cases "ni_RemovePod p n") (simp add: sc_removePod_def)
    then have c': "?c = sc_addPod p ?c1" using False u by (simp add: sc_UpdatePod_def with_key_def sc_updatePod_def)
    from view_put_back [OF assms(1,3) n refl again(3,4,5,2)] assms(1) show ?thesis
      unfolding c' by (simp add: view_inv_def)
  qed
  then show ?thesis by simp
qed

lemma cleanup_nothing_due: "\<forall>u. \<not> due now c u \<Longrightarrow> fst (cleanup_keys now ks c) = c"
proof (induction ks)
  case (Cons u ks)
  then show ?case using Cons.prems [rule_format, of u] by (auto simp: due_def split: option.splits)
qed simp

lemma view_exact:
  assumes "view_inv k ns ps c m" "m = [] \<or> k < 2 ^ 64"
  shows "map_of (UpdateNodeNameToInfoMap c m) = map_of (sc_nodes c)"
proof (rule refresh_exact)
  show "gomap_wf (sc_nodes c)" using assms(1) by (simp add: view_inv_def view_nodes_def)
  show "cur = info" if "map_of m name = Some cur" "map_of (sc_nodes c) name = Some info" "ni_generation cur = ni_generation info"
    for name cur info
  proof -
    from assms that(1,2) have "older k cur info" "k < 2 ^ 64" by (fastforce simp: view_inv_def view_copy_def)+
    from older_same [OF this that(3)] show ?thesis by simp
  qed
qed

lemma view_refreshed:
  assumes "view_inv k ns ps c m" "m = [] \<or> k < 2 ^ 64"
  shows "view_inv 0 ns ps c (UpdateNodeNameToInfoMap c m)"
  using assms(1) view_exact [OF assms] by (simp add: view_inv_def view_copy_def older_def)

lemma sched_view_inv: "sched_view k ns ps c m \<Longrightarrow> view_inv k ns ps c m"
proof (induction rule: sched_view.induct)
  case (cleaned k ns ps c m now)
  then show ?case by (simp add: cleanupAssumedPods_def cleanup_nothing_due)
qed (blast intro: view_start view_node view_listed view_assumed view_finished view_confirmed view_reported view_refreshed)+

section \<open>What the algorithm sees\<close>

definition sees :: "node \<Rightarrow> pod list \<Rightarrow> node_info \<Rightarrow> bool" where
  "sees x ps n =
     (ni_node n = Some x \<and> ni_allocatable n = NewResource (node_Allocatable x) \<and>
      mset (map unphased (ni_pods n)) = mset (map unphased (on_node (node_name x) ps)) \<and> ni_sums n)"

lemma view_carries:
  assumes "sched_view k ns ps c m" "m = [] \<or> k < 2 ^ 64" "x \<in> set ns"
  shows "\<exists>n. map_of (UpdateNodeNameToInfoMap c m) (node_name x) = Some n \<and> ni_node n = Some x \<and>
    ni_allocatable n = NewResource (node_Allocatable x) \<and> carries (node_name x) ps n"
proof -
  note inv = sched_view_inv [OF assms(1)]
  from inv assms(3) obtain n where
    n: "map_of (sc_nodes c) (node_name x) = Some n" "ni_node n = Some x" "ni_allocatable n = NewResource (node_Allocatable x)"
    by (auto simp: view_inv_def view_nodes_def)
  moreover from inv have "carries (node_name x) ps (cache_node (node_name x) (sc_nodes c))"
    by (simp add: view_inv_def view_nodes_def)
  ultimately show ?thesis using view_exact [OF inv assms(2)] by (simp add: cache_node_Some)
qed

lemma view_sees:
  assumes "sched_view k ns ps c m" "m = [] \<or> k < 2 ^ 64" "mset ns = mset nodes" "mset ps = mset ps'" "x \<in> set nodes"
  shows "\<exists>n. map_of (UpdateNodeNameToInfoMap c m) (node_name x) = Some n \<and> sees x ps' n"
proof -
  have "mset (map unphased (on_node (node_name x) ps)) = mset (map unphased (on_node (node_name x) ps'))"
    using assms(4) by simp
  moreover have "x \<in> set ns" using assms(3,5) by (metis set_mset_mset)
  ultimately show ?thesis using view_carries [OF assms(1,2)] by (fastforce simp: sees_def carries_def)
qed

lemma sees_length: "sees x ps n \<Longrightarrow> length (ni_pods n) = length (on_node (node_name x) ps)"
  unfolding sees_def by (metis length_map size_mset)

lemma sees_sum:
  fixes g :: "pod \<Rightarrow> int"
  assumes "sees x ps n" "\<And>p. g (unphased p) = g p"
  shows "sum_list (map g (ni_pods n)) = sum_list (map g (on_node (node_name x) ps))"
proof -
  have *: "sum_mset (image_mset g (mset (map unphased xs))) = sum_list (map g xs)" for xs
    by (induction xs) (simp_all add: assms(2))
  show ?thesis using assms(1) * [of "ni_pods n"] * [of "on_node (node_name x) ps"] by (simp add: sees_def)
qed

text \<open>A cache that has been told of given nodes and pods exists.\<close>

lemma view_of_nodes: "distinct (map node_name ns) \<Longrightarrow> \<exists>k c. sched_view k ns [] c []"
proof (induction ns rule: rev_induct)
  case (snoc x xs)
  then obtain k c where "sched_view k xs [] c []" by auto
  from sched_view.node [OF this, of x] snoc.prems show ?case by auto
qed (blast intro: sched_view.start)

lemma view_of_listed:
  assumes "distinct (map node_name ns)" shows "identified ps \<Longrightarrow> \<exists>k c. sched_view k ns ps c []"
proof (induction ps rule: rev_induct)
  case (snoc p ps)
  then obtain k c where v: "sched_view k ns ps c []" by (auto simp: identified_def)
  obtain u where u: "getPodKey p = Ok u" using snoc.prems by (cases "getPodKey p") (simp_all add: identified_def is_ok_def)
  with snoc.prems have "Ok u \<notin> getPodKey ` set ps" by (auto simp: identified_def)
  from sched_view.listed [OF v u this] show ?case by blast
qed (use view_of_nodes [OF assms] in simp)

section \<open>Properties\<close>

text \<open>
  C17: whatever order the informers report in and whichever bound pods are still unconfirmed, the
  copy of the cluster on which the algorithm decides is the cache itself, and each node in it carries
  exactly the checkpoint's pods and the pods placed so far that belong to it, with their requests summed up, as
  long as fewer than 2^64 changes lie between two refreshes.
\<close>

theorem scheduler_sees_cluster:
  assumes "sched_view k ns ps c m" "m = [] \<or> k < 2 ^ 64" "x \<in> set ns"
  shows "map_of (UpdateNodeNameToInfoMap c m) = map_of (sc_nodes c) \<and>
    (\<exists>n. map_of (UpdateNodeNameToInfoMap c m) (node_name x) = Some n \<and> ni_node n = Some x \<and>
       ni_allocatable n = NewResource (node_Allocatable x) \<and>
       mset (map unphased (ni_pods n)) = mset (map unphased (on_node (node_name x) ps)) \<and>
       (\<forall>r. r \<noteq> ResourcePods \<longrightarrow>
          res_get (ni_requested n) r = wrap64 (sum_list (map (\<lambda>p. pod_amount p r) (on_node (node_name x) ps)))))"
proof -
  from view_carries [OF assms] obtain n where n: "map_of (UpdateNodeNameToInfoMap c m) (node_name x) = Some n"
    "ni_node n = Some x" "ni_allocatable n = NewResource (node_Allocatable x)" "carries (node_name x) ps n" by blast
  then have "sees x ps n" by (simp add: sees_def carries_def)
  from sees_sum [OF this, of "\<lambda>p. pod_amount p _"] n(4)
  have "r \<noteq> ResourcePods \<Longrightarrow> res_get (ni_requested n) r = wrap64 (sum_list (map (\<lambda>p. pod_amount p r) (on_node (node_name x) ps)))" for r
    by (simp add: carries_def ni_sums_def)
  with n view_exact [OF sched_view_inv [OF assms(1)] assms(2)] show ?thesis by (auto simp: carries_def)
qed

theorem scheduler_sees_cluster_witness:
  "let x = empty_node\<lparr>node_meta := empty_meta\<lparr>om_Name := ''n''\<rparr>\<rparr>;
       p = empty_pod\<lparr>pod_meta := empty_meta\<lparr>om_UID := ''u''\<rparr>\<rparr>;
       c = fst (run_cache_op (OpAssume (p\<lparr>pod_NodeName := ''n''\<rparr>)) (fst (run_cache_op (OpAddNode x) (newSchedulerCache 30))))
   in \<exists>n. map_of (UpdateNodeNameToInfoMap c []) ''n'' = Some n \<and> mset (map unphased (ni_pods n)) = {#unphased (bound_pod p ''n'')#}"
proof -
  let ?x = "empty_node\<lparr>node_meta := empty_meta\<lparr>om_Name := ''n''\<rparr>\<rparr>"
  let ?p = "empty_pod\<lparr>pod_meta := empty_meta\<lparr>om_UID := ''u''\<rparr>\<rparr>"
  have name: "node_name ?x = ''n''" by code_simp
  have key: "getPodKey ?p = Ok ''u''" by code_simp
  have "sched_view (Suc 0) ([] @ [?x]) [] (fst (run_cache_op (OpAddNode ?x) (newSchedulerCache 30))) []"
    by (rule sched_view.node [OF sched_view.start]) simp
  from sched_view.assumed [OF this key, of "''n''"]
  have view: "sched_view (Suc (Suc 0)) [?x] [bound_pod ?p ''n'']
      (fst (run_cache_op (OpAssume (?p\<lparr>pod_NodeName := ''n''\<rparr>)) (fst (run_cache_op (OpAddNode ?x) (newSchedulerCache 30))))) []" by simp
  show ?thesis unfolding Let_def
    using scheduler_sees_cluster [OF view, of ?x, THEN conjunct2] unfolding name by auto
qed

end
