(* ===== verification/Capacity.thy ===== *)
theory Capacity
  imports Sched_View
begin

text \<open>
  The simulation under the real scheduling algorithm, which decides on the cluster as the scheduler's
  cache shows it (\<open>Sched_View\<close>): every node with the checkpoint's pods and the pods placed so far.
  Since at most one pod is in flight, the cache has been told of every earlier decision.

  Shown: no node ever gets more than it has, and a pod is reported as failed only when no node fits.
\<close>

section \<open>The algorithm\<close>

text \<open>
  What the algorithm can decide: the order in which the workers deliver the nodes and the round-robin
  index are left open; errors other than fit errors are not decisions.
\<close>

definition placed :: "(pod \<times> decision) list \<Rightarrow> pod list" where
  "placed h = concat (map pod_success h)"

definition as_decision :: "string + fit_error \<Rightarrow> decision" where
  "as_decision r = (case r of Inl host \<Rightarrow> Inl host | Inr f \<Rightarrow> Inr (FitError_Error f))"

lemma as_decision_eq:
  "Inl host = as_decision r \<longleftrightarrow> r = Inl host" "Inr m = as_decision r \<longleftrightarrow> (\<exists>f. r = Inr f \<and> m = FitError_Error f)"
  by (cases r; auto simp: as_decision_def)+

definition gs_algorithm :: "generic_scheduler \<Rightarrow> node list \<Rightarrow> pod list \<Rightarrow> algorithm" where
  "gs_algorithm g nodes pods h p d =
     (\<exists>arrange i g' r k ns ps c m. arranges arrange \<and>
        sched_view k ns ps c m \<and> (m = [] \<or> k < 2 ^ 64) \<and> mset ns = mset nodes \<and> mset ps = mset (pods @ placed h) \<and>
        gs_Schedule arrange (map_of (UpdateNodeNameToInfoMap c m)) nodes p (g\<lparr>gs_lastNodeIndex := i\<rparr>) = (g', Ok r) \<and>
        d = as_decision r)"

lemma scores_hosts_index [simp]: "scores_hosts (g\<lparr>gs_lastNodeIndex := i\<rparr>) = scores_hosts g"
  by (simp add: scores_hosts_def)

lemma gs_algorithm_Inl:
  assumes "gs_algorithm g nodes pods h p (Inl host)" "scores_hosts g" "gs_predicates g \<noteq> []"
  shows "\<exists>x \<in> set nodes. node_name x = host \<and> (\<exists>n rs. sees x (pods @ placed h) n \<and>
    podFitsOnNode (gs_alwaysCheckAllPredicates g) (gs_predicates g) p (Some n) = Ok (True, rs))"
proof -
  from assms(1) obtain arrange i g' k ns ps c m where v: "arranges arrange" "sched_view k ns ps c m" "m = [] \<or> k < 2 ^ 64"
      "mset ns = mset nodes" "mset ps = mset (pods @ placed h)" and
      s: "gs_Schedule arrange (map_of (UpdateNodeNameToInfoMap c m)) nodes p (g\<lparr>gs_lastNodeIndex := i\<rparr>) = (g', Ok (Inl host))"
    by (auto simp: gs_algorithm_def as_decision_eq)
  from Schedule_host [OF s v(1)] assms(2,3) obtain x rs where x: "x \<in> set nodes" "node_name x = host"
      "podFitsOnNode (gs_alwaysCheckAllPredicates g) (gs_predicates g) p (map_of (UpdateNodeNameToInfoMap c m) host) = Ok (True, rs)"
    by auto
  with view_sees [OF v(2-5) x(1)] show ?thesis by (metis (full_types))
qed

lemma gs_algorithm_Inr:
  assumes "gs_algorithm g nodes pods h p (Inr m)" "gs_predicates g \<noteq> []"
  shows "\<exists>f. m = FitError_Error f \<and> nodes \<noteq> [] \<and> fe_NumAllNodes f = length nodes \<and>
    (\<forall>x \<in> set nodes. \<exists>n rs. sees x (pods @ placed h) n \<and>
       podFitsOnNode (gs_alwaysCheckAllPredicates g) (gs_predicates g) p (Some n) = Ok (False, rs))"
proof -
  from assms(1) obtain arrange i g' f k ns ps c cp where v: "arranges arrange" "sched_view k ns ps c cp" "cp = [] \<or> k < 2 ^ 64"
      "mset ns = mset nodes" "mset ps = mset (pods @ placed h)" and f: "m = FitError_Error f" and
      s: "gs_Schedule arrange (map_of (UpdateNodeNameToInfoMap c cp)) nodes p (g\<lparr>gs_lastNodeIndex := i\<rparr>) = (g', Ok (Inr f))"
    by (auto simp: gs_algorithm_def as_decision_eq)
  from Schedule_fit_error [OF s v(1)] assms(2) have fe: "nodes \<noteq> []" "fe_NumAllNodes f = length nodes" and
      fails: "x \<in> set nodes \<Longrightarrow> \<exists>rs. podFitsOnNode (gs_alwaysCheckAllPredicates g) (gs_predicates g) p
         (map_of (UpdateNodeNameToInfoMap c cp) (node_name x)) = Ok (False, rs)" for x by auto
  have "\<exists>n rs. sees x (pods @ placed h) n \<and> podFitsOnNode (gs_alwaysCheckAllPredicates g) (gs_predicates g) p (Some n) = Ok (False, rs)"
    if "x \<in> set nodes" for x
    using view_sees [OF v(2-5) that] fails [OF that] by (metis (full_types))
  with f fe show ?thesis by blast
qed

text \<open>A decision on a view of all nodes and of exactly the pods placed so far is one of them.\<close>

lemma view_decision:
  assumes "sched_view k ns ps c m" "m = [] \<or> k < 2 ^ 64" "set ns = set nodes" "distinct nodes"
    and "set ps = set (pods @ placed h)" "distinct (pods @ placed h)" "arranges arrange"
    and "gs_Schedule arrange (map_of (UpdateNodeNameToInfoMap c m)) nodes p (g\<lparr>gs_lastNodeIndex := i\<rparr>) = (g', Ok r)"
  shows "gs_algorithm g nodes pods h p (as_decision r)"
proof -
  have "distinct ps" "distinct ns" using sched_view_inv [OF assms(1)] unfolding view_inv_def identified_def distinct_map by blast+
  with assms(3-6) have "mset ps = mset (pods @ placed h)" "mset ns = mset nodes" by (metis set_eq_iff_mset_eq_distinct)+
  with assms(1,2,7,8) show ?thesis unfolding gs_algorithm_def by blast
qed

section \<open>Capacity\<close>

text \<open>A node has room for its pods.\<close>

definition has_room :: "string list \<Rightarrow> pod list \<Rightarrow> node \<Rightarrow> bool" where
  "has_room ignored ps x =
     (int (length (on_node (node_name x) ps)) \<le> res_AllowedPodNumber (NewResource (node_Allocatable x)) \<and>
      (\<forall>name. governed ignored name \<longrightarrow>
         sum_list (map (\<lambda>p. pod_amount p name) (on_node (node_name x) ps)) \<le> res_get (NewResource (node_Allocatable x)) name))"

text \<open>The requests are not negative and together fit a 64-bit counter.\<close>

definition bounded :: "pod list \<Rightarrow> bool" where
  "bounded ps =
     (\<forall>name. name \<noteq> ResourcePods \<longrightarrow>
        (\<forall>p \<in> set ps. 0 \<le> pod_amount p name) \<and> sum_list (map (\<lambda>p. req_amount p name) ps) \<le> mostPositive)"

lemma placed_snoc:
  "placed (h @ [(p, Inl host)]) = placed h @ [bound_pod p host]" "placed (h @ [(p, Inr m)]) = placed h"
  by (simp_all add: placed_def pod_success_def)

lemma sum_on_node:
  fixes g :: "pod \<Rightarrow> int"
  assumes "\<forall>p \<in> set ps. 0 \<le> g p" shows "sum_list (map g (filter P ps)) \<le> sum_list (map g ps)"
  using assms by (induction ps) auto

lemma sum_placed:
  assumes "\<forall>p \<in> set (map fst h). 0 \<le> pod_amount p name"
  shows "sum_list (map (\<lambda>p. pod_amount p name) (placed h)) \<le> sum_list (map (\<lambda>p. pod_amount p name) (map fst h))"
  using assms by (induction h) (auto simp: placed_def pod_success_def split: sum.splits)

lemma placed_nonneg:
  "\<forall>p \<in> set (map fst h). 0 \<le> pod_amount p name \<Longrightarrow> \<forall>p \<in> set (placed h). 0 \<le> pod_amount p name"
  by (induction h) (auto simp: placed_def pod_success_def split: sum.splits)

lemma total_bound:
  assumes "bounded (pods @ map fst h @ [p])" "name \<noteq> ResourcePods"
  shows "0 \<le> sum_list (map (\<lambda>p. pod_amount p name) (filter P (pods @ placed h)))"
    and "req_amount p name + sum_list (map (\<lambda>p. pod_amount p name) (filter P (pods @ placed h))) \<le> mostPositive"
proof -
  have nn: "\<forall>p \<in> set pods. 0 \<le> pod_amount p name" "\<forall>p \<in> set (map fst h). 0 \<le> pod_amount p name"
    and le: "sum_list (map (\<lambda>p. req_amount p name) (pods @ map fst h @ [p])) \<le> mostPositive"
    using assms unfolding bounded_def by auto
  have all: "\<forall>p \<in> set (pods @ placed h). 0 \<le> pod_amount p name" using nn(1) placed_nonneg [OF nn(2)] by auto
  then show "0 \<le> sum_list (map (\<lambda>p. pod_amount p name) (filter P (pods @ placed h)))"
    by (intro sum_list_nonneg) auto
  have "sum_list (map (\<lambda>p. pod_amount p name) (filter P (pods @ placed h))) \<le>
      sum_list (map (\<lambda>p. pod_amount p name) (pods @ placed h))" by (rule sum_on_node [OF all])
  also have "\<dots> \<le> sum_list (map (\<lambda>p. pod_amount p name) (pods @ map fst h))" using sum_placed [OF nn(2)] by simp
  also have "\<dots> \<le> sum_list (map (\<lambda>p. req_amount p name) (pods @ map fst h))"
    by (rule sum_list_mono) (rule pod_amount_le [OF assms(2)])
  finally show "req_amount p name + sum_list (map (\<lambda>p. pod_amount p name) (filter P (pods @ placed h))) \<le> mostPositive"
    using le by simp
qed

lemma node_sum:
  assumes "sees x ps n" "name \<noteq> ResourcePods"
    and "0 \<le> sum_list (map (\<lambda>p. pod_amount p name) (on_node (node_name x) ps))" "sum_list (map (\<lambda>p. pod_amount p name) (on_node (node_name x) ps)) \<le> mostPositive"
  shows "res_get (ni_requested n) name = sum_list (map (\<lambda>p. pod_amount p name) (on_node (node_name x) ps))"
proof -
  have "int64_range (sum_list (map (\<lambda>p. pod_amount p name) (on_node (node_name x) ps)))"
    using assms(3,4) by (simp add: int64_defs)
  with assms(1,2) sees_sum [OF assms(1), of "\<lambda>p. pod_amount p name"] show ?thesis by (simp add: sees_def ni_sums_def)
qed

text \<open>Each decision of the algorithm keeps every node within its resources.\<close>

lemma decision_keeps_room:
  assumes g: "explains (gs_predicates g)" "map_of (gs_predicates g) GeneralPred = Some (GeneralPredicates ignored ports sel)"
      "scores_hosts g"
    and nodes: "distinct (map node_name nodes)" "x \<in> set nodes" and b: "bounded (pods @ map fst h @ [p])"
    and alg: "gs_algorithm g nodes pods h p (Inl host)" and room: "has_room ignored (pods @ placed h) x"
  shows "has_room ignored (pods @ placed h @ [bound_pod p host]) x"
proof (cases "host = node_name x")
  case False
  with room show ?thesis by (simp add: has_room_def bound_pod_def)
next
  case True
  have ne: "gs_predicates g \<noteq> []" using g(2) by auto
  let ?ps = "on_node (node_name x) (pods @ placed h)"
  from gs_algorithm_Inl [OF alg g(3) ne] True nodes obtain n rs where n: "sees x (pods @ placed h) n" and
    fit: "podFitsOnNode (gs_alwaysCheckAllPredicates g) (gs_predicates g) p (Some n) = Ok (True, rs)"
    by (metis distinct_map inj_onD)
  from podFitsOnNode_general [OF g(1,2) fit] obtain rs' where
    res: "PodFitsResources ignored p (Some n) = Ok (True, rs')" by auto
  have n': "ni_sums n" "ni_allocatable n = NewResource (node_Allocatable x)" "length (ni_pods n) = length ?ps"
    using n sees_length [OF n] by (simp_all add: sees_def)
  note tb = total_bound [OF b, of _ "\<lambda>p. pod_NodeName p = node_name x"]
  have pos: "0 \<le> pod_amount p name" if "name \<noteq> ResourcePods" for name using b that by (simp add: bounded_def)
  have sum: "res_get (ni_requested n) name = sum_list (map (\<lambda>p. pod_amount p name) ?ps)" if "name \<noteq> ResourcePods" for name
    using node_sum [OF n that] tb [OF that] pos [OF that] pod_amount_le [OF that, of p] by simp
  have "within_alloc ignored n" using room n'(2,3) sum by (auto simp: within_alloc_def has_room_def governed_def)
  moreover have "fits_counter p n" using tb pos sum by (auto simp: fits_counter_def)
  ultimately have within: "within_alloc ignored (ni_AddPod p n)" by (rule fits_within [OF res _ n'(1)])
  have "res_get (ni_requested (ni_AddPod p n)) name = sum_list (map (\<lambda>p. pod_amount p name) ?ps) + pod_amount p name"
    if "name \<noteq> ResourcePods" for name
  proof -
    have "int64_range (sum_list (map (\<lambda>p. pod_amount p name) ?ps) + pod_amount p name)"
      using tb [OF that] pos [OF that] pod_amount_le [OF that, of p] by (simp add: int64_defs)
    then show ?thesis using AddPod_get [OF n'(1) that, of p] sum [OF that] by simp
  qed
  with within n'(2,3) True show ?thesis by (auto simp: within_alloc_def has_room_def governed_def)
qed

lemma history_keeps_room:
  assumes g: "explains (gs_predicates g)" "map_of (gs_predicates g) GeneralPred = Some (GeneralPredicates ignored ports sel)"
      "scores_hosts g"
    and nodes: "distinct (map node_name nodes)" "x \<in> set nodes" and room: "has_room ignored pods x"
    and h: "allowed (gs_algorithm g nodes pods) h"
  shows "bounded (pods @ map fst h) \<Longrightarrow> has_room ignored (pods @ placed h) x"
  using h
proof (induction rule: allowed.induct)
  case allowed_Nil
  show ?case using room by (simp add: placed_def)
next
  case (allowed_snoc h p d)
  have "bounded (pods @ map fst h)"
  proof -
    have "sum_list (map (\<lambda>p. req_amount p name) (pods @ map fst h)) \<le> mostPositive \<and>
        (\<forall>p \<in> set (pods @ map fst h). 0 \<le> pod_amount p name)" if "name \<noteq> ResourcePods" for name
      using allowed_snoc.prems that pod_amount_le [OF that, of p] by (fastforce simp: bounded_def)
    then show ?thesis by (simp add: bounded_def)
  qed
  with allowed_snoc have IH: "has_room ignored (pods @ placed h) x" by blast
  show ?case
  proof (cases d)
    case (Inl host)
    from decision_keeps_room [OF g nodes _ allowed_snoc.hyps(2) [unfolded Inl] IH] allowed_snoc.prems
    show ?thesis by (simp add: Inl placed_snoc)
  qed (use IH in \<open>simp add: placed_snoc\<close>)
qed

text \<open>A failed decision was taken when no node fitted.\<close>

lemma allowed_prefix: "allowed A h \<Longrightarrow> h = h1 @ (p, d) # h2 \<Longrightarrow> A h1 p d"
proof (induction arbitrary: h2 rule: allowed.induct)
  case (allowed_snoc h q e)
  then show ?case by (cases h2 rule: rev_cases) auto
qed simp

text \<open>A fit error begins with the number of nodes and a colon, so its main reason can be cut out.\<close>

lemma nat_digits_chars: "c \<in> set (nat_digits n) \<Longrightarrow> c \<in> set ''0123456789''"
proof (induction n rule: nat_digits.induct)
  case (1 n)
  have "\<forall>m \<in> set [0..<10]. char_of (48 + m) \<in> set ''0123456789''" by code_simp
  then have digit: "m < 10 \<Longrightarrow> char_of (48 + m) \<in> set ''0123456789''" for m :: nat by (metis atLeastLessThan_iff set_upt zero_le)
  show ?case
  proof (cases "n < 10")
    case True
    with "1.prems" digit [of n] show ?thesis by (simp add: nat_digits.simps [of n])
  next
    case False
    with 1 digit [of "n mod 10"] show ?thesis by (auto simp: nat_digits.simps [of n])
  qed
qed

lemma first_line_has:
  assumes "sep \<notin> set a" "c \<noteq> sep" shows "c \<in> set (hd (Split sep (a @ c # r)))"
proof (cases "sep \<in> set r")
  case True
  then obtain r1 r2 where r: "r = r1 @ sep # r2" "sep \<notin> set r1" by (meson split_list_first)
  with assms Split_append_sep [of sep "a @ c # r1" r2] show ?thesis by simp
next
  case False
  with assms Split_no_sep [of sep "a @ c # r"] show ?thesis by simp
qed

lemma fit_error_reason: "\<not> panics (getMainFailReason (FitError_Error f))"
proof -
  let ?a = "''0/'' @ nat_digits (fe_NumAllNodes f) @ '' nodes are available''"
  let ?r = "'' '' @ Join '', '' (histogram (fe_FailedPredicates f)) @ ''.''"
  have "CHR 0x0A \<notin> set ''0123456789''" by code_simp
  then have "CHR 0x0A \<notin> set (nat_digits (fe_NumAllNodes f))" using nat_digits_chars by blast
  then have "CHR 0x0A \<notin> set ?a" by simp
  from first_line_has [OF this, of "CHR '':''" ?r]
  have "CHR '':'' \<in> set (hd (Split (CHR 0x0A) (?a @ CHR '':'' # ?r)))" by simp
  moreover have "?a @ CHR '':'' # ?r = FitError_Error f" by (simp add: FitError_Error_def)
  ultimately show ?thesis by (simp only: getMainFailReason_panics_iff) simp
qed

section \<open>The algorithm always decides\<close>

text \<open>Predicates that return no error for a node the cache knows, and scores without errors.\<close>

definition decides :: "generic_scheduler \<Rightarrow> bool" where
  "decides g =
     ((\<forall>p. gs_podPassesBasicChecks g p = Ok ()) \<and>
      (\<forall>key pr p n. map_of (gs_predicates g) key = Some pr \<longrightarrow> ni_node n \<noteq> None \<longrightarrow> (\<exists>y. pr p (Some n) = Ok y)) \<and>
      (\<forall>p infos ns. \<exists>xs. gs_PrioritizeNodes g p infos ns = Ok xs))"

lemma check_predicates_Ok:
  assumes "\<forall>key pr. map_of fs key = Some pr \<longrightarrow> (\<exists>y. pr p info = Ok y)"
  shows "\<exists>y. check_predicates always fs keys fails p info = Ok y"
proof (induction keys arbitrary: fails)
  case (Cons key keys)
  show ?case
  proof (cases "map_of fs key")
    case (Some pr)
    with assms obtain fit rs where "pr p info = Ok (fit, rs)" by fastforce
    with Some Cons [of fails] Cons [of "fails @ rs"] show ?thesis by (cases always) (simp_all add: verdict_def)
  qed (use Cons in simp)
qed (simp add: verdict_def)

lemma check_nodes_Ok:
  assumes "\<forall>x \<in> set nodes. \<exists>y. podFitsOnNode always fs p (infos (node_name x)) = Ok y"
  shows "\<exists>filtered failed. check_nodes always fs infos p nodes = Ok (filtered, failed, [])"
  using assms
proof (induction nodes)
  case (Cons x xs)
  then obtain fl fd fits rs where "check_nodes always fs infos p xs = Ok (fl, fd, [])"
    "podFitsOnNode always fs p (infos (node_name x)) = Ok (fits, rs)" by fastforce
  then show ?case by simp
qed simp

lemma view_of_history:
  assumes "distinct (map node_name nodes)"
  shows "identified (pods @ map fst h) \<Longrightarrow> \<exists>k c. sched_view k nodes (pods @ placed h) c []"
proof (induction h rule: rev_induct)
  case Nil
  with view_of_listed [OF assms] show ?case by (simp add: placed_def)
next
  case (snoc e h)
  obtain p d where e: "e = (p, d)" by (cases e)
  from snoc obtain k c where v: "sched_view k nodes (pods @ placed h) c []" by (auto simp: identified_def)
  show ?case
  proof (cases d)
    case (Inl host)
    obtain u where u: "getPodKey p = Ok u" using snoc.prems e by (cases "getPodKey p") (simp_all add: identified_def is_ok_def)
    have "getPodKey ` set (placed h) \<subseteq> getPodKey ` set (map fst h)"
      by (force simp: placed_def pod_success_def split: sum.splits)
    with snoc.prems u e have "Ok u \<notin> getPodKey ` set (pods @ placed h)" by (auto simp: identified_def image_Un)
    from sched_view.assumed [OF v u this, of host] show ?thesis by (auto simp: e Inl placed_snoc)
  qed (use v in \<open>auto simp: e placed_snoc\<close>)
qed

lemma identified_prefix:
  assumes "identified (pods @ newPods)" "\<exists>rest. rev newPods = map fst h @ p # rest" shows "identified (pods @ map fst h)"
proof -
  from assms(2) obtain rest where "newPods = rev rest @ p # rev (map fst h)" by (metis append.assoc append_Cons append_Nil rev.simps(2) rev_append rev_rev_ident)
  with assms(1) show ?thesis by (auto simp: identified_def simp flip: rev_map)
qed

lemma gs_algorithm_total:
  assumes "decides g" "scores_hosts g" "nodes \<noteq> []" "distinct (map node_name nodes)" "identified (pods @ map fst h)"
  shows "\<exists>d. gs_algorithm g nodes pods h p d"
proof -
  obtain k c where v: "sched_view k nodes (pods @ placed h) c []" using view_of_history [OF assms(4,5)] by blast
  let ?infos = "map_of (UpdateNodeNameToInfoMap c [])"
  let ?find = "findNodesThatFit (gs_alwaysCheckAllPredicates g) (gs_predicates g) (\<lambda>xs. xs) ?infos nodes p"
  have "\<exists>y. podFitsOnNode (gs_alwaysCheckAllPredicates g) (gs_predicates g) p (?infos (node_name x)) = Ok y" if "x \<in> set nodes" for x
  proof -
    from view_sees [OF v _ refl refl that] obtain n where "?infos (node_name x) = Some n" "ni_node n = Some x"
      by (auto simp: sees_def)
    then show ?thesis
      using check_predicates_Ok [of "gs_predicates g" p "Some n"] assms(1) by (simp add: podFitsOnNode_def decides_def)
  qed
  then have "\<forall>x \<in> set nodes. \<exists>y. podFitsOnNode (gs_alwaysCheckAllPredicates g) (gs_predicates g) p (?infos (node_name x)) = Ok y"
    by blast
  from check_nodes_Ok [OF this] obtain filtered failed where find: "?find = Ok (filtered, failed)"
    by (fastforce simp: findNodesThatFit_def)
  obtain xs where xs: "gs_PrioritizeNodes g p ?infos filtered = Ok xs"
    using assms(1) unfolding decides_def by blast
  then have "map fst xs = map node_name filtered" using assms(2) by (simp add: scores_hosts_def)
  then have len: "length xs = length filtered" by (metis length_map)
  have "\<exists>g' r. gs_Schedule (\<lambda>xs. xs) ?infos nodes p (g\<lparr>gs_lastNodeIndex := 0\<rparr>) = (g', Ok r)"
    using assms(1,3) find xs len by (cases xs) (auto simp: gs_Schedule_def decides_def selectHost_def Let_def)
  moreover have "arranges (\<lambda>xs. xs)" by (simp add: arranges_def)
  ultimately show ?thesis unfolding gs_algorithm_def using v by blast
qed

end
