(* ===== verification/Fake_Store.thy ===== *)
theory Fake_Store
  imports Object_Cache
begin

text \<open>
  The fake resource store of \<open>pkg/framework/store/fake.go\<close>: five optional functions that
  produce slices of objects, read-only.  The data functions return slices of pointers
  (\<open>[]*v1.Pod\<close>), and \<open>findResource\<close> switches on the value types, so for such items
  no case applies and the key of the previous iteration, initially empty, is compared.  An item
  held by value is modelled by \<open>Inl\<close>, one held by pointer by \<open>Inr\<close>.
\<close>

type_synonym fake_item = "obj + obj"

record fake_store =
  PodsData :: "fake_item list option"
  ServicesData :: "fake_item list option"
  NodesData :: "fake_item list option"
  PersistentVolumesData :: "fake_item list option"
  PersistentVolumeClaimsData :: "fake_item list option"

definition fake_Add :: "fake_store \<Rightarrow> resource_type \<Rightarrow> obj \<Rightarrow> fake_store \<times> unit outcome" where
  "fake_Add s r o' = (s, Ok ())"

definition fake_Update :: "fake_store \<Rightarrow> resource_type \<Rightarrow> obj \<Rightarrow> fake_store \<times> unit outcome" where
  "fake_Update s r o' = (s, Ok ())"

definition fake_Delete :: "fake_store \<Rightarrow> resource_type \<Rightarrow> obj \<Rightarrow> fake_store \<times> unit outcome" where
  "fake_Delete s r o' = (s, Ok ())"

text \<open>\<open>reflect\<close> turns each element into an interface value, in order.\<close>

fun resourcesToItems :: "fake_item list \<Rightarrow> fake_item list" where
  "resourcesToItems [] = []"
| "resourcesToItems (x # xs) = x # resourcesToItems xs"

text \<open>The value types the switch of \<open>findResource\<close> names.\<close>

definition switch_type :: "obj \<Rightarrow> bool" where
  "switch_type o' =
     (has_type Pods o' \<or> has_type Services o' \<or> has_type Nodes o' \<or> has_type PersistentVolumes o' \<or>
      has_type PersistentVolumeClaims o')"

fun find_loop :: "string \<Rightarrow> string \<Rightarrow> fake_item list \<Rightarrow> fake_item outcome" where
  "find_loop key prev [] = Err ''Resource obj not found''"
| "find_loop key prev (item # items) =
     (case item of
        Inl v \<Rightarrow>
          if switch_type v then
            (case MetaNamespaceKeyFunc v of
               Ok k \<Rightarrow> if k = key then Ok item else find_loop key k items
             | Err e \<Rightarrow> Err e
             | Panic p \<Rightarrow> Panic p)
          else if prev = key then Ok item else find_loop key prev items
      | Inr _ \<Rightarrow> if prev = key then Ok item else find_loop key prev items)"

definition findResource :: "obj \<Rightarrow> fake_item list \<Rightarrow> fake_item outcome" where
  "findResource o' objs = bind_outcome (MetaNamespaceKeyFunc o') (\<lambda>key. find_loop key [] objs)"

definition fake_data :: "fake_store \<Rightarrow> resource_type \<Rightarrow> fake_item list option option" where
  "fake_data s r =
     (if r = Pods then Some (PodsData s)
      else if r = Services then Some (ServicesData s)
      else if r = Nodes then Some (NodesData s)
      else if r = PersistentVolumes then Some (PersistentVolumesData s)
      else if r = PersistentVolumeClaims then Some (PersistentVolumeClaimsData s)
      else None)"

definition fake_List :: "fake_store \<Rightarrow> resource_type \<Rightarrow> fake_item list" where
  "fake_List s r =
     (case fake_data s r of Some (Some items) \<Rightarrow> resourcesToItems items | Some None \<Rightarrow> [] | None \<Rightarrow> [])"

text \<open>\<open>Get\<close> calls the data function without the nil test that \<open>List\<close> makes.\<close>

definition fake_Get :: "fake_store \<Rightarrow> resource_type \<Rightarrow> obj \<Rightarrow> fake_item option outcome" where
  "fake_Get s r o' =
     (case fake_data s r of
        None \<Rightarrow> Ok None
      | Some None \<Rightarrow> Panic ''nil function call''
      | Some (Some items) \<Rightarrow> bind_outcome (findResource o' items) (\<lambda>x. Ok (Some x)))"

definition fake_GetByKey :: "fake_store \<Rightarrow> resource_type \<Rightarrow> string \<Rightarrow> fake_item option outcome" where
  "fake_GetByKey s r key = Ok None"

definition fake_RegisterEventHandler :: "fake_store \<Rightarrow> resource_type \<Rightarrow> fake_store \<times> unit outcome" where
  "fake_RegisterEventHandler s r = (s, Ok ())"

definition fake_Replace :: "fake_store \<Rightarrow> resource_type \<Rightarrow> fake_item list \<Rightarrow> fake_store \<times> unit outcome" where
  "fake_Replace s r items = (s, Ok ())"

definition fake_Resources :: "resource_type list" where
  "fake_Resources = [Pods, Services, Nodes, PersistentVolumes, PersistentVolumeClaims]"

section \<open>Lookup by value works, by pointer never does\<close>

lemma resourcesToItems_id [simp]: "resourcesToItems xs = xs"
  by (induction xs) simp_all

lemma switch_type_key: "switch_type v \<Longrightarrow> \<exists>k. MetaNamespaceKeyFunc v = Ok k"
  by (cases v) (auto simp: switch_type_def has_type_def MetaNamespaceKeyFunc_def)

text \<open>On values the search returns the first one with the key.\<close>

lemma find_loop_values:
  assumes "\<forall>v \<in> set vs. switch_type v"
  shows "find_loop key prev (map Inl vs) =
    (case find (\<lambda>v. obj_key v = Some key) vs of
       Some v \<Rightarrow> Ok (Inl v) | None \<Rightarrow> Err ''Resource obj not found'')"
  using assms
proof (induction vs arbitrary: prev)
  case (Cons v vs)
  then obtain k where "MetaNamespaceKeyFunc v = Ok k" using switch_type_key [of v] by auto
  with Cons show ?case by (auto simp: obj_key_def)
qed simp

text \<open>On pointers, the only kind the struct's fields can hold, every lookup of a named object fails.\<close>

lemma find_loop_pointers: "key \<noteq> [] \<Longrightarrow> find_loop key [] (map Inr vs) = Err ''Resource obj not found''"
  by (induction vs) simp_all

lemma fake_Get_pointers:
  assumes "fake_data s r = Some (Some (map Inr vs))" "obj_key x = Some key" "key \<noteq> []"
  shows "fake_Get s r x = Err ''Resource obj not found''"
  using assms
  by (auto simp: fake_Get_def findResource_def find_loop_pointers obj_key_def split: outcome.splits)

section \<open>Properties\<close>

text \<open>
  The fake store's \<open>Get\<close> finds objects held by value, the first one with the key, but
  never a named object held by pointer, which is what its data functions return.
\<close>

lemma fake_get_misses_pointers:
  assumes "obj_key x = Some key" "key \<noteq> []" "\<forall>v \<in> set vs. switch_type v"
  shows "(fake_data s r = Some (Some (map Inr vs)) \<longrightarrow> fake_Get s r x = Err ''Resource obj not found'') \<and>
    (fake_data s r = Some (Some (map Inl vs)) \<longrightarrow>
       fake_Get s r x = (case find (\<lambda>v. obj_key v = Some key) vs of
         Some v \<Rightarrow> Ok (Some (Inl v)) | None \<Rightarrow> Err ''Resource obj not found''))"
  using fake_Get_pointers [of s r vs x key] assms find_loop_values [OF assms(3), of key "[]"]
  by (auto simp: fake_Get_def findResource_def obj_key_def split: outcome.splits option.splits)

end
