(* ===== verification/Store_Mirror.thy ===== *)
theory Store_Mirror
  imports Simulator
begin

text \<open>
  The simulator's resource store and the watchers together: with the handlers \<open>New\<close>
  registers, every write to the store extends the logs of the watchers of everything so that they
  keep mirroring it.  The statement is about arbitrary sequences of writes to one resource type.
\<close>

datatype store_op = SAdd obj | SUpdate obj | SDelete obj

fun op_obj :: "store_op \<Rightarrow> obj" where
  "op_obj (SAdd x) = x" | "op_obj (SUpdate x) = x" | "op_obj (SDelete x) = x"

fun op_event :: "store_op \<Rightarrow> watch_event" where
  "op_event (SAdd x) = (''ADDED'', x)"
| "op_event (SUpdate x) = (''MODIFIED'', x)"
| "op_event (SDelete x) = (''DELETED'', x)"

fun run_op :: "resource_type \<Rightarrow> store_op \<Rightarrow> watch_env rs_state \<Rightarrow> watch_env rs_state \<times> unit outcome" where
  "run_op r (SAdd x) st = rs_Add r x st"
| "run_op r (SUpdate x) st = rs_Update r x st"
| "run_op r (SDelete x) st = rs_Delete r x st"

text \<open>A store whose handler for \<open>r\<close> is the simulator's, a watcher that mirrors it.\<close>

definition watched_store ::
    "encoder \<Rightarrow> (runtime_object \<Rightarrow> string) \<Rightarrow> resource_type \<Rightarrow> nat \<Rightarrow> string \<Rightarrow> watch_env rs_state \<Rightarrow> bool" where
  "watched_store enc f r i got st =
     (rs_wf (fst st) \<and> r \<in> set (Resources (fst st)) \<and>
      map_of (eventHandler (fst st)) r = Some (sim_handler enc r) \<and>
      watch_ready r (snd st) \<and> registered r [] i (snd st) \<and>
      (\<forall>x. has_type r x \<longrightarrow> decided r (snd st) x) \<and>
      mirrors f got (rs_lookup (fst st) r) (snd st) i)"

lemma run_handler_sim:
  assumes "EmitObjectWatchEvent enc r t x e = (e', Ok ())" "is_runtime_object x"
  shows "run_handler (emit_handler enc r t) x (s, e) = ((s, e'), Ok ())"
  using assms by (simp add: run_handler_def emit_handler_def)

lemma decided_same: "watcherReadGetters e' = watcherReadGetters e \<Longrightarrow> decided r e' x = decided r e x"
  by (simp add: decided_def)

text \<open>The cache side of one write.\<close>

definition op_cache :: "store_op \<Rightarrow> cache_store \<Rightarrow> cache_store" where
  "op_cache op c = apply_event (op_event op) c"

lemma op_cache_effect:
  "cache_wf c \<Longrightarrow> cache_wf (op_cache op c) \<and> map_of (op_cache op c) = event_effect (op_event op) (map_of c)"
  using cache_wf_apply [of c "[op_event op]"] by (simp add: op_cache_def apply_event_effect)

lemma run_op_eq:
  assumes "map_of (resourceToCache s) r = Some c" "map_of (eventHandler s) r = Some (sim_handler enc r)"
    and "has_type r (op_obj op)" "EmitObjectWatchEvent enc r (fst (op_event op)) (op_obj op) e = (e', Ok ())"
  shows "run_op r op (s, e) = ((set_cache r (op_cache op c) s, e'), Ok ())"
proof -
  have run: "is_runtime_object (op_obj op)" using assms(3) by simp
  then obtain k where "MetaNamespaceKeyFunc (op_obj op) = Ok k"
    using runtime_object_has_key [of "op_obj op"] by (auto simp: obj_key_def split: outcome.splits)
  then show ?thesis
    using assms run run_handler_sim [OF assms(4) run]
    by (cases op)
      (auto simp: rs_Add_def rs_Update_def rs_Delete_def cache_Add_def cache_Update_def cache_Delete_def
        sim_handler_def Let_def op_cache_def apply_event_def)
qed

lemma op_event_obj: "op_event op = (fst (op_event op), op_obj op)"
  by (cases op) simp_all

lemma run_op_watched:
  assumes enc: "enc_total enc f" and w: "watched_store enc f r i got st" and x: "has_type r (op_obj op)"
  shows "snd (run_op r op st) = Ok () \<and> watched_store enc f r i got (fst (run_op r op st)) \<and>
    rs_lookup (fst (fst (run_op r op st))) r = event_effect (op_event op) (rs_lookup (fst st) r) \<and>
    wb_buf (we_bufs (snd (fst (run_op r op st))) ! i) = wb_buf (we_bufs (snd st) ! i) @ events_text f [op_event op]"
proof -
  obtain s e where st: "st = (s, e)" by fastforce
  from w st obtain c where c: "map_of (resourceToCache s) r = Some c" "cache_wf c"
    by (auto simp: watched_store_def Resources_iff dest: rs_cache_wf)
  from mirror_emit [OF enc, of r e "op_obj op" i got "rs_lookup s r" "fst (op_event op)"] w st x obtain e' where
    e': "EmitObjectWatchEvent enc r (fst (op_event op)) (op_obj op) e = (e', Ok ())" "watch_ready r e'"
      "registered r [] i e'" "watcherReadGetters e' = watcherReadGetters e"
      "wb_buf (we_bufs e' ! i) = wb_buf (we_bufs e ! i) @ event_text f (fst (op_event op)) (op_obj op)"
      "mirrors f got (event_effect (op_event op) (rs_lookup s r)) e' i"
    by (auto simp: watched_store_def simp flip: op_event_obj)
  let ?s = "set_cache r (op_cache op c) s"
  have run: "run_op r op st = ((?s, e'), Ok ())"
    unfolding st by (rule run_op_eq [OF c(1) _ x e'(1)]) (use w st in \<open>simp add: watched_store_def\<close>)
  have "rs_lookup s r = map_of c" using c(1) by (intro ext) (simp add: rs_lookup_def)
  then have eff: "rs_lookup ?s r = event_effect (op_event op) (rs_lookup s r)"
    using op_cache_effect [OF c(2), of op] by simp
  moreover have "rs_wf ?s" using w st op_cache_effect [OF c(2), of op] by (simp add: watched_store_def rs_wf_set_cache)
  moreover have "r \<in> set (Resources ?s)" using w st Resources_set_cache [of r s] by (simp add: watched_store_def)
  ultimately have "watched_store enc f r i got (?s, e')"
    using w st e' eff by (simp add: watched_store_def decided_same [OF e'(4)])
  moreover have "events_text f [op_event op] = event_text f (fst (op_event op)) (op_obj op)"
    by (cases op) (simp_all add: events_text_def)
  ultimately show ?thesis using run eff e'(5) st by simp
qed

fun run_ops :: "resource_type \<Rightarrow> store_op list \<Rightarrow> watch_env rs_state \<Rightarrow> watch_env rs_state \<times> unit outcome" where
  "run_ops r [] st = (st, Ok ())"
| "run_ops r (op # ops) st =
     (case run_op r op st of (st', Ok _) \<Rightarrow> run_ops r ops st' | (st', x) \<Rightarrow> (st', x))"

lemma run_ops_watched:
  assumes "enc_total enc f"
  shows "watched_store enc f r i got st \<Longrightarrow> list_all (\<lambda>op. has_type r (op_obj op)) ops \<Longrightarrow>
    snd (run_ops r ops st) = Ok () \<and> watched_store enc f r i got (fst (run_ops r ops st))"
proof (induction ops arbitrary: st)
  case (Cons op ops)
  obtain st' x where run: "run_op r op st = (st', x)" by fastforce
  with run_op_watched [OF assms Cons.prems(1), of op] Cons.prems(2)
  have "x = Ok ()" "watched_store enc f r i got st'" by simp_all
  with Cons run show ?case by simp
qed simp

text \<open>Opening a watch of everything on a store with the simulator's handlers starts the mirror.\<close>

lemma watch_starts_mirror:
  assumes enc: "enc_total enc f" and inv: "rs_inv s" and r: "r \<in> set watched_types"
    and h: "map_of (eventHandler s) r = Some (sim_handler enc r)"
    and reg: "map_of (watcherReadGetters e) r = Some []"
  shows "\<exists>e'. createWatchReadCloser enc r Everything s e = (e', Ok (length (we_bufs e))) \<and>
    watched_store enc f r (length (we_bufs e)) [] (s, e') \<and>
    wb_buf (we_bufs e' ! length (we_bufs e)) = events_text f (map (Pair ''ADDED'') (rs_List r s)) \<and>
    watcherReadGetters e' = watcherReadGetters (register_watcher r [] [] e)"
proof -
  from mirror_created [OF enc inv r reg] obtain e' where
    e': "createWatchReadCloser enc r Everything s e = (e', Ok (length (we_bufs e)))"
      "registered r [] (length (we_bufs e)) e'"
      "wb_buf (we_bufs e' ! length (we_bufs e)) = events_text f (map (Pair ''ADDED'') (rs_List r s))"
      "mirrors f [] (rs_lookup s r) e' (length (we_bufs e))" by blast
  have list: "rc_List r Everything s = Ok (ROList r (rs_List r s))"
    using rc_List_typed [of s r Everything] inv r by (simp add: rs_inv_def)
  let ?e1 = "register_watcher r [] [] e"
  have ready: "watch_ready r ?e1"
    by (rule register_watcher_ready) (use reg in \<open>auto simp: watch_ready_def rg_watchers_def all_open_def\<close>)
  have new: "length (we_bufs e) < length (we_bufs ?e1)" "\<not> wb_closed (we_bufs ?e1 ! length (we_bufs e))"
    by (simp_all add: register_watcher_def Let_def NewWatchBuffer_def)
  have e'_eq: "e' = put_buf (length (we_bufs e)) (feed (events_text f (map (Pair ''ADDED'') (rs_List r s)))
      (we_bufs ?e1 ! length (we_bufs e))) ?e1"
    using e'(1) reg list replay_open [OF enc new, of "rs_List r s"] by (simp add: createWatchReadCloser_def Let_def)
  have "fed {length (we_bufs e)} (events_text f (map (Pair ''ADDED'') (rs_List r s))) ?e1 e'"
    unfolding e'_eq by (rule fed_put_buf [OF new(1)])
  from fed_watch_ready [OF this] ready have "watch_ready r e'" by simp
  moreover have "decided r e' x" for x
    using reg by (simp add: e'_eq decided_def put_buf_def register_watcher_def Let_def)
  moreover have "r \<in> set (Resources s)" using inv r by (auto simp: rs_inv_def watched_types_def)
  moreover have "watcherReadGetters e' = watcherReadGetters ?e1" by (simp add: e'_eq put_buf_def)
  ultimately show ?thesis using e' inv h by (simp add: watched_store_def rs_inv_def)
qed

end
