(* ===== verification/Simulation_Watch.thy ===== *)
theory Simulation_Watch
  imports Simulation_Spec Store_Mirror
begin

text \<open>
  A simulation seen through a watch.  An informer of the scheduler opens a watch of the pods on the
  store \<open>New\<close> fills and reads from it while the simulation runs.  Every step of the
  simulation changes the store by adds and updates of pods only (\<open>sim_step_writes\<close>), each of
  which extends the log of the watch, so that what has been read and what is still buffered is at any
  time a log of the whole store.
\<close>

section \<open>A simulation writes pods\<close>

inductive store_write :: "resource_type \<Rightarrow> watch_env rs_state \<Rightarrow> watch_env rs_state \<Rightarrow> bool" for r where
  "has_type r (op_obj op) \<Longrightarrow> store_write r st (fst (run_op r op st))"

abbreviation pod_writes :: "cluster_capacity \<Rightarrow> cluster_capacity \<Rightarrow> bool" where
  "pod_writes c c' \<equiv> (store_write Pods)\<^sup>*\<^sup>* (cc_store c) (cc_store c')"

lemma write_Add: "rs_Add r x st = (st', res) \<Longrightarrow> has_type r x \<Longrightarrow> store_write r st st'"
  using store_write.intros [of r "SAdd x" st] by simp

lemma write_Update: "rs_Update r x st = (st', res) \<Longrightarrow> has_type r x \<Longrightarrow> store_write r st st'"
  using store_write.intros [of r "SUpdate x" st] by simp

lemma nextPod_writes: "nextPod c = (c', r) \<Longrightarrow> pod_writes c c'"
  by (auto simp: nextPod_def has_type_def split: prod.splits option.splits dest!: write_Add)

lemma Close_store: "cc_Close c = (c', r) \<Longrightarrow> cc_store c' = cc_store c"
  by (auto simp: cc_Close_def split: if_splits)

lemma set_StopReason_store [simp]: "cc_store (set_StopReason pre e c) = cc_store c"
  by (simp add: set_StopReason_def)

lemma deferred_writes: "deferred pre c = (c', r) \<Longrightarrow> pod_writes c c'"
  by (auto simp: deferred_def split: prod.splits outcome.splits if_splits dest!: nextPod_writes Close_store)

lemma run_begin_writes: "run_begin c = (c', pc) \<Longrightarrow> pod_writes c c'"
  by (auto simp: run_begin_def split: prod.splits outcome.splits dest!: nextPod_writes Close_store)

lemma add_drain_store [simp]: "cc_store (add_drain n c) = cc_store c"
  by (simp add: add_drain_def)

lemma strategy_writes: "strategy_Add (PodO p) st = ((st', x), r) \<Longrightarrow> store_write Pods st st'"
  by (auto simp: strategy_Add_def strategy_addPod_def Let_def has_type_def Pods_def split: prod.splits
      dest!: write_Update)

lemma Bind_writes: "cc_Bind b n c = (c', r) \<Longrightarrow> pod_writes c c'"
  by (auto simp: cc_Bind_def Let_def split: outcome.splits option.splits obj.splits prod.splits
      dest!: deferred_writes strategy_writes intro: converse_rtranclp_into_rtranclp)

lemma Update_writes: "cc_Update p cond n c = (c', r) \<Longrightarrow> pod_writes c c'"
  by (auto simp: cc_Update_def Let_def split: if_splits dest!: deferred_writes)

lemma record_drain_store:
  "record_event n t r m c = Some c' \<Longrightarrow> cc_store c' = cc_store c"
  "drain_event n c = Some c' \<Longrightarrow> cc_store c' = cc_store c"
  by (auto simp: record_event_def drain_event_def split: option.splits)

lemma sim_step_writes: "sim_step n s s' \<Longrightarrow> pod_writes (ss_cc s) (ss_cc s')"
  by (induction rule: sim_step.induct)
    (auto simp: run_end_def record_drain_store dest: run_begin_writes Bind_writes Update_writes)

lemma writes_watched:
  assumes "enc_total enc f" "(store_write r)\<^sup>*\<^sup>* st st'" "watched_store enc f r i got st"
  shows "watched_store enc f r i got st'"
  using assms(2,3)
  by (induction rule: rtranclp_induct) (auto elim!: store_write.cases dest: run_op_watched [OF assms(1), THEN conjunct2, THEN conjunct1])

section \<open>A reader of the watch\<close>

text \<open>The simulation with a client that reads from buffer \<open>i\<close>, and what it has read.\<close>

inductive watch_step :: "string \<Rightarrow> nat \<Rightarrow> sim_sys \<times> string \<Rightarrow> sim_sys \<times> string \<Rightarrow> bool" for n i where
  sim: "sim_step n s s' \<Longrightarrow> watch_step n i (s, got) (s', got)"
| read: "wb_Read (we_bufs (snd (cc_store (ss_cc s))) ! i) k = (w, Some (xs, err)) \<Longrightarrow>
    watch_step n i (s, got) (set_env (put_buf i w (snd (cc_store (ss_cc s)))) s, got @ xs)"

lemma wb_Read_split:
  "wb_Read w k = (w', Some (xs, err)) \<Longrightarrow> wb_buf w = xs @ wb_buf w' \<and> wb_closed w' = wb_closed w"
  by (auto simp: wb_Read_def split: if_splits prod.splits dest: buf_Read_split)

lemma put_buf_simps [simp]: "watcherReadGetters (put_buf i w e) = watcherReadGetters e"
  by (simp add: put_buf_def)

lemma put_buf_open: "wb_closed w = wb_closed (we_bufs e ! i) \<Longrightarrow> all_open I (put_buf i w e) = all_open I e"
proof -
  assume "wb_closed w = wb_closed (we_bufs e ! i)"
  then have "j < length (we_bufs e) \<Longrightarrow> wb_closed ((we_bufs e)[i := w] ! j) = wb_closed (we_bufs e ! j)" for j
    by (cases "i = j") simp_all
  then show ?thesis by (auto simp: all_open_def put_buf_def)
qed

lemma read_watched:
  assumes w: "watched_store enc f r i got (s, e)" and rd: "wb_Read (we_bufs e ! i) k = (w, Some (xs, err))"
  shows "watched_store enc f r i (got @ xs) (s, put_buf i w e)"
proof -
  note sp = wb_Read_split [OF rd]
  have "i < length (we_bufs e)"
    using w by (auto simp: watched_store_def watch_ready_def registered_def all_open_def rg_watchers_def
        dest!: map_of_SomeD [of _ "[]"])
  then have "we_bufs (put_buf i w e) ! i = w" by (simp add: put_buf_def)
  then have "mirrors f (got @ xs) (rs_lookup s r) (put_buf i w e) i"
    using w sp by (intro mirrors_read [of _ _ _ e]) (simp_all add: watched_store_def)
  then show ?thesis
    using w sp put_buf_open [of w e i]
    by (simp add: watched_store_def watch_ready_def registered_def decided_same [of "put_buf i w e" e])
qed

text \<open>The invariant of a watched simulation.\<close>

definition watched_run ::
    "encoder \<Rightarrow> (runtime_object \<Rightarrow> string) \<Rightarrow> string \<Rightarrow> nat \<Rightarrow> pod list \<Rightarrow> pod list \<Rightarrow>
      (resource_type \<Rightarrow> string \<Rightarrow> obj option) \<Rightarrow> sim_sys \<times> string \<Rightarrow> bool" where
  "watched_run enc f n i newPods sched L sg =
     (sim_inv n newPods sched L (fst sg) \<and> watched_store enc f Pods i (snd sg) (cc_store (ss_cc (fst sg))))"

lemma watch_step_run:
  assumes enc: "enc_total enc f" and una: "list_all unassignedNonTerminatedPod newPods"
    and step: "watch_step n i sg sg'" and run: "watched_run enc f n i newPods sched L sg"
  shows "watched_run enc f n i newPods sched L sg'"
  using step
proof cases
  case (sim s s' got)
  with run sim_inv_step [OF sim(3) _ una] writes_watched [OF enc sim_step_writes [OF sim(3)]]
  show ?thesis by (auto simp: watched_run_def)
next
  case (read s k w xs err got)
  let ?e = "snd (cc_store (ss_cc s))"
  from run read obtain outs where at: "sim_at n newPods sched L outs s"
      and w: "watched_store enc f Pods i got (fst (cc_store (ss_cc s)), ?e)"
    by (auto simp: watched_run_def sim_inv_def)
  have "env_safe (put_buf i w ?e)" using at by (simp add: sim_at_def cc_good_def good_state_def env_safe_def)
  from sim_at_client [OF at this] read_watched [OF w read(3)] read(1,2) show ?thesis
    by (auto simp: watched_run_def sim_inv_def set_env_def)
qed

lemma watch_steps_run:
  assumes "enc_total enc f" "list_all unassignedNonTerminatedPod newPods"
    and "(watch_step n i)\<^sup>*\<^sup>* sg sg'" "watched_run enc f n i newPods sched L sg"
  shows "watched_run enc f n i newPods sched L sg'"
  using assms(3,4) by (induction rule: rtranclp_induct) (auto intro: watch_step_run [OF assms(1,2)])

section \<open>Opening the watch\<close>

text \<open>The store of a simulator nobody watches yet.\<close>

definition unwatched :: "encoder \<Rightarrow> watch_env rs_state \<Rightarrow> bool" where
  "unwatched enc st =
     (rs_inv (fst st) \<and>
      (\<forall>r \<in> set watched_types. map_of (eventHandler (fst st)) r = Some (sim_handler enc r) \<and>
         map_of (watcherReadGetters (snd st)) r = Some []))"

lemma write_unwatched:
  assumes "store_write r st st'" "r \<in> set watched_types" "unwatched enc st"
  shows "unwatched enc st'"
  using assms(1)
proof cases
  case (1 op)
  obtain s e where st: "st = (s, e)" by fastforce
  have inv: "rs_inv s" using assms(3) st by (simp add: unwatched_def)
  then have "r \<in> set (Resources s)" using assms(2) by (auto simp: rs_inv_def watched_types_def)
  then obtain c where c: "map_of (resourceToCache s) r = Some c" by (auto simp: Resources_iff)
  have h: "map_of (eventHandler s) r = Some (sim_handler enc r)" "map_of (watcherReadGetters e) r = Some []"
    using assms(2,3) st by (auto simp: unwatched_def)
  then have "EmitObjectWatchEvent enc r (fst (op_event op)) (op_obj op) e = (e, Ok ())"
    by (simp add: EmitObjectWatchEvent_def)
  from run_op_eq [OF c h(1) 1(2) this] 1 st have st': "st' = (set_cache r (op_cache op c) s, e)" by simp
  have "rs_step st st'" using 1 by (cases op) (auto intro: rs_step.intros)
  with inv st have "rs_inv (fst st')" using rs_inv_step by fastforce
  then show ?thesis using assms(3) st st' by (simp add: unwatched_def set_cache_def)
qed

lemma add_nodes_unwatched: "unwatched enc (cc_store c) \<Longrightarrow> add_nodes xs c = (c', r) \<Longrightarrow> unwatched enc (cc_store c')"
proof (induction xs arbitrary: c)
  case (Cons x xs)
  obtain st r' where st: "rs_Add Nodes (NodeO x) (cc_store c) = (st, r')" by fastforce
  have "unwatched enc st"
    by (rule write_unwatched [OF write_Add [OF st] _ Cons.prems(1)]) (simp_all add: has_type_def watched_types_def)
  then show ?case using Cons.IH [of "c\<lparr>cc_store := st\<rparr>"] Cons.prems st by (auto split: outcome.splits)
qed simp

lemma add_pods_unwatched: "unwatched enc (cc_store c) \<Longrightarrow> add_pods ps c = (c', r) \<Longrightarrow> unwatched enc (cc_store c')"
proof (induction ps arbitrary: c)
  case (Cons p ps)
  obtain st r' where st: "rs_Add Pods (PodO p) (cc_store c) = (st, r')" by fastforce
  have "unwatched enc st"
    by (rule write_unwatched [OF write_Add [OF st] _ Cons.prems(1)]) (simp_all add: has_type_def watched_types_def)
  then show ?case
    using Cons.IH [of "AddScheduledPods p (c\<lparr>cc_store := st\<rparr>)"] Cons.prems st
    by (auto simp: AddScheduledPods_def split: outcome.splits)
qed simp

lemma initial_unwatched: "unwatched enc (cc_store (initial_cc enc newPods))"
proof -
  have "rs_inv (register_handlers enc NewResourceStore)"
    using rs_inv_new unfolding rs_inv_def rs_wf_def rs_typed_def register_handlers_simps by blast
  moreover have "map_of (eventHandler (register_handlers enc NewResourceStore)) r = Some (sim_handler enc r)"
    if "r \<in> set watched_types" for r
    using that unfolding register_handlers_def fold_register(1) Resources_New
    by (auto simp: watched_types_def)
  ultimately show ?thesis
    by (auto simp: unwatched_def initial_cc_def NewRESTClient_def Resources_New watched_types_def)
qed

lemma New_unwatched:
  assumes "sim_New enc k srv newPods pods nodes = Ok (c, lb, cfg)"
  shows "unwatched enc (cc_store c)"
proof -
  obtain c1 r1 where c1: "add_nodes nodes (initial_cc enc newPods) = (c1, r1)" by fastforce
  obtain c2 r2 where c2: "add_pods pods c1 = (c2, r2)" by fastforce
  have "cc_store c = cc_store c2"
    using assms c1 c2 by (cases r1; cases r2; cases "createScheduler k srv") (auto simp: sim_New_def)
  then show ?thesis
    using add_pods_unwatched [OF add_nodes_unwatched [OF initial_unwatched c1] c2] by simp
qed

lemma sel_safe_Nil: "sel_safe []"
  by (simp add: sel_safe_def ParseSelector_Nil)

lemma update_subset: "set (AList.update k v al) \<subseteq> insert (k, v) (set al)"
  by (induction al) auto

lemma register_env_safe: "env_safe e \<Longrightarrow> env_safe (register_watcher r [] [] e)"
  using update_subset [of r "[([], [length (we_bufs e)])]" "watcherReadGetters e"] sel_safe_Nil
  by (fastforce simp: env_safe_def register_watcher_def Let_def)

lemma watch_opened:
  assumes enc: "enc_total enc f" and c: "sim_New enc k srv newPods pods nodes = Ok (c, lb, cfg)"
    and at: "sim_at n newPods pods L [] (sim_initial c)"
  shows "\<exists>e i. createWatchReadCloser enc Pods Everything (fst (cc_store c)) (snd (cc_store c)) = (e, Ok i) \<and>
    wb_buf (we_bufs e ! i) = events_text f (map (Pair ''ADDED'') (rs_List Pods (fst (cc_store c)))) \<and>
    watched_run enc f n i newPods pods L (set_env e (sim_initial c), [])"
proof -
  let ?s = "fst (cc_store c)" and ?e = "snd (cc_store c)"
  have Pods: "Pods \<in> set watched_types" by (simp add: watched_types_def)
  from New_unwatched [OF c] Pods have un: "rs_inv ?s" "map_of (eventHandler ?s) Pods = Some (sim_handler enc Pods)"
    "map_of (watcherReadGetters ?e) Pods = Some []" by (auto simp: unwatched_def)
  from watch_starts_mirror [OF enc un(1) Pods un(2,3)] obtain e where
    e: "createWatchReadCloser enc Pods Everything ?s ?e = (e, Ok (length (we_bufs ?e)))"
      "watched_store enc f Pods (length (we_bufs ?e)) [] (?s, e)"
      "wb_buf (we_bufs e ! length (we_bufs ?e)) = events_text f (map (Pair ''ADDED'') (rs_List Pods ?s))"
      "watcherReadGetters e = watcherReadGetters (register_watcher Pods [] [] ?e)" by blast
  have "env_safe ?e" using at by (simp add: sim_at_def cc_good_def good_state_def sim_initial_def)
  then have "env_safe e" using register_env_safe [of ?e Pods] e(4) by (simp add: env_safe_def)
  from sim_at_client [OF at this] e(2) have "watched_run enc f n (length (we_bufs ?e)) newPods pods L (set_env e (sim_initial c), [])"
    by (auto simp: watched_run_def sim_inv_def set_env_def sim_initial_def)
  with e(1,3) show ?thesis by blast
qed

end
