(* ===== verification/Delta_FIFO.thy ===== *)
theory Delta_FIFO
  imports Object_Cache
begin

text \<open>
  The queues of an informer and of the scheduler
  (\<open>vendor/k8s.io/client-go/tools/cache/delta_fifo.go\<close>, \<open>fifo.go\<close>): a queue of changes by
  object, from which a consumer takes all changes of one object at a time, and a queue of objects.  A
  \<open>Pop\<close> that has to wait returns \<open>None\<close>.  The mutex makes every operation atomic; nothing closes the
  queues while the scheduler runs.  \<open>KeyOf\<close> is only asked for objects and tombstones, and the consumer
  never asks to requeue.

  Shown: the changes of an object are delivered in order and none is lost; what is in the map is in the
  queue and vice versa.
\<close>

section \<open>Changes\<close>

datatype delta_type = DAdded | DUpdated | DDeleted | DSync

datatype delta_obj = Live obj | DeletedFinalStateUnknown string "obj option"

record delta =
  d_Type :: delta_type
  d_Object :: delta_obj

record delta_fifo =
  df_items :: "(string, delta list) gomap"
  df_queue :: "string list"
  df_populated :: bool
  df_initialPopulationCount :: int

definition NewDeltaFIFO :: delta_fifo where
  "NewDeltaFIFO = \<lparr>df_items = [], df_queue = [], df_populated = False, df_initialPopulationCount = 0\<rparr>"

definition KeyOf :: "delta_obj \<Rightarrow> string outcome" where
  "KeyOf x = (case x of DeletedFinalStateUnknown key _ \<Rightarrow> Ok key | Live o' \<Rightarrow> MetaNamespaceKeyFunc o')"

definition delta_KeyError :: "delta_obj \<Rightarrow> go_error \<Rightarrow> go_error" where
  "delta_KeyError x e = (case x of Live o' \<Rightarrow> KeyError o' e | DeletedFinalStateUnknown key _ \<Rightarrow> e)"

definition isDeletionDup :: "delta \<Rightarrow> delta \<Rightarrow> delta option" where
  "isDeletionDup a b =
     (if d_Type b \<noteq> DDeleted \<or> d_Type a \<noteq> DDeleted then None
      else case d_Object b of DeletedFinalStateUnknown _ _ \<Rightarrow> Some a | Live _ \<Rightarrow> Some b)"

definition dedupDeltas :: "delta list \<Rightarrow> delta list" where
  "dedupDeltas deltas =
     (let n = length deltas in
      if n < 2 then deltas
      else case isDeletionDup (deltas ! (n - 1)) (deltas ! (n - 2)) of
        Some out \<Rightarrow> take (n - 2) deltas @ [out]
      | None \<Rightarrow> deltas)"

definition deltas_of :: "delta_fifo \<Rightarrow> string \<Rightarrow> delta list" where
  "deltas_of f key = (case map_of (df_items f) key of None \<Rightarrow> [] | Some ds \<Rightarrow> ds)"

definition willObjectBeDeletedLocked :: "delta_fifo \<Rightarrow> string \<Rightarrow> bool" where
  "willObjectBeDeletedLocked f key =
     (let deltas = deltas_of f key in length deltas > 0 \<and> d_Type (deltas ! (length deltas - 1)) = DDeleted)"

definition queueActionLocked :: "delta_type \<Rightarrow> delta_obj \<Rightarrow> delta_fifo \<Rightarrow> delta_fifo \<times> unit outcome" where
  "queueActionLocked actionType x f =
     (case KeyOf x of
        Err e \<Rightarrow> (f, Err (delta_KeyError x e))
      | Panic q \<Rightarrow> (f, Panic q)
      | Ok key \<Rightarrow>
          if actionType = DSync \<and> willObjectBeDeletedLocked f key then (f, Ok ())
          else (let newDeltas = dedupDeltas (deltas_of f key @ [\<lparr>d_Type = actionType, d_Object = x\<rparr>]);
                    exists = map_of (df_items f) key \<noteq> None
                in if length newDeltas > 0
                   then (f\<lparr>df_queue := (if exists then df_queue f else df_queue f @ [key]),
                           df_items := AList.update key newDeltas (df_items f)\<rparr>, Ok ())
                   else if exists then (f\<lparr>df_items := AList.delete key (df_items f)\<rparr>, Ok ())
                   else (f, Ok ())))"

definition df_Add :: "obj \<Rightarrow> delta_fifo \<Rightarrow> delta_fifo \<times> unit outcome" where
  "df_Add x f = queueActionLocked DAdded (Live x) (f\<lparr>df_populated := True\<rparr>)"

definition df_Update :: "obj \<Rightarrow> delta_fifo \<Rightarrow> delta_fifo \<times> unit outcome" where
  "df_Update x f = queueActionLocked DUpdated (Live x) (f\<lparr>df_populated := True\<rparr>)"

text \<open>The known objects are those of the informer's indexer.\<close>

definition df_Delete :: "cache_store \<Rightarrow> obj \<Rightarrow> delta_fifo \<Rightarrow> delta_fifo \<times> unit outcome" where
  "df_Delete knownObjects x f =
     (case KeyOf (Live x) of
        Err e \<Rightarrow> (f, Err (KeyError x e))
      | Panic q \<Rightarrow> (f, Panic q)
      | Ok key \<Rightarrow>
          (let f = f\<lparr>df_populated := True\<rparr> in
           if map_of knownObjects key = None \<and> map_of (df_items f) key = None then (f, Ok ())
           else queueActionLocked DDeleted (Live x) f))"

text \<open>A pop that has to wait has already taken the stale keys off the queue.\<close>

fun pop_loop :: "string list \<Rightarrow> delta_fifo \<Rightarrow> delta_fifo \<times> delta list option" where
  "pop_loop [] f = (f, None)"
| "pop_loop (key # q) f =
     (let f = f\<lparr>df_queue := q,
                df_initialPopulationCount := (if df_initialPopulationCount f > 0 then df_initialPopulationCount f - 1
                                              else df_initialPopulationCount f)\<rparr>
      in case map_of (df_items f) key of
           None \<Rightarrow> pop_loop q f
         | Some deltas \<Rightarrow> (f\<lparr>df_items := AList.delete key (df_items f)\<rparr>, Some deltas))"

definition df_Pop :: "delta_fifo \<Rightarrow> delta_fifo \<times> delta list option" where
  "df_Pop f = pop_loop (df_queue f) f"

fun replace_sync :: "obj list \<Rightarrow> string list \<Rightarrow> delta_fifo \<Rightarrow> delta_fifo \<times> string list outcome" where
  "replace_sync [] keys f = (f, Ok keys)"
| "replace_sync (x # xs) keys f =
     (case KeyOf (Live x) of
        Err e \<Rightarrow> (f, Err (KeyError x e))
      | Panic q \<Rightarrow> (f, Panic q)
      | Ok key \<Rightarrow>
          (case queueActionLocked DSync (Live x) f of
             (f', Ok _) \<Rightarrow> replace_sync xs (key # keys) f'
           | (f', Err e) \<Rightarrow> (f', Err (''couldn't enqueue object: '' @ e))
           | (f', Panic q) \<Rightarrow> (f', Panic q)))"

fun replace_delete :: "cache_store \<Rightarrow> string list \<Rightarrow> string list \<Rightarrow> delta_fifo \<Rightarrow> delta_fifo \<times> nat outcome" where
  "replace_delete knownObjects [] keys f = (f, Ok 0)"
| "replace_delete knownObjects (k # ks) keys f =
     (if k \<in> set keys then replace_delete knownObjects ks keys f
      else case queueActionLocked DDeleted (DeletedFinalStateUnknown k (map_of knownObjects k)) f of
        (f', Ok _) \<Rightarrow> (case replace_delete knownObjects ks keys f' of (f'', r) \<Rightarrow> (f'', bind_outcome r (\<lambda>n. Ok (Suc n))))
      | (f', Err e) \<Rightarrow> (f', Err e)
      | (f', Panic q) \<Rightarrow> (f', Panic q))"

definition df_Replace :: "cache_store \<Rightarrow> obj list \<Rightarrow> delta_fifo \<Rightarrow> delta_fifo \<times> unit outcome" where
  "df_Replace knownObjects xs f =
     (case replace_sync xs [] f of
        (f1, Err e) \<Rightarrow> (f1, Err e)
      | (f1, Panic q) \<Rightarrow> (f1, Panic q)
      | (f1, Ok keys) \<Rightarrow>
          (case replace_delete knownObjects (map fst knownObjects) keys f1 of
             (f2, Err e) \<Rightarrow> (f2, Err e)
           | (f2, Panic q) \<Rightarrow> (f2, Panic q)
           | (f2, Ok queuedDeletions) \<Rightarrow>
               (if df_populated f2 then f2
                else f2\<lparr>df_populated := True, df_initialPopulationCount := int (length xs + queuedDeletions)\<rparr>, Ok ())))"

definition df_HasSynced :: "delta_fifo \<Rightarrow> bool" where
  "df_HasSynced f = (df_populated f \<and> df_initialPopulationCount f = 0)"

section \<open>The queue of pods\<close>

text \<open>The counters behind its \<open>HasSynced\<close>, which nobody calls, are left out.\<close>

record fifo =
  ff_items :: cache_store
  ff_queue :: "string list"

definition NewFIFO :: fifo where
  "NewFIFO = \<lparr>ff_items = [], ff_queue = []\<rparr>"

definition ff_Add :: "obj \<Rightarrow> fifo \<Rightarrow> fifo \<times> unit outcome" where
  "ff_Add x f =
     (case MetaNamespaceKeyFunc x of
        Err e \<Rightarrow> (f, Err (KeyError x e))
      | Panic q \<Rightarrow> (f, Panic q)
      | Ok key \<Rightarrow>
          (f\<lparr>ff_queue := (if map_of (ff_items f) key = None then ff_queue f @ [key] else ff_queue f),
             ff_items := AList.update key x (ff_items f)\<rparr>, Ok ()))"

definition ff_AddIfNotPresent :: "obj \<Rightarrow> fifo \<Rightarrow> fifo \<times> unit outcome" where
  "ff_AddIfNotPresent x f =
     (case MetaNamespaceKeyFunc x of
        Err e \<Rightarrow> (f, Err (KeyError x e))
      | Panic q \<Rightarrow> (f, Panic q)
      | Ok key \<Rightarrow>
          (if map_of (ff_items f) key = None
           then f\<lparr>ff_queue := ff_queue f @ [key], ff_items := AList.update key x (ff_items f)\<rparr>
           else f, Ok ()))"

definition ff_Update :: "obj \<Rightarrow> fifo \<Rightarrow> fifo \<times> unit outcome" where
  "ff_Update x f = ff_Add x f"

definition ff_Delete :: "obj \<Rightarrow> fifo \<Rightarrow> fifo \<times> unit outcome" where
  "ff_Delete x f =
     (case MetaNamespaceKeyFunc x of
        Err e \<Rightarrow> (f, Err (KeyError x e))
      | Panic q \<Rightarrow> (f, Panic q)
      | Ok key \<Rightarrow> (f\<lparr>ff_items := AList.delete key (ff_items f)\<rparr>, Ok ()))"

fun ff_pop_loop :: "string list \<Rightarrow> fifo \<Rightarrow> fifo \<times> obj option" where
  "ff_pop_loop [] f = (f, None)"
| "ff_pop_loop (key # q) f =
     (let f = f\<lparr>ff_queue := q\<rparr> in
      case map_of (ff_items f) key of
        None \<Rightarrow> ff_pop_loop q f
      | Some x \<Rightarrow> (f\<lparr>ff_items := AList.delete key (ff_items f)\<rparr>, Some x))"

definition ff_Pop :: "fifo \<Rightarrow> fifo \<times> obj option" where
  "ff_Pop f = ff_pop_loop (ff_queue f) f"

section \<open>The effect of changes\<close>

declare map_of_eq_Some_iff [simp del]

fun delta_effect :: "delta \<Rightarrow> obj option \<Rightarrow> obj option" where
  "delta_effect d x = (if d_Type d = DDeleted then None else case d_Object d of Live y \<Rightarrow> Some y | DeletedFinalStateUnknown _ y \<Rightarrow> x)"

definition pending :: "delta_fifo \<Rightarrow> (string \<Rightarrow> obj option) \<Rightarrow> string \<Rightarrow> obj option" where
  "pending f m key = fold delta_effect (deltas_of f key) (m key)"

text \<open>
  The comment on the fields: what is in the map is in the queue and vice versa, and every list has a
  change.  Only a deletion can lack its object.
\<close>

definition delta_ok :: "string \<Rightarrow> delta \<Rightarrow> bool" where
  "delta_ok key d =
     (KeyOf (d_Object d) = Ok key \<and> (d_Type d \<noteq> DDeleted \<longrightarrow> (\<exists>x. d_Object d = Live x)))"

definition df_inv :: "delta_fifo \<Rightarrow> bool" where
  "df_inv f =
     (gomap_wf (df_items f) \<and> distinct (df_queue f) \<and> set (df_queue f) = dom (map_of (df_items f)) \<and>
      (\<forall>key ds. map_of (df_items f) key = Some ds \<longrightarrow> ds \<noteq> [] \<and> list_all (delta_ok key) ds))"

lemma dedupDeltas_snoc:
  "dedupDeltas (xs @ [b, a]) = (case isDeletionDup a b of Some out \<Rightarrow> xs @ [out] | None \<Rightarrow> xs @ [b, a])"
  by (auto simp: dedupDeltas_def Let_def nth_append numeral_2_eq_2 split: option.split)

lemma dedupDeltas_cases:
  obtains "dedupDeltas (ds @ [a]) = ds @ [a]"
  | xs b out where "ds = xs @ [b]" "dedupDeltas (ds @ [a]) = xs @ [out]" "out \<in> {a, b}" "d_Type a = DDeleted" "d_Type b = DDeleted"
proof (cases ds rule: rev_cases)
  case Nil
  then show thesis using that(1) by (simp add: dedupDeltas_def)
next
  case (snoc xs b)
  show thesis
  proof (cases "isDeletionDup a b")
    case None
    then show thesis using that(1) dedupDeltas_snoc [of xs b a] snoc by simp
  next
    case (Some out)
    then have "out \<in> {a, b}" "d_Type a = DDeleted" "d_Type b = DDeleted"
      by (auto simp: isDeletionDup_def split: if_splits delta_obj.splits)
    then show thesis using that(2) [of xs b out] dedupDeltas_snoc [of xs b a] snoc Some by simp
  qed
qed

lemma dedupDeltas_keeps: "d_Type a \<noteq> DDeleted \<Longrightarrow> dedupDeltas (ds @ [a]) = ds @ [a]"
  by (rule dedupDeltas_cases [of ds a]) auto

lemma dedupDeltas_effect: "fold delta_effect (dedupDeltas (ds @ [a])) x = delta_effect a (fold delta_effect ds x)"
  by (rule dedupDeltas_cases [of ds a]) auto

lemma dedupDeltas_ok:
  "list_all (delta_ok key) ds \<Longrightarrow> delta_ok key a \<Longrightarrow> list_all (delta_ok key) (dedupDeltas (ds @ [a])) \<and> dedupDeltas (ds @ [a]) \<noteq> []"
  by (rule dedupDeltas_cases [of ds a]) auto

section \<open>Queueing a change\<close>

lemma queueAction_Ok:
  assumes "KeyOf x = Ok key" "df_inv f" "\<not> (t = DSync \<and> willObjectBeDeletedLocked f key)"
    and "t \<noteq> DDeleted \<Longrightarrow> \<exists>y. x = Live y"
  shows "snd (queueActionLocked t x f) = Ok ()" "df_inv (fst (queueActionLocked t x f))"
    "deltas_of (fst (queueActionLocked t x f)) = (deltas_of f)(key := dedupDeltas (deltas_of f key @ [\<lparr>d_Type = t, d_Object = x\<rparr>]))"
    "pending (fst (queueActionLocked t x f)) m = (pending f m)(key := delta_effect \<lparr>d_Type = t, d_Object = x\<rparr> (pending f m key))"
proof -
  let ?d = "\<lparr>d_Type = t, d_Object = x\<rparr>"
  let ?new = "dedupDeltas (deltas_of f key @ [?d])"
  have d: "delta_ok key ?d" using assms(1,4) by (simp add: delta_ok_def)
  have "list_all (delta_ok key) (deltas_of f key)"
    using assms(2) by (auto simp: df_inv_def deltas_of_def split: option.split)
  from dedupDeltas_ok [OF this d] have new: "list_all (delta_ok key) ?new" "?new \<noteq> []" by auto
  have q: "queueActionLocked t x f =
      (f\<lparr>df_queue := (if map_of (df_items f) key \<noteq> None then df_queue f else df_queue f @ [key]),
         df_items := AList.update key ?new (df_items f)\<rparr>, Ok ())"
    unfolding queueActionLocked_def assms(1) using assms(3) new(2) by (auto simp: Let_def)
  then show "snd (queueActionLocked t x f) = Ok ()" by simp
  show "df_inv (fst (queueActionLocked t x f))"
    using assms(2) new by (auto simp: q df_inv_def dom_def split: if_splits)
  show of: "deltas_of (fst (queueActionLocked t x f)) = (deltas_of f)(key := ?new)"
    by (auto simp: q deltas_of_def fun_eq_iff)
  show "pending (fst (queueActionLocked t x f)) m = (pending f m)(key := delta_effect ?d (pending f m key))"
    using dedupDeltas_effect [of "deltas_of f key" ?d "m key"] by (auto simp: pending_def of fun_eq_iff)
qed

lemma df_inv_new: "df_inv NewDeltaFIFO" and pending_new: "pending NewDeltaFIFO m = m"
  by (simp_all add: df_inv_def NewDeltaFIFO_def pending_def deltas_of_def fun_eq_iff)

lemma df_inv_flags [simp]:
  "df_inv (f\<lparr>df_populated := b\<rparr>) = df_inv f" "df_inv (f\<lparr>df_initialPopulationCount := n\<rparr>) = df_inv f"
  "pending (f\<lparr>df_populated := b\<rparr>) = pending f" "pending (f\<lparr>df_initialPopulationCount := n\<rparr>) = pending f"
  "deltas_of (f\<lparr>df_populated := b\<rparr>) = deltas_of f"
  by (simp_all add: df_inv_def pending_def deltas_of_def fun_eq_iff)

text \<open>The operations of the watch loop.\<close>

lemma KeyOf_Live: "obj_key x = Some key \<Longrightarrow> KeyOf (Live x) = Ok key"
  by (simp add: KeyOf_def obj_key_def split: outcome.splits)

lemma df_put:
  assumes "obj_key x = Some key" "df_inv f"
  shows "snd (df_Add x f) = Ok () \<and> df_inv (fst (df_Add x f)) \<and> pending (fst (df_Add x f)) m = (pending f m)(key \<mapsto> x) \<and>
      deltas_of (fst (df_Add x f)) = (deltas_of f)(key := dedupDeltas (deltas_of f key @ [\<lparr>d_Type = DAdded, d_Object = Live x\<rparr>]))"
    "snd (df_Update x f) = Ok () \<and> df_inv (fst (df_Update x f)) \<and> pending (fst (df_Update x f)) m = (pending f m)(key \<mapsto> x) \<and>
      deltas_of (fst (df_Update x f)) = (deltas_of f)(key := dedupDeltas (deltas_of f key @ [\<lparr>d_Type = DUpdated, d_Object = Live x\<rparr>]))"
  using queueAction_Ok [OF KeyOf_Live [OF assms(1)], of "f\<lparr>df_populated := True\<rparr>"] assms(2)
  by (simp_all add: df_Add_def df_Update_def)

lemma df_Delete_effect:
  assumes "obj_key x = Some key" "df_inv f"
  shows "snd (df_Delete known x f) = Ok ()" "df_inv (fst (df_Delete known x f))"
    "pending (fst (df_Delete known x f)) (map_of known) = (pending f (map_of known))(key := None)"
    "pending f (map_of known) key \<noteq> None \<Longrightarrow> deltas_of (fst (df_Delete known x f)) =
       (deltas_of f)(key := dedupDeltas (deltas_of f key @ [\<lparr>d_Type = DDeleted, d_Object = Live x\<rparr>]))"
proof -
  note k = KeyOf_Live [OF assms(1)]
  note q = queueAction_Ok [OF k, of "f\<lparr>df_populated := True\<rparr>" DDeleted]
  show "snd (df_Delete known x f) = Ok ()" "df_inv (fst (df_Delete known x f))"
    using q assms(2) by (simp_all add: df_Delete_def k Let_def)
  have no: "pending f (map_of known) key = None" if "map_of known key = None" "map_of (df_items f) key = None"
    using that by (simp add: pending_def deltas_of_def)
  then show "pending (fst (df_Delete known x f)) (map_of known) = (pending f (map_of known))(key := None)"
    using q assms(2) by (auto simp: df_Delete_def k Let_def fun_eq_iff)
  show "deltas_of (fst (df_Delete known x f)) =
       (deltas_of f)(key := dedupDeltas (deltas_of f key @ [\<lparr>d_Type = DDeleted, d_Object = Live x\<rparr>]))"
    if "pending f (map_of known) key \<noteq> None"
    using q assms(2) no that by (auto simp: df_Delete_def k Let_def)
qed

text \<open>A pop takes the first key with all its changes, in the order they came.\<close>

lemma df_Pop_head:
  assumes "df_inv f" "df_queue f = key # q"
  shows "\<exists>f'. df_Pop f = (f', Some (deltas_of f key)) \<and> df_inv f' \<and> df_queue f' = q \<and> deltas_of f' = (deltas_of f)(key := []) \<and>
    deltas_of f key \<noteq> [] \<and> list_all (delta_ok key) (deltas_of f key)"
proof -
  have "key \<in> dom (map_of (df_items f))" using assms by (auto simp: df_inv_def)
  then obtain ds where ds: "map_of (df_items f) key = Some ds" by blast
  with assms(1) have ok: "ds \<noteq> []" "list_all (delta_ok key) ds" by (auto simp: df_inv_def)
  have of: "deltas_of f key = ds" using ds by (simp add: deltas_of_def)
  let ?f = "f\<lparr>df_queue := q, df_initialPopulationCount := (if df_initialPopulationCount f > 0 then df_initialPopulationCount f - 1
      else df_initialPopulationCount f), df_items := AList.delete key (df_items f)\<rparr>"
  have "df_Pop f = (?f, Some ds)" using assms(2) ds by (simp add: df_Pop_def Let_def)
  moreover have "dom (map_of (AList.delete key (df_items f))) = set q" "distinct q"
    using assms by (auto simp: df_inv_def)
  then have "df_inv ?f" using assms(1) by (simp add: df_inv_def)
  moreover have "deltas_of ?f = (deltas_of f)(key := [])" by (simp add: deltas_of_def fun_eq_iff)
  ultimately show ?thesis using ok of by auto
qed

text \<open>The first list fills the queue with one synchronisation for every object.\<close>

definition synced :: "obj list \<Rightarrow> delta_fifo \<Rightarrow> bool" where
  "synced xs f =
     (\<forall>key. deltas_of f key = [] \<or> (\<exists>x \<in> set xs. obj_key x = Some key \<and> deltas_of f key = [\<lparr>d_Type = DSync, d_Object = Live x\<rparr>]))"

definition put_obj :: "obj \<Rightarrow> (string \<Rightarrow> obj option) \<Rightarrow> string \<Rightarrow> obj option" where
  "put_obj x m = (case obj_key x of None \<Rightarrow> m | Some key \<Rightarrow> m(key \<mapsto> x))"

lemma synced_new: "synced [] NewDeltaFIFO"
  by (simp add: synced_def NewDeltaFIFO_def deltas_of_def)

lemma replace_sync_Ok:
  assumes "list_all (\<lambda>x. obj_key x \<noteq> None) xs" "distinct (map obj_key (ys @ xs))" "df_inv f" "synced ys f"
  shows "\<exists>f' ks. replace_sync xs keys f = (f', Ok ks) \<and> df_inv f' \<and> synced (ys @ xs) f' \<and>
    df_populated f' = df_populated f \<and> pending f' m = fold put_obj xs (pending f m)"
  using assms
proof (induction xs arbitrary: ys keys f)
  case (Cons x xs)
  then obtain key where key: "obj_key x = Some key" by auto
  let ?q = "queueActionLocked DSync (Live x) f"
  have none: "deltas_of f key = []" using Cons.prems(2,4) key by (fastforce simp: synced_def image_iff)
  then have q: "snd ?q = Ok ()" "df_inv (fst ?q)" "deltas_of (fst ?q) = (deltas_of f)(key := [\<lparr>d_Type = DSync, d_Object = Live x\<rparr>])"
      "pending (fst ?q) m = (pending f m)(key \<mapsto> x)"
    using queueAction_Ok [OF KeyOf_Live [OF key] Cons.prems(3), of DSync] by (simp_all add: willObjectBeDeletedLocked_def dedupDeltas_def)
  have "synced (ys @ [x]) (fst ?q)" using Cons.prems(4) key by (auto simp: synced_def q(3))
  moreover have "df_populated (fst ?q) = df_populated f"
    by (simp add: queueActionLocked_def Let_def KeyOf_Live [OF key])
  ultimately show ?case
    using Cons.IH [of "ys @ [x]" "fst ?q" "key # keys"] Cons.prems(1,2) q key
    by (cases ?q) (simp add: KeyOf_Live [OF key] put_obj_def [of x])
qed simp

lemma df_Replace_first:
  assumes "list_all (\<lambda>x. obj_key x \<noteq> None) xs" "distinct (map obj_key xs)"
  shows "snd (df_Replace [] xs NewDeltaFIFO) = Ok ()" "df_inv (fst (df_Replace [] xs NewDeltaFIFO))"
    "synced xs (fst (df_Replace [] xs NewDeltaFIFO))"
    "pending (fst (df_Replace [] xs NewDeltaFIFO)) m = fold put_obj xs m"
  using replace_sync_Ok [OF assms(1) _ df_inv_new synced_new, of "[]" m] assms(2)
  by (auto simp: df_Replace_def pending_new) (auto simp: synced_def deltas_of_def)

text \<open>
  A later list only deletes objects that the informer knows: one that is still queued as added stays,
  although it is not listed any more.
\<close>

lemma relist_keeps_queued:
  "let x = PodO (empty_pod\<lparr>pod_meta := empty_meta\<lparr>om_Name := ''p''\<rparr>\<rparr>);
       f = fst (df_Replace [] [] (fst (df_Add x NewDeltaFIFO)))
   in pending f Map.empty ''p'' = Some x"
  by code_simp

end
