(* ===== verification/Informer.thy ===== *)
theory Informer
  imports Delta_FIFO Watch_Mirror Sched_View
begin

text \<open>
  How the scheduler learns of pods.  A reflector (\<open>client-go/tools/cache/reflector.go\<close>) puts the
  events of a watch into a queue of changes; the informer (\<open>shared_informer.go\<close>) takes the changes of
  one pod at a time, keeps its own copy of the objects and notifies its listeners, each of which works off
  its notifications in order in a goroutine of its own.  The listeners of the scheduler
  (\<open>scheduler/factory/factory.go\<close>) are filtered (\<open>controller.go\<close>): assigned pods go to the
  scheduler's cache, unassigned ones to its queue.  Periodic resynchronisation is off, as in the simulator,
  so every listener gets every notification; the equivalence cache and the volume binder are off too.

  Shown: the informer catches up with the log of the watch; no notification finds the cache corrupted; once
  the informer has caught up, the confirmed pods of the cache are the assigned pods of the log; and the
  queue hands out unassigned pods only.
\<close>

section \<open>The reflector\<close>

text \<open>
  One event of the watch of pods.  Events of another type and objects that are not pods are logged and
  skipped; an event of type \<open>ERROR\<close> ends the watch and is not one of the log.
\<close>

definition is_pod :: "obj \<Rightarrow> bool" where
  "is_pod x = (case x of PodO _ \<Rightarrow> True | _ \<Rightarrow> False)"

definition watchHandler :: "cache_store \<Rightarrow> watch_event \<Rightarrow> delta_fifo \<Rightarrow> delta_fifo \<times> unit outcome" where
  "watchHandler indexer ev f =
     (if \<not> is_pod (snd ev) then (f, Ok ())
      else if fst ev = ''ADDED'' then df_Add (snd ev) f
      else if fst ev = ''MODIFIED'' then df_Update (snd ev) f
      else if fst ev = ''DELETED'' then df_Delete indexer (snd ev) f
      else (f, Ok ()))"

section \<open>The informer\<close>

datatype notification = NAdd obj | NUpdate obj obj | NDelete delta_obj

definition indexer_Delete :: "cache_store \<Rightarrow> delta_obj \<Rightarrow> cache_store \<times> unit outcome" where
  "indexer_Delete c x =
     (case x of
        Live o' \<Rightarrow> cache_Delete c o'
      | DeletedFinalStateUnknown key _ \<Rightarrow> (if map_of c key \<noteq> None then AList.delete key c else c, Ok ()))"

text \<open>Only a deletion carries \<open>DeletedFinalStateUnknown\<close> (\<open>delta_ok\<close>).\<close>

fun HandleDeltas :: "delta list \<Rightarrow> cache_store \<Rightarrow> notification list \<Rightarrow> (cache_store \<times> notification list) \<times> unit outcome" where
  "HandleDeltas [] indexer ns = ((indexer, ns), Ok ())"
| "HandleDeltas (d # ds) indexer ns =
     (case (d_Type d, d_Object d) of
        (DDeleted, x) \<Rightarrow>
          (case indexer_Delete indexer x of
             (indexer', Ok _) \<Rightarrow> HandleDeltas ds indexer' (ns @ [NDelete x])
           | (indexer', e) \<Rightarrow> ((indexer', ns), e))
      | (_, Live x) \<Rightarrow>
          (case cache_Get indexer x of
             Ok (Some old) \<Rightarrow>
               (case cache_Update indexer x of
                  (indexer', Ok _) \<Rightarrow> HandleDeltas ds indexer' (ns @ [NUpdate old x])
                | (indexer', e) \<Rightarrow> ((indexer', ns), e))
           | _ \<Rightarrow>
               (case cache_Add indexer x of
                  (indexer', Ok _) \<Rightarrow> HandleDeltas ds indexer' (ns @ [NAdd x])
                | (indexer', e) \<Rightarrow> ((indexer', ns), e)))
      | (_, DeletedFinalStateUnknown _ _) \<Rightarrow> ((indexer, ns), Panic ''unexpected tombstone''))"

section \<open>Filtered handlers\<close>

definition FilteringHandler ::
    "(obj \<Rightarrow> bool) \<Rightarrow> (obj \<Rightarrow> 'r) \<Rightarrow> (obj \<Rightarrow> obj \<Rightarrow> 'r) \<Rightarrow> (obj \<Rightarrow> 'r) \<Rightarrow> 'r \<Rightarrow> notification \<Rightarrow> 'r" where
  "FilteringHandler flt onAdd onUpdate onDelete nothing n =
     (case n of
        NAdd x \<Rightarrow> if flt x then onAdd x else nothing
      | NUpdate old new \<Rightarrow>
          if flt new \<and> flt old then onUpdate old new
          else if flt new \<and> \<not> flt old then onAdd new
          else if \<not> flt new \<and> flt old then onDelete old
          else nothing
      | NDelete (Live x) \<Rightarrow> if flt x then onDelete x else nothing
      | NDelete (DeletedFinalStateUnknown _ (Some x)) \<Rightarrow> if flt x then onDelete x else nothing
      | NDelete (DeletedFinalStateUnknown _ None) \<Rightarrow> nothing)"

definition assignedNonTerminatedPod :: "pod \<Rightarrow> bool" where
  "assignedNonTerminatedPod p =
     (if length (pod_NodeName p) = 0 then False
      else if pod_Phase p = ''Succeeded'' \<or> pod_Phase p = ''Failed'' then False
      else True)"

definition pod_filter :: "(pod \<Rightarrow> bool) \<Rightarrow> obj \<Rightarrow> bool" where
  "pod_filter P x = (case x of PodO p \<Rightarrow> P p | _ \<Rightarrow> False)"

definition as_pod :: "obj \<Rightarrow> pod" where
  "as_pod x = (case x of PodO p \<Rightarrow> p | _ \<Rightarrow> empty_pod)"

text \<open>\<open>addPodToCache\<close>, \<open>updatePodInCache\<close> and \<open>deletePodFromCache\<close>: errors are logged.\<close>

definition cache_handler :: "notification \<Rightarrow> sched_cache \<Rightarrow> sched_cache \<times> unit outcome" where
  "cache_handler n c =
     FilteringHandler (pod_filter assignedNonTerminatedPod) (\<lambda>x. sc_AddPod (as_pod x) c)
       (\<lambda>old new. sc_UpdatePod (as_pod old) (as_pod new) c) (\<lambda>x. sc_RemovePod (as_pod x) c) (c, Ok ()) n"

text \<open>The copies of pods that are compared leave the node name, the resource version and the annotations out.\<close>

definition skipPodUpdate :: "(pod \<Rightarrow> pod) \<Rightarrow> pod \<Rightarrow> sched_cache \<Rightarrow> bool" where
  "skipPodUpdate copy p c =
     (case IsAssumedPod p c of
        Ok True \<Rightarrow>
          (case GetPod p c of
             Ok assumedPod \<Rightarrow> (copy assumedPod)\<lparr>pod_NodeName := []\<rparr> = (copy p)\<lparr>pod_NodeName := []\<rparr>
           | _ \<Rightarrow> False)
      | _ \<Rightarrow> False)"

definition queue_handler :: "(pod \<Rightarrow> pod) \<Rightarrow> sched_cache \<Rightarrow> notification \<Rightarrow> fifo \<Rightarrow> fifo \<times> unit outcome" where
  "queue_handler copy c n q =
     FilteringHandler (pod_filter unassignedNonTerminatedPod) (\<lambda>x. ff_Add x q)
       (\<lambda>old new. if skipPodUpdate copy (as_pod new) c then (q, Ok ()) else ff_Update new q)
       (\<lambda>x. ff_Delete x q) (q, Ok ()) n"

section \<open>The system\<close>

record informer_sys =
  is_fifo :: delta_fifo
  is_indexer :: cache_store
  is_toCache :: "notification list"
  is_toQueue :: "notification list"
  is_cache :: sched_cache
  is_podQueue :: fifo

text \<open>The reflector lists the pods first.\<close>

definition informer_start :: "int \<Rightarrow> obj list \<Rightarrow> informer_sys" where
  "informer_start ttl xs =
     \<lparr>is_fifo = fst (df_Replace NewStore xs NewDeltaFIFO), is_indexer = NewStore, is_toCache = [], is_toQueue = [],
      is_cache = newSchedulerCache ttl, is_podQueue = NewFIFO\<rparr>"

definition informer_watch :: "watch_event \<Rightarrow> informer_sys \<Rightarrow> informer_sys" where
  "informer_watch ev s = s\<lparr>is_fifo := fst (watchHandler (is_indexer s) ev (is_fifo s))\<rparr>"

definition informer_pop :: "informer_sys \<Rightarrow> informer_sys \<times> unit outcome" where
  "informer_pop s =
     (case df_Pop (is_fifo s) of
        (f, None) \<Rightarrow> (s\<lparr>is_fifo := f\<rparr>, Ok ())
      | (f, Some ds) \<Rightarrow>
          (case HandleDeltas ds (is_indexer s) [] of
             ((indexer, ns), r) \<Rightarrow>
               (s\<lparr>is_fifo := f, is_indexer := indexer, is_toCache := is_toCache s @ ns, is_toQueue := is_toQueue s @ ns\<rparr>, r)))"

definition deliver_cache :: "informer_sys \<Rightarrow> informer_sys \<times> unit outcome" where
  "deliver_cache s =
     (case is_toCache s of
        [] \<Rightarrow> (s, Ok ())
      | n # ns \<Rightarrow>
          (case cache_handler n (is_cache s) of (c, r) \<Rightarrow> (s\<lparr>is_toCache := ns, is_cache := c\<rparr>, r)))"

definition deliver_queue :: "(pod \<Rightarrow> pod) \<Rightarrow> informer_sys \<Rightarrow> informer_sys \<times> unit outcome" where
  "deliver_queue copy s =
     (case is_toQueue s of
        [] \<Rightarrow> (s, Ok ())
      | n # ns \<Rightarrow>
          (case queue_handler copy (is_cache s) n (is_podQueue s) of (q, r) \<Rightarrow> (s\<lparr>is_toQueue := ns, is_podQueue := q\<rparr>, r)))"

text \<open>What the scheduler's own goroutines do to the cache and to the queue.\<close>

definition scheduler_op :: "cache_op \<Rightarrow> informer_sys \<Rightarrow> informer_sys" where
  "scheduler_op op s = s\<lparr>is_cache := fst (run_cache_op op (is_cache s))\<rparr>"

definition getNextPod :: "informer_sys \<Rightarrow> informer_sys \<times> obj option" where
  "getNextPod s = (case ff_Pop (is_podQueue s) of (q, r) \<Rightarrow> (s\<lparr>is_podQueue := q\<rparr>, r))"

text \<open>
  The goroutines interleave: events arrive, changes are popped, notifications are delivered, the scheduler
  works.  The log starts with the list; \<open>ok\<close> is what is known of an event when it arrives and
  \<open>good\<close> of an operation of the scheduler.
\<close>

definition replayed :: "watch_event list \<Rightarrow> string \<Rightarrow> obj option" where
  "replayed evs = map_of (fold apply_event evs [])"

inductive informer_step ::
    "((string \<Rightarrow> obj option) \<Rightarrow> watch_event \<Rightarrow> bool) \<Rightarrow> (sched_cache \<Rightarrow> cache_op \<Rightarrow> bool) \<Rightarrow>
     watch_event list \<Rightarrow> informer_sys \<Rightarrow> watch_event list \<Rightarrow> informer_sys \<Rightarrow> bool"
  for ok good where
  event: "ok (replayed evs) ev \<Longrightarrow> informer_step ok good evs s (evs @ [ev]) (informer_watch ev s)"
| pop: "informer_step ok good evs s evs (fst (informer_pop s))"
| to_cache: "informer_step ok good evs s evs (fst (deliver_cache s))"
| to_queue: "informer_step ok good evs s evs (fst (deliver_queue copy s))"
| sched: "good (is_cache s) op \<Longrightarrow> informer_step ok good evs s evs (scheduler_op op s)"
| next_pod: "informer_step ok good evs s evs (fst (getNextPod s))"

inductive informer_reach ::
    "((string \<Rightarrow> obj option) \<Rightarrow> watch_event \<Rightarrow> bool) \<Rightarrow> (sched_cache \<Rightarrow> cache_op \<Rightarrow> bool) \<Rightarrow>
     watch_event list \<Rightarrow> informer_sys \<Rightarrow> bool"
  for ok good where
  start: "list_all (\<lambda>x. ok Map.empty (''ADDED'', x)) xs \<Longrightarrow> distinct (map obj_key xs) \<Longrightarrow>
    informer_reach ok good (map (Pair ''ADDED'') xs) (informer_start ttl xs)"
| step: "informer_reach ok good evs s \<Longrightarrow> informer_step ok good evs s evs' s' \<Longrightarrow> informer_reach ok good evs' s'"

lemmas informer_moves =
  informer_reach.step [OF _ informer_step.event] informer_reach.step [OF _ informer_step.pop]
  informer_reach.step [OF _ informer_step.to_cache] informer_reach.step [OF _ informer_step.to_queue]
  informer_reach.step [OF _ informer_step.sched] informer_reach.step [OF _ informer_step.next_pod]

lemma informer_induct [consumes 1, case_names start event pop to_cache to_queue sched next_pod]:
  assumes "informer_reach ok good evs s"
    and "\<And>xs ttl. list_all (\<lambda>x. ok Map.empty (''ADDED'', x)) xs \<Longrightarrow> distinct (map obj_key xs) \<Longrightarrow>
      Q (map (Pair ''ADDED'') xs) (informer_start ttl xs)"
    and "\<And>evs s ev. informer_reach ok good evs s \<Longrightarrow> Q evs s \<Longrightarrow> ok (replayed evs) ev \<Longrightarrow> Q (evs @ [ev]) (informer_watch ev s)"
    and "\<And>evs s. informer_reach ok good evs s \<Longrightarrow> Q evs s \<Longrightarrow> Q evs (fst (informer_pop s))"
    and "\<And>evs s. informer_reach ok good evs s \<Longrightarrow> Q evs s \<Longrightarrow> Q evs (fst (deliver_cache s))"
    and "\<And>evs s copy. informer_reach ok good evs s \<Longrightarrow> Q evs s \<Longrightarrow> Q evs (fst (deliver_queue copy s))"
    and "\<And>evs s op. informer_reach ok good evs s \<Longrightarrow> Q evs s \<Longrightarrow> good (is_cache s) op \<Longrightarrow> Q evs (scheduler_op op s)"
    and "\<And>evs s. informer_reach ok good evs s \<Longrightarrow> Q evs s \<Longrightarrow> Q evs (fst (getNextPod s))"
  shows "Q evs s"
  using assms(1)
proof (induction rule: informer_reach.induct)
  case (step evs s evs' s')
  from step(2) show ?case
    by (cases rule: informer_step.cases) (use step(1,3) assms(3-) in simp_all)
qed (rule assms(2))

section \<open>Catching up\<close>

declare map_of_eq_Some_iff [simp del]

definition pod_event :: "watch_event \<Rightarrow> bool" where
  "pod_event ev = (is_pod (snd ev) \<and> fst ev \<in> {''ADDED'', ''MODIFIED'', ''DELETED''})"

lemma pod_has_key: "is_pod x \<Longrightarrow> \<exists>k. obj_key x = Some k"
  by (cases x) (auto simp: is_pod_def obj_key_def MetaNamespaceKeyFunc_def)

fun note_effect :: "notification \<Rightarrow> (string \<Rightarrow> obj option) \<Rightarrow> string \<Rightarrow> obj option" where
  "note_effect (NAdd x) m = put_obj x m"
| "note_effect (NUpdate old x) m = put_obj x m"
| "note_effect (NDelete (Live x)) m = event_effect (''DELETED'', x) m"
| "note_effect (NDelete (DeletedFinalStateUnknown key x)) m = m(key := None)"

lemma replayed_Nil: "replayed [] = Map.empty" by (simp add: replayed_def)

lemma replayed_snoc: "replayed (evs @ [ev]) = event_effect ev (replayed evs)"
  by (simp add: replayed_def apply_event_effect cache_wf_apply)

lemma event_effect_put: "t \<noteq> ''DELETED'' \<Longrightarrow> event_effect (t, x) m = put_obj x m"
  by (simp add: event_effect_def put_obj_def split: option.split)

lemma replayed_list: "replayed (map (Pair ''ADDED'') xs) = fold put_obj xs Map.empty"
  by (induction xs rule: rev_induct) (simp_all add: replayed_Nil replayed_snoc event_effect_put)

lemma watchHandler_effect:
  assumes "pod_event ev" "df_inv f"
  shows "snd (watchHandler ix ev f) = Ok ()" "df_inv (fst (watchHandler ix ev f))"
    "pending (fst (watchHandler ix ev f)) (map_of ix) = event_effect ev (pending f (map_of ix))"
proof -
  obtain t x where ev: "ev = (t, x)" by (cases ev)
  with assms(1) obtain k where k: "is_pod x" "obj_key x = Some k" using pod_has_key by (auto simp: pod_event_def)
  note ops = df_put [OF k(2) assms(2)] df_Delete_effect [OF k(2) assms(2), of ix]
  show "snd (watchHandler ix ev f) = Ok ()" "df_inv (fst (watchHandler ix ev f))"
    "pending (fst (watchHandler ix ev f)) (map_of ix) = event_effect ev (pending f (map_of ix))"
    using assms(1) k ops by (auto simp: ev pod_event_def watchHandler_def event_effect_def)
qed

text \<open>
  What the informer knows about one object is brought up to date by its changes, and the notifications
  say so to the listeners.
\<close>

lemma HandleDeltas_one:
  assumes "cache_wf ix" "delta_ok k d"
  shows "\<exists>ix' n. HandleDeltas (d # ds) ix ns = HandleDeltas ds ix' (ns @ [n]) \<and> cache_wf ix' \<and>
    map_of ix' = (map_of ix)(k := delta_effect d (map_of ix k)) \<and> note_effect n (map_of ix) = map_of ix' \<and>
    n = (case d_Object d of DeletedFinalStateUnknown _ _ \<Rightarrow> NDelete (d_Object d) | Live x \<Rightarrow>
          if d_Type d = DDeleted then NDelete (Live x) else case map_of ix k of None \<Rightarrow> NAdd x | Some old \<Rightarrow> NUpdate old x)"
proof (cases "d_Object d")
  case (Live x)
  with assms(2) have m: "MetaNamespaceKeyFunc x = Ok k" by (simp add: delta_ok_def KeyOf_def)
  then have k: "obj_key x = Some k" by (simp add: obj_key_def)
  show ?thesis
  proof (cases "d_Type d = DDeleted")
    case True
    have "cache_wf (fst (cache_Delete ix x))" "map_of (fst (cache_Delete ix x)) = (map_of ix)(k := None)"
      using assms(1) k by (simp_all add: kc.invar_del kc.get_del)
    with True Live k m show ?thesis
      by (intro exI [of _ "fst (cache_Delete ix x)"] exI [of _ "NDelete (Live x)"])
        (simp add: indexer_Delete_def event_effect_def cache_Delete_def)
  next
    case False
    let ?n = "case map_of ix k of None \<Rightarrow> NAdd x | Some old \<Rightarrow> NUpdate old x"
    have "cache_wf (AList.update k x ix)" using assms(1) k by (rule cache_wf_update)
    with False Live k m show ?thesis
      by (intro exI [of _ "AList.update k x ix"] exI [of _ ?n], cases "d_Type d")
        (auto simp: cache_Get_def cache_GetByKey_def cache_Update_def cache_Add_def put_obj_def split: option.split)
  qed
next
  case (DeletedFinalStateUnknown key x)
  with assms(2) have "key = k" "d_Type d = DDeleted" by (auto simp: delta_ok_def KeyOf_def)
  moreover have "map_of ix k = None \<Longrightarrow> map_of ix = (map_of ix)(k := None)" by (simp add: fun_upd_idem)
  ultimately show ?thesis using DeletedFinalStateUnknown cache_wf_delete [OF assms(1), of k] assms(1)
    by (intro exI [of _ "fst (indexer_Delete ix (d_Object d))"] exI [of _ "NDelete (d_Object d)"])
      (auto simp: indexer_Delete_def)
qed

declare delta_effect.simps [simp del]

text \<open>
  A change or a notification fits what was known before it: \<open>F cur new x\<close> says that \<open>x\<close> may
  bring what is known of its key from \<open>cur\<close> to \<open>new\<close>.
\<close>

type_synonym change = "obj option \<Rightarrow> obj option \<Rightarrow> obj \<Rightarrow> bool"

definition removes_known :: "change \<Rightarrow> bool" where
  "removes_known F = (\<forall>cur x. F cur None x \<longrightarrow> cur \<noteq> None)"

definition event_fits :: "change \<Rightarrow> (string \<Rightarrow> obj option) \<Rightarrow> watch_event \<Rightarrow> bool" where
  "event_fits F m ev =
     (pod_event ev \<and> F (Option.bind (obj_key (snd ev)) m) (if fst ev = ''DELETED'' then None else Some (snd ev)) (snd ev))"

fun deltas_fit :: "change \<Rightarrow> obj option \<Rightarrow> delta list \<Rightarrow> bool" where
  "deltas_fit F cur [] = True"
| "deltas_fit F cur (d # ds) =
     ((case d_Object d of DeletedFinalStateUnknown _ _ \<Rightarrow> False | Live x \<Rightarrow> F cur (delta_effect d cur) x) \<and>
      deltas_fit F (delta_effect d cur) ds)"

definition note_fits :: "change \<Rightarrow> (string \<Rightarrow> obj option) \<Rightarrow> notification \<Rightarrow> bool" where
  "note_fits F m n =
     (case n of
        NAdd x \<Rightarrow> Option.bind (obj_key x) m = None \<and> F None (Some x) x
      | NUpdate old x \<Rightarrow> Option.bind (obj_key x) m = Some old \<and> F (Some old) (Some x) x
      | NDelete (Live x) \<Rightarrow> F (Option.bind (obj_key x) m) None x
      | NDelete (DeletedFinalStateUnknown _ _) \<Rightarrow> False)"

fun notes_fit :: "change \<Rightarrow> (string \<Rightarrow> obj option) \<Rightarrow> notification list \<Rightarrow> bool" where
  "notes_fit F m [] = True"
| "notes_fit F m (n # ns) = (note_fits F m n \<and> notes_fit F (note_effect n m) ns)"

lemma notes_fit_append: "notes_fit F m (ns @ ns') \<longleftrightarrow> notes_fit F m ns \<and> notes_fit F (fold note_effect ns m) ns'"
  by (induction ns arbitrary: m) auto

lemma deltas_fit_snoc: "deltas_fit F cur (ds @ [d]) \<longleftrightarrow> deltas_fit F cur ds \<and> deltas_fit F (fold delta_effect ds cur) [d]"
  by (induction ds arbitrary: cur) (auto split: delta_obj.splits)

lemma HandleDeltas_effect:
  assumes "cache_wf ix" "list_all (delta_ok k) ds"
  shows "\<exists>ix' ns'. HandleDeltas ds ix ns = ((ix', ns @ ns'), Ok ()) \<and> cache_wf ix' \<and>
    map_of ix' = (map_of ix)(k := fold delta_effect ds (map_of ix k)) \<and> fold note_effect ns' (map_of ix) = map_of ix' \<and>
    (\<forall>F. deltas_fit F (map_of ix k) ds \<longrightarrow> notes_fit F (map_of ix) ns')"
  using assms
proof (induction ds arbitrary: ix ns)
  case Nil
  then show ?case by (intro exI [of _ ix] exI [of _ "[]"]) simp
next
  case (Cons d ds)
  from HandleDeltas_one [of ix k d ds ns] Cons.prems obtain ix1 n where
    1: "HandleDeltas (d # ds) ix ns = HandleDeltas ds ix1 (ns @ [n])" "cache_wf ix1"
      "map_of ix1 = (map_of ix)(k := delta_effect d (map_of ix k))" "note_effect n (map_of ix) = map_of ix1"
      "n = (case d_Object d of DeletedFinalStateUnknown _ _ \<Rightarrow> NDelete (d_Object d) | Live x \<Rightarrow>
          if d_Type d = DDeleted then NDelete (Live x) else case map_of ix k of None \<Rightarrow> NAdd x | Some old \<Rightarrow> NUpdate old x)"
    by auto
  have "list_all (delta_ok k) ds" using Cons.prems(2) by simp
  from Cons.IH [OF 1(2) this, of "ns @ [n]"] obtain ix' ns' where
    2: "HandleDeltas ds ix1 (ns @ [n]) = ((ix', (ns @ [n]) @ ns'), Ok ())" "cache_wf ix'"
      "map_of ix' = (map_of ix1)(k := fold delta_effect ds (map_of ix1 k))" "fold note_effect ns' (map_of ix1) = map_of ix'"
      "\<forall>F. deltas_fit F (map_of ix1 k) ds \<longrightarrow> notes_fit F (map_of ix1) ns'"
    by blast
  have "d_Object d = Live x \<Longrightarrow> obj_key x = Some k" for x
    using Cons.prems(2) by (auto simp: delta_ok_def KeyOf_def obj_key_def)
  then have "note_fits F (map_of ix) n" if "deltas_fit F (map_of ix k) (d # ds)" for F
    using that by (auto simp: note_fits_def 1(5) delta_effect.simps split: delta_obj.splits option.split)
  then have "\<forall>F. deltas_fit F (map_of ix k) (d # ds) \<longrightarrow> notes_fit F (map_of ix) (n # ns')"
    using 1(3,4) 2(5) by (auto simp: delta_effect.simps)
  then show ?case
    using 1 2 by (intro exI [of _ ix'] exI [of _ "n # ns'"]) simp
qed

definition informer_inv :: "watch_event list \<Rightarrow> informer_sys \<Rightarrow> bool" where
  "informer_inv evs s =
     (df_inv (is_fifo s) \<and> cache_wf (is_indexer s) \<and> pending (is_fifo s) (map_of (is_indexer s)) = replayed evs)"

text \<open>A pop of a queue that is not empty, in full.\<close>

lemma informer_pop_effect:
  assumes "df_inv (is_fifo s)" "cache_wf (is_indexer s)" "df_queue (is_fifo s) = k # q"
  shows "\<exists>f ix ns. informer_pop s = (s\<lparr>is_fifo := f, is_indexer := ix, is_toCache := is_toCache s @ ns, is_toQueue := is_toQueue s @ ns\<rparr>, Ok ()) \<and>
    df_inv f \<and> df_queue f = q \<and> cache_wf ix \<and> deltas_of f = (deltas_of (is_fifo s))(k := []) \<and>
    map_of ix = (map_of (is_indexer s))(k := pending (is_fifo s) (map_of (is_indexer s)) k) \<and>
    fold note_effect ns (map_of (is_indexer s)) = map_of ix \<and>
    (\<forall>F. deltas_fit F (map_of (is_indexer s) k) (deltas_of (is_fifo s) k) \<longrightarrow> notes_fit F (map_of (is_indexer s)) ns)"
proof -
  from df_Pop_head [OF assms(1,3)] obtain f where
    f: "df_Pop (is_fifo s) = (f, Some (deltas_of (is_fifo s) k))" "df_inv f" "df_queue f = q"
      "deltas_of f = (deltas_of (is_fifo s))(k := [])" "list_all (delta_ok k) (deltas_of (is_fifo s) k)" by blast
  from HandleDeltas_effect [OF assms(2) f(5), of "[]"] obtain ix ns where
    ix: "HandleDeltas (deltas_of (is_fifo s) k) (is_indexer s) [] = ((ix, ns), Ok ())" "cache_wf ix"
      "map_of ix = (map_of (is_indexer s))(k := pending (is_fifo s) (map_of (is_indexer s)) k)"
      "fold note_effect ns (map_of (is_indexer s)) = map_of ix"
      "\<forall>F. deltas_fit F (map_of (is_indexer s) k) (deltas_of (is_fifo s) k) \<longrightarrow> notes_fit F (map_of (is_indexer s)) ns"
    unfolding pending_def by auto
  then show ?thesis
    using f by (intro exI [of _ f] exI [of _ ix] exI [of _ ns]) (simp add: informer_pop_def)
qed

lemma informer_pop_empty: "df_queue (is_fifo s) = [] \<Longrightarrow> informer_pop s = (s, Ok ())"
  by (simp add: informer_pop_def df_Pop_def)

lemma informer_inv_pop:
  assumes "informer_inv evs s"
  shows "informer_inv evs (fst (informer_pop s))"
proof (cases "df_queue (is_fifo s)")
  case Nil
  with assms show ?thesis by (simp add: informer_pop_empty)
next
  case (Cons k q)
  with assms informer_pop_effect [of s k q] show ?thesis
    by (auto simp: informer_inv_def pending_def fun_eq_iff)
qed

lemma deliver_simps [simp]:
  "is_fifo (fst (deliver_cache s)) = is_fifo s" "is_indexer (fst (deliver_cache s)) = is_indexer s"
  "is_fifo (fst (deliver_queue copy s)) = is_fifo s" "is_indexer (fst (deliver_queue copy s)) = is_indexer s"
  "is_fifo (scheduler_op op s) = is_fifo s" "is_indexer (scheduler_op op s) = is_indexer s"
  "is_fifo (fst (getNextPod s)) = is_fifo s" "is_indexer (fst (getNextPod s)) = is_indexer s"
  by (auto simp: deliver_cache_def deliver_queue_def scheduler_op_def getNextPod_def split: list.split prod.split)

lemma informer_reach_inv:
  assumes "informer_reach ok good evs s" "\<And>m ev. ok m ev \<Longrightarrow> pod_event ev"
  shows "informer_inv evs s"
  using assms(1)
proof (induction rule: informer_induct)
  case (start xs ttl)
  have "list_all (\<lambda>x. obj_key x \<noteq> None) xs"
    using start(1) assms(2) pod_has_key by (fastforce simp: list_all_iff pod_event_def)
  from df_Replace_first [OF this start(2)] show ?case by (simp add: informer_inv_def informer_start_def NewStore_def replayed_list)
next
  case (event evs s ev)
  then show ?case
    using watchHandler_effect [OF assms(2), of "replayed evs" ev "is_fifo s" "is_indexer s"]
    by (simp add: informer_inv_def informer_watch_def replayed_snoc)
qed (simp_all add: informer_inv_pop, simp_all add: informer_inv_def)

lemma caught_up:
  assumes "informer_inv evs s" "df_queue (is_fifo s) = []"
  shows "map_of (is_indexer s) = replayed evs"
proof -
  have "deltas_of (is_fifo s) k = []" for k
    using assms by (auto simp: informer_inv_def df_inv_def deltas_of_def split: option.split)
  with assms(1) show ?thesis by (simp add: informer_inv_def pending_def fun_eq_iff)
qed

text \<open>
  C15: however events, pops, deliveries and the scheduler interleave, the informer loses nothing: its
  copy of the pods with the queued changes applied is the replay of the log of the watch.  Every pop of a
  queue that is not empty succeeds and shortens the queue, and once the queue is empty the copy is the
  replay.
\<close>

theorem informer_catches_up:
  assumes "informer_reach ok good evs s" "\<forall>m ev. ok m ev \<longrightarrow> pod_event ev"
  shows "pending (is_fifo s) (map_of (is_indexer s)) = replayed evs \<and>
    (df_queue (is_fifo s) = [] \<longrightarrow> map_of (is_indexer s) = replayed evs) \<and>
    (df_queue (is_fifo s) \<noteq> [] \<longrightarrow> snd (informer_pop s) = Ok () \<and>
       length (df_queue (is_fifo (fst (informer_pop s)))) < length (df_queue (is_fifo s)))"
proof -
  from informer_reach_inv [OF assms(1)] assms(2) have inv: "informer_inv evs s" by blast
  then have wf: "df_inv (is_fifo s)" "cache_wf (is_indexer s)" "pending (is_fifo s) (map_of (is_indexer s)) = replayed evs"
    by (auto simp: informer_inv_def)
  moreover have "snd (informer_pop s) = Ok () \<and> length (df_queue (is_fifo (fst (informer_pop s)))) < length (df_queue (is_fifo s))"
    if "df_queue (is_fifo s) = k # q" for k q
    using informer_pop_effect [OF wf(1,2) that] that by auto
  ultimately show ?thesis using caught_up [OF inv] by (cases "df_queue (is_fifo s)") auto
qed

text \<open>A pod that is listed unassigned and then assigned.\<close>

definition demo_waiting :: pod where
  "demo_waiting = empty_pod\<lparr>pod_meta := empty_meta\<lparr>om_Name := ''p'', om_UID := ''p''\<rparr>\<rparr>"

definition demo_bound :: pod where
  "demo_bound = demo_waiting\<lparr>pod_NodeName := ''n''\<rparr>"

theorem informer_catches_up_witness:
  "let s = informer_watch (''MODIFIED'', PodO demo_bound) (informer_start 30 [PodO demo_waiting]);
       s' = fst (informer_pop s)
   in df_queue (is_fifo s) = [''p''] \<and> snd (informer_pop s) = Ok () \<and> df_queue (is_fifo s') = [] \<and>
      map_of (is_indexer s') = replayed [(''ADDED'', PodO demo_waiting), (''MODIFIED'', PodO demo_bound)]"
proof -
  let ?ok = "\<lambda>m ev. pod_event ev" and ?good = "\<lambda>_ _. True"
  let ?s = "informer_watch (''MODIFIED'', PodO demo_bound) (informer_start 30 [PodO demo_waiting])"
  let ?evs = "[(''ADDED'', PodO demo_waiting), (''MODIFIED'', PodO demo_bound)]"
  have "informer_reach ?ok ?good (map (Pair ''ADDED'') [PodO demo_waiting] @ [(''MODIFIED'', PodO demo_bound)]) ?s"
    by (intro informer_moves informer_reach.start) (simp_all add: pod_event_def is_pod_def)
  then have reach: "informer_reach ?ok ?good ?evs ?s" by simp
  have q: "df_queue (is_fifo ?s) = [''p'']" by code_simp
  have q': "df_queue (is_fifo (fst (informer_pop ?s))) = []" by code_simp
  show ?thesis
    using informer_catches_up [OF reach] informer_catches_up [OF informer_moves(2) [OF reach]] q q' by (simp add: Let_def)
qed

section \<open>The cache\<close>

text \<open>
  Pods are identified: a key belongs to one pod with identifier \<open>U\<close>, which runs on node
  \<open>N\<close> and requests \<open>R\<close>.  An event that deletes a pod carries its last state.
\<close>

definition identified_pod :: "(string \<Rightarrow> string) \<Rightarrow> (string \<Rightarrow> string) \<Rightarrow> (string \<Rightarrow> string \<Rightarrow> int) \<Rightarrow> obj \<Rightarrow> bool" where
  "identified_pod U N R x =
     (case (x, obj_key x) of
        (PodO p, Some k) \<Rightarrow> getPodKey p = Ok (U k) \<and> (assignedNonTerminatedPod p \<longrightarrow> pod_NodeName p = N k) \<and> steady R p
      | _ \<Rightarrow> False)"

definition identified_change :: "(string \<Rightarrow> string) \<Rightarrow> (string \<Rightarrow> string) \<Rightarrow> (string \<Rightarrow> string \<Rightarrow> int) \<Rightarrow> change" where
  "identified_change U N R cur new x = (identified_pod U N R x \<and> (new = None \<longrightarrow> cur = Some x))"

lemma identifiedD:
  assumes "identified_pod U N R (PodO p)" "obj_key (PodO p) = Some k"
  shows "getPodKey p = Ok (U k)" "steady R p" "assignedNonTerminatedPod p \<Longrightarrow> pod_NodeName p = N k"
  using assms unfolding identified_pod_def assms(2) by simp_all

text \<open>The scheduler itself never confirms, updates or removes a pod.\<close>

definition scheduler_own :: "(string \<Rightarrow> string \<Rightarrow> int) \<Rightarrow> cache_op \<Rightarrow> bool" where
  "scheduler_own R op =
     ((case op of OpAdd _ \<Rightarrow> False | OpUpdate _ _ \<Rightarrow> False | OpRemove _ \<Rightarrow> False | _ \<Rightarrow> True) \<and> list_all (steady R) (op_pods op))"

text \<open>The node an assigned pod runs on, and the agreement of the cache with it.\<close>

definition host_of :: "(string \<Rightarrow> obj option) \<Rightarrow> string \<Rightarrow> string option" where
  "host_of m k = (case m k of Some (PodO p) \<Rightarrow> if assignedNonTerminatedPod p then Some (pod_NodeName p) else None | _ \<Rightarrow> None)"

lemma host_of_iff:
  "host_of m k = Some h \<longleftrightarrow> (\<exists>p. m k = Some (PodO p) \<and> assignedNonTerminatedPod p \<and> pod_NodeName p = h)"
  by (auto simp: host_of_def split: option.split obj.split)

definition agrees :: "(string \<Rightarrow> string) \<Rightarrow> (string \<Rightarrow> obj option) \<Rightarrow> sched_cache \<Rightarrow> bool" where
  "agrees U m c = (\<forall>u h. life c u = Added h \<longleftrightarrow> (\<exists>k. u = U k \<and> host_of m k = Some h))"

lemma agrees_new: "agrees U Map.empty (newSchedulerCache ttl)"
  by (simp add: agrees_def host_of_iff life_def newSchedulerCache_def)

lemma agrees_upd:
  assumes "inj U" "agrees U m c" "life c' = (life c)(U k := l)" "host_of m' = (host_of m)(k := a)"
    and "\<And>h. l = Added h \<longleftrightarrow> a = Some h"
  shows "agrees U m' c'"
  using assms(2,5) by (auto simp: agrees_def assms(3,4) inj_eq [OF assms(1)])

lemma agrees_same: "agrees U m c \<Longrightarrow> host_of m' = host_of m \<Longrightarrow> agrees U m' c"
  by (simp add: agrees_def)

lemma agreesD: "inj U \<Longrightarrow> agrees U m c \<Longrightarrow> life c (U k) = Added h \<longleftrightarrow> host_of m k = Some h"
  by (auto simp: agrees_def inj_eq)

text \<open>What the scheduler does keeps the confirmed pods.\<close>

lemma scheduler_own_keeps:
  assumes "sc_inv R c" "scheduler_own R op"
  shows "sc_inv R (fst (run_cache_op op c))" "life (fst (run_cache_op op c)) u = Added h \<longleftrightarrow> life c u = Added h"
proof -
  have key: "same_key op" using assms(2) by (cases op) (simp_all add: scheduler_own_def)
  show "sc_inv R (fst (run_cache_op op c))"
    using assms key by (simp add: run_cache_op_inv scheduler_own_def)
  show "life (fst (run_cache_op op c)) u = Added h \<longleftrightarrow> life c u = Added h"
  proof (cases "cache_event op")
    case None
    have "is_assumed c u \<Longrightarrow> life c u \<noteq> Added h" by (simp add: life_def split: option.split)
    with None show ?thesis
      using finishBinding_keeps(2) [OF assms(1)] cleanupAssumedPods_expires(3) [OF assms(1)]
      by (cases op) (auto simp: life_def is_assumed_def sc_AddNode_def sc_UpdateNode_def sc_RemoveNode_def split: option.split)
  next
    case (Some pe)
    then obtain p e where pe: "cache_event op = Some (p, e)" by (cases pe) auto
    show ?thesis
    proof (cases "getPodKey p")
      case (Ok k)
      show ?thesis
      proof (cases "op_agrees op (life c k)")
        case True
        have "follows R c k e (run_cache_op op c)"
          using op_follows [OF assms(1) pe Ok _ key True] assms(2) by (simp add: scheduler_own_def)
        then show ?thesis
          using pe assms(2) by (cases op; cases "life c k") (auto simp: follows_def scheduler_own_def split: if_splits)
      next
        case False
        from op_disagrees [OF assms(1) pe Ok key this] show ?thesis by simp
      qed
    qed (use no_key_unchanged [OF pe, of c] in \<open>simp_all add: is_ok_def\<close>)
  qed
qed

text \<open>The three handlers.\<close>

lemma cache_add_agrees:
  assumes "inj U" "agrees U m c" "sc_inv R c" "identified_pod U N R (PodO p)" "obj_key (PodO p) = Some k"
    and "host_of m k = None" "host_of m' = (host_of m)(k \<mapsto> pod_NodeName p)"
  shows "snd (sc_AddPod p c) = Ok () \<and> sc_inv R (fst (sc_AddPod p c)) \<and> agrees U m' (fst (sc_AddPod p c))"
proof -
  have f: "follows R c (U k) (LAdd (pod_NodeName p)) (sc_AddPod p c)"
    using sc_AddPod_follows [OF assms(3)] identifiedD [OF assms(4,5)] by simp
  have "life c (U k) \<noteq> Added h" for h using agreesD [OF assms(1,2)] assms(6) by simp
  then have "life_step (LAdd (pod_NodeName p)) (life c (U k)) = Some (Added (pod_NodeName p))"
    by (cases "life c (U k)") auto
  with f have "snd (sc_AddPod p c) = Ok ()" "sc_inv R (fst (sc_AddPod p c))"
      "life (fst (sc_AddPod p c)) = (life c)(U k := Added (pod_NodeName p))" by (simp_all add: follows_def)
  then show ?thesis using agrees_upd [OF assms(1,2) _ assms(7)] by auto
qed

lemma cache_update_agrees:
  assumes "inj U" "agrees U m c" "sc_inv R c" "identified_pod U N R (PodO p)" "obj_key (PodO p) = Some k"
    and "identified_pod U N R (PodO q)" "obj_key (PodO q) = Some k"
    and "assignedNonTerminatedPod p" "assignedNonTerminatedPod q" "host_of m k = Some (pod_NodeName p)" "host_of m' = host_of m"
  shows "snd (sc_UpdatePod p q c) = Ok () \<and> sc_inv R (fst (sc_UpdatePod p q c)) \<and> agrees U m' (fst (sc_UpdatePod p q c))"
proof -
  note p = identifiedD [OF assms(4,5)] and q = identifiedD [OF assms(6,7)]
  have l: "life c (U k) = Added (pod_NodeName p)" using agreesD [OF assms(1,2)] assms(10) by simp
  have "follows R c (U k) LUpdate (run_cache_op (OpUpdate p q) c)"
    by (rule op_follows [OF assms(3) _ p(1)]) (use p q assms(8,9) l in simp_all)
  with l have "snd (sc_UpdatePod p q c) = Ok ()" "sc_inv R (fst (sc_UpdatePod p q c))" "life (fst (sc_UpdatePod p q c)) = life c"
    by (simp_all add: follows_def fun_upd_idem)
  then show ?thesis using assms(2,11) by (simp add: agrees_def)
qed

lemma cache_remove_agrees:
  assumes "inj U" "agrees U m c" "sc_inv R c" "identified_pod U N R (PodO p)" "obj_key (PodO p) = Some k"
    and "assignedNonTerminatedPod p" "host_of m k = Some (pod_NodeName p)" "host_of m' = (host_of m)(k := None)"
  shows "snd (sc_RemovePod p c) = Ok () \<and> sc_inv R (fst (sc_RemovePod p c)) \<and> agrees U m' (fst (sc_RemovePod p c))"
proof -
  note p = identifiedD [OF assms(4,5)]
  have l: "life c (U k) = Added (pod_NodeName p)" using agreesD [OF assms(1,2)] assms(7) by simp
  have "follows R c (U k) LRemove (run_cache_op (OpRemove p) c)"
    by (rule op_follows [OF assms(3) _ p(1)]) (use p l in simp_all)
  with l have "snd (sc_RemovePod p c) = Ok ()" "sc_inv R (fst (sc_RemovePod p c))" "life (fst (sc_RemovePod p c)) = (life c)(U k := Absent)"
    by (simp_all add: follows_def)
  then show ?thesis using agrees_upd [OF assms(1,2) _ assms(8)] by auto
qed

text \<open>What the listener has been told so far.\<close>

definition known_ok :: "change \<Rightarrow> (string \<Rightarrow> obj option) \<Rightarrow> bool" where
  "known_ok F m = (\<forall>k x. m k = Some x \<longrightarrow> (\<exists>cur new. F cur new x) \<and> obj_key x = Some k)"

lemma known_ok_note: "known_ok F m \<Longrightarrow> note_fits F m n \<Longrightarrow> known_ok F (note_effect n m)"
  by (fastforce simp: known_ok_def note_fits_def put_obj_def event_effect_def bind_eq_Some_conv
      split: notification.splits delta_obj.splits option.splits if_splits)

lemma host_of_put: "obj_key (PodO p) = Some k \<Longrightarrow>
    host_of (put_obj (PodO p) m) = (host_of m)(k := if assignedNonTerminatedPod p then Some (pod_NodeName p) else None)"
  by (auto simp: put_obj_def host_of_def fun_eq_iff)

lemma host_of_delete: "obj_key x = Some k \<Longrightarrow> host_of (event_effect (''DELETED'', x) m) = (host_of m)(k := None)"
  by (auto simp: event_effect_def host_of_def fun_eq_iff)

lemma host_of_known: "m k = Some (PodO p) \<Longrightarrow> host_of m k = (if assignedNonTerminatedPod p then Some (pod_NodeName p) else None)"
  by (simp add: host_of_def)

lemma identified_is_pod: "identified_pod U N R x \<Longrightarrow> \<exists>p k. x = PodO p \<and> obj_key (PodO p) = Some k"
  by (cases x) (auto simp: identified_pod_def split: option.splits)

lemma pod_filter_PodO [simp]: "pod_filter P (PodO p) = P p" "as_pod (PodO p) = p"
  by (simp_all add: pod_filter_def as_pod_def)

lemma handler_add_agrees:
  assumes "inj U" "agrees U m c" "sc_inv R c" "note_fits (identified_change U N R) m (NAdd x)"
  shows "snd (cache_handler (NAdd x) c) = Ok () \<and> sc_inv R (fst (cache_handler (NAdd x) c)) \<and>
    agrees U (note_effect (NAdd x) m) (fst (cache_handler (NAdd x) c))"
proof -
  from assms(4) identified_is_pod obtain p k where
    p: "x = PodO p" "obj_key (PodO p) = Some k" "identified_pod U N R (PodO p)" "m k = None"
    by (fastforce simp: note_fits_def identified_change_def)
  then have h: "host_of m k = None" by (simp add: host_of_def)
  show ?thesis
  proof (cases "assignedNonTerminatedPod p")
    case True
    with cache_add_agrees [where m' = "note_effect (NAdd x) m", OF assms(1-3) p(3,2) h] p show ?thesis
      by (simp add: cache_handler_def FilteringHandler_def host_of_put)
  next
    case False
    with agrees_same [OF assms(2)] assms(3) p h show ?thesis
      by (simp add: cache_handler_def FilteringHandler_def host_of_put fun_upd_idem)
  qed
qed

lemma handler_update_agrees:
  assumes "inj U" "agrees U m c" "sc_inv R c" "known_ok (identified_change U N R) m"
    and "note_fits (identified_change U N R) m (NUpdate old x)"
  shows "snd (cache_handler (NUpdate old x) c) = Ok () \<and> sc_inv R (fst (cache_handler (NUpdate old x) c)) \<and>
    agrees U (note_effect (NUpdate old x) m) (fst (cache_handler (NUpdate old x) c))"
proof -
  from assms(5) identified_is_pod obtain p k where
    p: "x = PodO p" "obj_key (PodO p) = Some k" "identified_pod U N R (PodO p)" "m k = Some old"
    by (fastforce simp: note_fits_def identified_change_def)
  with assms(4) identified_is_pod obtain q where
    q: "old = PodO q" "obj_key (PodO q) = Some k" "identified_pod U N R (PodO q)" by (fastforce simp: known_ok_def identified_change_def)
  note h = host_of_known [of m k q, OF p(4) [unfolded q(1)]]
  have same: "pod_NodeName p = pod_NodeName q" if "assignedNonTerminatedPod p" "assignedNonTerminatedPod q"
    using identifiedD(3) [OF p(3,2)] identifiedD(3) [OF q(3,2)] that by simp
  note step = cache_handler_def FilteringHandler_def host_of_put
  consider "assignedNonTerminatedPod p" "assignedNonTerminatedPod q" | "assignedNonTerminatedPod p" "\<not> assignedNonTerminatedPod q"
    | "\<not> assignedNonTerminatedPod p" "assignedNonTerminatedPod q" | "\<not> assignedNonTerminatedPod p" "\<not> assignedNonTerminatedPod q" by blast
  then show ?thesis
  proof cases
    case 1
    with cache_update_agrees [where m' = "note_effect (NUpdate old x) m", OF assms(1-3) q(3,2) p(3,2) 1(2,1)] p q h same show ?thesis
      by (simp add: step fun_upd_idem)
  next
    case 2
    with cache_add_agrees [where m' = "note_effect (NUpdate old x) m", OF assms(1-3) p(3,2)] p q h show ?thesis by (simp add: step)
  next
    case 3
    with cache_remove_agrees [where m' = "note_effect (NUpdate old x) m", OF assms(1-3) q(3,2)] p q h show ?thesis by (simp add: step)
  next
    case 4
    with agrees_same [OF assms(2)] assms(3) p q h show ?thesis by (simp add: step fun_upd_idem)
  qed
qed

lemma handler_delete_agrees:
  assumes "inj U" "agrees U m c" "sc_inv R c" "note_fits (identified_change U N R) m (NDelete d)"
  shows "snd (cache_handler (NDelete d) c) = Ok () \<and> sc_inv R (fst (cache_handler (NDelete d) c)) \<and>
    agrees U (note_effect (NDelete d) m) (fst (cache_handler (NDelete d) c))"
proof -
  from assms(4) obtain x where x: "d = Live x" "identified_pod U N R x" "Option.bind (obj_key x) m = Some x"
    by (auto simp: note_fits_def identified_change_def split: delta_obj.splits)
  with identified_is_pod obtain p k where p: "x = PodO p" "obj_key (PodO p) = Some k" "m k = Some (PodO p)" by fastforce
  note h = host_of_known [of m k p, OF p(3)]
  show ?thesis
  proof (cases "assignedNonTerminatedPod p")
    case True
    with cache_remove_agrees [where m' = "note_effect (NDelete d) m", OF assms(1-3) x(2) [unfolded p(1)] p(2)] p h x(1) show ?thesis
      by (simp add: cache_handler_def FilteringHandler_def host_of_delete)
  next
    case False
    with agrees_same [OF assms(2)] assms(3) p h x(1) show ?thesis
      by (simp add: cache_handler_def FilteringHandler_def host_of_delete fun_upd_idem)
  qed
qed

lemma cache_handler_agrees:
  assumes "inj U" "agrees U m c" "sc_inv R c" "known_ok (identified_change U N R) m" "note_fits (identified_change U N R) m n"
  shows "snd (cache_handler n c) = Ok () \<and> sc_inv R (fst (cache_handler n c)) \<and> agrees U (note_effect n m) (fst (cache_handler n c))"
  using handler_add_agrees [OF assms(1-3)] handler_update_agrees [OF assms(1-4)] handler_delete_agrees [OF assms(1-3)] assms(5)
  by (cases n) blast+

text \<open>The queued changes fit too, and a listener has the rest of the notifications before it.\<close>

definition changes_fit :: "change \<Rightarrow> informer_sys \<Rightarrow> bool" where
  "changes_fit F s = (\<forall>k. deltas_fit F (map_of (is_indexer s) k) (deltas_of (is_fifo s) k))"

definition told :: "change \<Rightarrow> informer_sys \<Rightarrow> notification list \<Rightarrow> (string \<Rightarrow> obj option) \<Rightarrow> bool" where
  "told F s ns m = (known_ok F m \<and> notes_fit F m ns \<and> fold note_effect ns m = map_of (is_indexer s))"

lemma dedup_alive: "fold delta_effect ds cur \<noteq> None \<Longrightarrow> dedupDeltas (ds @ [a]) = ds @ [a]"
  by (rule dedupDeltas_cases [of ds a]) (auto simp: delta_effect.simps)

lemma changes_fit_start:
  assumes "list_all (\<lambda>x. event_fits F Map.empty (''ADDED'', x)) xs" "distinct (map obj_key xs)"
  shows "changes_fit F (informer_start ttl xs)" "told F (informer_start ttl xs) [] Map.empty"
proof -
  have keys: "list_all (\<lambda>x. obj_key x \<noteq> None) xs"
    using assms(1) pod_has_key by (fastforce simp: list_all_iff event_fits_def pod_event_def)
  have "F None (Some x) x" if "x \<in> set xs" for x
    using assms(1) that by (cases "obj_key x") (auto simp: list_all_iff event_fits_def)
  then have "deltas_fit F None (deltas_of (fst (df_Replace [] xs NewDeltaFIFO)) k)" for k
    using df_Replace_first(3) [OF keys assms(2)] unfolding synced_def by (auto simp: delta_effect.simps dest!: spec [of _ k])
  then show "changes_fit F (informer_start ttl xs)" "told F (informer_start ttl xs) [] Map.empty"
    by (simp_all add: changes_fit_def informer_start_def NewStore_def told_def known_ok_def)
qed

lemma changes_fit_watch:
  assumes "df_inv (is_fifo s)" "changes_fit F s" "event_fits F (pending (is_fifo s) (map_of (is_indexer s))) ev"
    and "removes_known F"
  shows "changes_fit F (informer_watch ev s)"
proof -
  obtain t x where ev: "ev = (t, x)" by (cases ev)
  let ?cur = "\<lambda>k. pending (is_fifo s) (map_of (is_indexer s)) k"
  from assms(3) ev obtain k where k: "is_pod x" "obj_key x = Some k" using pod_has_key by (auto simp: event_fits_def pod_event_def)
  have F: "F (?cur k) (if t = ''DELETED'' then None else Some x) x" using assms(3) k(2) by (auto simp: event_fits_def ev split: if_splits)
  have fits: "changes_fit F (s\<lparr>is_fifo := f\<rparr>)"
    if "deltas_of f = (deltas_of (is_fifo s))(k := deltas_of (is_fifo s) k @ [\<lparr>d_Type = y, d_Object = Live x\<rparr>])"
      "F (?cur k) (if y = DDeleted then None else Some x) x" for f y
    using assms(2) that by (auto simp: changes_fit_def deltas_fit_snoc pending_def delta_effect.simps)
  note ops = df_put [OF k(2) assms(1)] df_Delete_effect(4) [OF k(2) assms(1), of "is_indexer s"]
  consider "t = ''ADDED''" | "t = ''MODIFIED''" | "t = ''DELETED''" using assms(3) by (auto simp: event_fits_def pod_event_def ev)
  then show ?thesis
  proof cases
    case 1
    with ops(1) [of Map.empty] k(1) F fits [of "fst (df_Add x (is_fifo s))" DAdded] show ?thesis
      by (simp add: informer_watch_def watchHandler_def ev dedupDeltas_keeps)
  next
    case 2
    with ops(2) [of Map.empty] k(1) F fits [of "fst (df_Update x (is_fifo s))" DUpdated] show ?thesis
      by (simp add: informer_watch_def watchHandler_def ev dedupDeltas_keeps)
  next
    case 3
    with F assms(4) have alive: "?cur k \<noteq> None" unfolding removes_known_def by fastforce
    then have "dedupDeltas (deltas_of (is_fifo s) k @ [d]) = deltas_of (is_fifo s) k @ [d]" for d
      by (intro dedup_alive [where cur = "map_of (is_indexer s) k"]) (simp add: pending_def)
    with alive show ?thesis
      using 3 F ops(3) k(1) fits [of "fst (df_Delete (is_indexer s) x (is_fifo s))" DDeleted]
      by (simp add: informer_watch_def watchHandler_def ev)
  qed
qed

lemma changes_fit_pop:
  assumes "df_inv (is_fifo s)" "cache_wf (is_indexer s)" "changes_fit F s"
  shows "\<exists>ns. changes_fit F (fst (informer_pop s)) \<and>
    is_toCache (fst (informer_pop s)) = is_toCache s @ ns \<and> is_toQueue (fst (informer_pop s)) = is_toQueue s @ ns \<and>
    is_cache (fst (informer_pop s)) = is_cache s \<and> is_podQueue (fst (informer_pop s)) = is_podQueue s \<and>
    (\<forall>ns' m. told F s ns' m \<longrightarrow> told F (fst (informer_pop s)) (ns' @ ns) m)"
proof (cases "df_queue (is_fifo s)")
  case Nil
  with assms(3) show ?thesis by (intro exI [of _ "[]"]) (simp add: informer_pop_empty)
next
  case (Cons k q)
  from informer_pop_effect [OF assms(1,2) Cons] obtain f ix ns where
    p: "informer_pop s = (s\<lparr>is_fifo := f, is_indexer := ix, is_toCache := is_toCache s @ ns, is_toQueue := is_toQueue s @ ns\<rparr>, Ok ())"
      "deltas_of f = (deltas_of (is_fifo s))(k := [])"
      "map_of ix = (map_of (is_indexer s))(k := pending (is_fifo s) (map_of (is_indexer s)) k)"
      "fold note_effect ns (map_of (is_indexer s)) = map_of ix"
      "\<forall>F. deltas_fit F (map_of (is_indexer s) k) (deltas_of (is_fifo s) k) \<longrightarrow> notes_fit F (map_of (is_indexer s)) ns" by blast
  moreover have "changes_fit F (fst (informer_pop s))" using assms(3) p(2,3) by (simp add: p(1) changes_fit_def)
  moreover have "told F (fst (informer_pop s)) (ns' @ ns) m" if "told F s ns' m" for ns' m
    using that p(4,5) assms(3) by (simp add: told_def p(1) notes_fit_append changes_fit_def)
  ultimately show ?thesis by auto
qed

lemma step_simps [simp]:
  "is_toQueue (fst (deliver_cache s)) = is_toQueue s" "is_podQueue (fst (deliver_cache s)) = is_podQueue s"
  "is_toCache (fst (deliver_queue copy s)) = is_toCache s" "is_cache (fst (deliver_queue copy s)) = is_cache s"
  "is_toCache (scheduler_op op s) = is_toCache s" "is_toQueue (scheduler_op op s) = is_toQueue s" "is_podQueue (scheduler_op op s) = is_podQueue s"
  "is_toCache (fst (getNextPod s)) = is_toCache s" "is_toQueue (fst (getNextPod s)) = is_toQueue s" "is_cache (fst (getNextPod s)) = is_cache s"
  "is_toCache (informer_watch ev s) = is_toCache s" "is_toQueue (informer_watch ev s) = is_toQueue s"
  "is_indexer (informer_watch ev s) = is_indexer s" "is_cache (informer_watch ev s) = is_cache s" "is_podQueue (informer_watch ev s) = is_podQueue s"
  by (auto simp: deliver_cache_def deliver_queue_def scheduler_op_def getNextPod_def informer_watch_def split: list.split prod.split)

lemma told_same [simp]:
  "told F (fst (deliver_cache s)) = told F s" "told F (fst (deliver_queue copy s)) = told F s" "told F (scheduler_op op s) = told F s"
  "told F (fst (getNextPod s)) = told F s" "told F (informer_watch ev s) = told F s"
  "changes_fit F (fst (deliver_cache s)) = changes_fit F s" "changes_fit F (fst (deliver_queue copy s)) = changes_fit F s"
  "changes_fit F (scheduler_op op s) = changes_fit F s" "changes_fit F (fst (getNextPod s)) = changes_fit F s"
  by (simp_all add: told_def [abs_def] changes_fit_def)

lemma told_note: "told F s (n # ns) m \<Longrightarrow> note_fits F m n \<and> told F s ns (note_effect n m)"
  by (auto simp: told_def known_ok_note)

lemma changes_fit_reach:
  assumes "informer_reach (event_fits F) good evs s" "removes_known F"
  shows "changes_fit F s" "informer_inv evs s"
proof -
  have inv: "informer_reach (event_fits F) good evs s \<Longrightarrow> informer_inv evs s" for evs s
    by (erule informer_reach_inv) (simp add: event_fits_def)
  then show "informer_inv evs s" using assms(1) .
  show "changes_fit F s"
    using assms(1)
  proof (induction rule: informer_induct)
    case (start xs ttl)
    then show ?case by (rule changes_fit_start)
  next
    case (event evs s ev)
    with inv [OF event(1)] assms(2) show ?case by (intro changes_fit_watch) (auto simp: informer_inv_def)
  next
    case (pop evs s)
    with changes_fit_pop [of s F] inv [OF pop(1)] show ?case by (auto simp: informer_inv_def)
  qed simp_all
qed

lemma told_pop:
  assumes "informer_reach (event_fits F) good evs s" "removes_known F"
  shows "\<exists>ns. is_toCache (fst (informer_pop s)) = is_toCache s @ ns \<and> is_toQueue (fst (informer_pop s)) = is_toQueue s @ ns \<and>
    is_cache (fst (informer_pop s)) = is_cache s \<and> is_podQueue (fst (informer_pop s)) = is_podQueue s \<and>
    (\<forall>ns' m. told F s ns' m \<longrightarrow> told F (fst (informer_pop s)) (ns' @ ns) m)"
  using changes_fit_pop [of s F] changes_fit_reach [OF assms] by (auto simp: informer_inv_def)

definition cache_told :: "(string \<Rightarrow> string) \<Rightarrow> (string \<Rightarrow> string) \<Rightarrow> (string \<Rightarrow> string \<Rightarrow> int) \<Rightarrow> informer_sys \<Rightarrow> bool" where
  "cache_told U N R s =
     (sc_inv R (is_cache s) \<and> (\<exists>m. told (identified_change U N R) s (is_toCache s) m \<and> agrees U m (is_cache s)))"

lemma deliver_cache_told:
  assumes "inj U" "cache_told U N R s"
  shows "snd (deliver_cache s) = Ok ()" "cache_told U N R (fst (deliver_cache s))"
proof -
  from assms(2) obtain m where
    m: "told (identified_change U N R) s (is_toCache s) m" "agrees U m (is_cache s)" "sc_inv R (is_cache s)"
    by (auto simp: cache_told_def)
  have "snd (deliver_cache s) = Ok () \<and> cache_told U N R (fst (deliver_cache s))"
  proof (cases "is_toCache s")
    case Nil
    with assms(2) show ?thesis by (simp add: deliver_cache_def)
  next
    case (Cons n ns)
    with m(1) told_note have n: "note_fits (identified_change U N R) m n" "told (identified_change U N R) s ns (note_effect n m)" by auto
    have "known_ok (identified_change U N R) m" using m(1) by (simp add: told_def)
    from cache_handler_agrees [OF assms(1) m(2,3) this n(1)] n(2) Cons show ?thesis
      by (cases "cache_handler n (is_cache s)") (auto simp: deliver_cache_def cache_told_def told_def)
  qed
  then show "snd (deliver_cache s) = Ok ()" "cache_told U N R (fst (deliver_cache s))" by simp_all
qed

abbreviation identified_run ::
    "(string \<Rightarrow> string) \<Rightarrow> (string \<Rightarrow> string) \<Rightarrow> (string \<Rightarrow> string \<Rightarrow> int) \<Rightarrow> watch_event list \<Rightarrow> informer_sys \<Rightarrow> bool" where
  "identified_run U N R \<equiv> informer_reach (event_fits (identified_change U N R)) (\<lambda>_. scheduler_own R)"

lemma cache_told_reach:
  assumes "inj U" "identified_run U N R evs s"
  shows "cache_told U N R s"
  using assms(2)
proof (induction rule: informer_induct)
  case (start xs ttl)
  from changes_fit_start(2) [OF start, of ttl] agrees_new sc_inv_new show ?case
    by (auto simp: cache_told_def informer_start_def)
next
  case (pop evs s)
  have "removes_known (identified_change U N R)" by (simp add: removes_known_def identified_change_def)
  from told_pop [OF pop(1) this] pop.IH show ?case by (auto simp: cache_told_def) blast
next
  case (to_cache evs s)
  then show ?case by (simp add: deliver_cache_told [OF assms(1)])
next
  case (sched evs s op)
  then show ?case using scheduler_own_keeps [of R "is_cache s" op]
    by (auto simp: cache_told_def agrees_def) (auto simp: scheduler_op_def)
qed (auto simp: cache_told_def)

text \<open>
  C14: with identified pods, whatever the order in which events, pops, deliveries and the scheduler's own
  operations come, no notification finds the scheduler's cache in a state that its handler rejects or calls
  corrupted, and once the informer and the listener have caught up the confirmed pods of the cache are the
  assigned pods of the log that have not terminated, each on its node.
\<close>

theorem cache_confirms_log:
  assumes "inj U" "identified_run U N R evs s"
  shows "snd (deliver_cache s) = Ok () \<and>
    (df_queue (is_fifo s) = [] \<and> is_toCache s = [] \<longrightarrow>
       (\<forall>u h. life (is_cache s) u = Added h \<longleftrightarrow>
          (\<exists>k p. u = U k \<and> replayed evs k = Some (PodO p) \<and> assignedNonTerminatedPod p \<and> pod_NodeName p = h)))"
proof -
  note told = cache_told_reach [OF assms]
  have inv: "informer_inv evs s" by (rule informer_reach_inv [OF assms(2)]) (simp add: event_fits_def)
  have "life (is_cache s) u = Added h \<longleftrightarrow> (\<exists>k. u = U k \<and> host_of (replayed evs) k = Some h)"
    if "df_queue (is_fifo s) = []" "is_toCache s = []" for u h
    using told caught_up [OF inv that(1)] that(2) by (auto simp: cache_told_def told_def agrees_def)
  then show ?thesis
    using deliver_cache_told(1) [OF assms(1) told] by (auto simp: host_of_iff)
qed

theorem cache_confirms_log_witness:
  "let s = fst (deliver_cache (fst (deliver_cache (fst (informer_pop (informer_watch (''MODIFIED'', PodO demo_bound)
       (scheduler_op (OpAssume demo_bound) (informer_start 30 [PodO demo_waiting]))))))))
   in snd (deliver_cache s) = Ok () \<and> life (is_cache s) ''p'' = Added ''n''"
proof -
  let ?R = "\<lambda>_. pod_amount demo_waiting"
  let ?evs = "map (Pair ''ADDED'') [PodO demo_waiting] @ [(''MODIFIED'', PodO demo_bound)]"
  let ?s = "fst (deliver_cache (fst (deliver_cache (fst (informer_pop (informer_watch (''MODIFIED'', PodO demo_bound)
       (scheduler_op (OpAssume demo_bound) (informer_start 30 [PodO demo_waiting]))))))))"
  have key: "obj_key (PodO demo_waiting) = Some ''p''" "obj_key (PodO demo_bound) = Some ''p''"
      "getPodKey demo_waiting = Ok ''p''" "getPodKey demo_bound = Ok ''p''" by code_simp+
  have req: "pod_amount demo_bound = pod_amount demo_waiting" by (simp add: demo_bound_def pod_amount_def calculateResource_def fun_eq_iff)
  have pods: "identified_pod id (\<lambda>_. ''n'') ?R (PodO demo_waiting)" "identified_pod id (\<lambda>_. ''n'') ?R (PodO demo_bound)"
    unfolding identified_pod_def key by (simp_all add: steady_def req key) (simp_all add: demo_bound_def demo_waiting_def empty_pod_def assignedNonTerminatedPod_def)
  have ev: "event_fits (identified_change id (\<lambda>_. ''n'') ?R) m (t, PodO p)"
    if "p \<in> {demo_waiting, demo_bound}" "t \<in> {''ADDED'', ''MODIFIED''}" for m t p
    using that pods by (auto simp: event_fits_def identified_change_def pod_event_def is_pod_def)
  have "identified_run id (\<lambda>_. ''n'') ?R ?evs ?s"
    by (intro informer_moves informer_reach.start) (simp_all add: ev scheduler_own_def steady_def req)
  note confirms = cache_confirms_log [OF inj_on_id this]
  have "df_queue (is_fifo ?s) = []" "is_toCache ?s = []" "replayed ?evs ''p'' = Some (PodO demo_bound)"
      "assignedNonTerminatedPod demo_bound" "pod_NodeName demo_bound = ''n''" by code_simp+
  with confirms show ?thesis by (simp add: Let_def)
qed

section \<open>The queue\<close>

text \<open>What the queue relies on: a deletion carries the last state (the comment on \<open>watch.Event\<close>).\<close>

definition pod_change :: change where
  "pod_change cur new x = (is_pod x \<and> (new = None \<longrightarrow> cur = Some x))"

definition waiting :: "(string \<Rightarrow> obj option) \<Rightarrow> string \<Rightarrow> bool" where
  "waiting m k = (case m k of Some x \<Rightarrow> pod_filter unassignedNonTerminatedPod x | None \<Rightarrow> False)"

definition queue_ok :: "(string \<Rightarrow> obj option) \<Rightarrow> fifo \<Rightarrow> bool" where
  "queue_ok m q =
     (dom (map_of (ff_items q)) \<subseteq> set (ff_queue q) \<and>
      (\<forall>k x. map_of (ff_items q) k = Some x \<longrightarrow> obj_key x = Some k \<and> pod_filter unassignedNonTerminatedPod x \<and> waiting m k))"

lemma ff_outcome:
  assumes "obj_key x = Some k"
  shows "snd (ff_Add x q) = Ok () \<and> map_of (ff_items (fst (ff_Add x q))) = (map_of (ff_items q))(k \<mapsto> x) \<and>
      set (ff_queue (fst (ff_Add x q))) \<supseteq> set (ff_queue q) \<union> (if map_of (ff_items q) k = None then {k} else {})"
    "snd (ff_Delete x q) = Ok () \<and> map_of (ff_items (fst (ff_Delete x q))) = (map_of (ff_items q))(k := None) \<and>
      ff_queue (fst (ff_Delete x q)) = ff_queue q"
  using assms by (auto simp: ff_Add_def ff_Delete_def obj_key_def split: outcome.splits)

lemma queue_ok_add:
  assumes "queue_ok m q" "obj_key x = Some k" "pod_filter unassignedNonTerminatedPod x" "m' = m(k \<mapsto> x)"
  shows "snd (ff_Add x q) = Ok () \<and> queue_ok m' (fst (ff_Add x q))"
  using assms(1,3) ff_outcome(1) [OF assms(2), of q] assms(2,4)
  by (auto simp: queue_ok_def waiting_def split: if_splits)

lemma queue_ok_delete:
  assumes "queue_ok m q" "obj_key x = Some k" "\<forall>k'. k' \<noteq> k \<longrightarrow> m' k' = m k'"
  shows "snd (ff_Delete x q) = Ok () \<and> queue_ok m' (fst (ff_Delete x q))"
  using assms(1,3) ff_outcome(2) [OF assms(2), of q]
  by (auto simp: queue_ok_def waiting_def split: if_splits)

lemma queue_ok_same:
  assumes "queue_ok m q" "\<forall>k'. k' \<noteq> k \<longrightarrow> m' k' = m k'" "waiting m k \<Longrightarrow> waiting m' k"
  shows "queue_ok m' q"
  using assms by (auto simp: queue_ok_def waiting_def) (metis assms(2,3) waiting_def)

lemma queue_handler_ok:
  assumes "queue_ok m q" "known_ok pod_change m" "note_fits pod_change m n"
  shows "snd (queue_handler copy c n q) = Ok () \<and> queue_ok (note_effect n m) (fst (queue_handler copy c n q))"
proof -
  let ?w = "pod_filter unassignedNonTerminatedPod"
  obtain x where n: "n = NAdd x \<or> (\<exists>old. n = NUpdate old x) \<or> n = NDelete (Live x)"
    using assms(3) by (cases n) (auto simp: note_fits_def pod_change_def split: delta_obj.splits)
  with assms(3) obtain k where k: "obj_key x = Some k" using pod_has_key [of x] by (auto simp: note_fits_def pod_change_def)
  have put: "put_obj x m = m(k \<mapsto> x)" and del: "event_effect (''DELETED'', x) m = m(k := None)"
    by (simp_all add: put_obj_def event_effect_def k)
  note add = queue_ok_add [OF assms(1) k _ put] and same = queue_ok_same [OF assms(1)]
  from n show ?thesis
  proof (elim disjE exE)
    assume n: "n = NAdd x"
    with assms(3) k have "m k = None" by (simp add: note_fits_def pod_change_def)
    then have "queue_ok (put_obj x m) q" by (intro same [of k]) (simp_all add: put waiting_def)
    then show ?thesis using add n by (simp add: queue_handler_def FilteringHandler_def)
  next
    fix old assume n: "n = NUpdate old x"
    with assms(3) k have old: "m k = Some old" by (simp add: note_fits_def pod_change_def)
    with assms(2) have ok: "obj_key old = Some k" by (simp add: known_ok_def)
    have "snd (ff_Delete old q) = Ok () \<and> queue_ok (put_obj x m) (fst (ff_Delete old q))"
      by (rule queue_ok_delete [OF assms(1) ok]) (simp add: put)
    moreover have "(?w old \<longrightarrow> ?w x) \<Longrightarrow> queue_ok (put_obj x m) q"
      by (rule same [of k]) (simp_all add: put waiting_def old)
    ultimately show ?thesis using add n by (auto simp: queue_handler_def FilteringHandler_def ff_Update_def)
  next
    assume n: "n = NDelete (Live x)"
    with assms(3) k have m: "m k = Some x" by (simp add: note_fits_def pod_change_def)
    have "snd (ff_Delete x q) = Ok () \<and> queue_ok (m(k := None)) (fst (ff_Delete x q))"
      by (rule queue_ok_delete [OF assms(1) k]) simp
    moreover have "\<not> ?w x \<Longrightarrow> queue_ok (m(k := None)) q"
      by (rule same [of k]) (simp_all add: waiting_def m)
    ultimately show ?thesis using n by (simp add: queue_handler_def FilteringHandler_def del)
  qed
qed

lemma ff_pop_loop_ok:
  "dom (map_of (ff_items f)) \<subseteq> set ks \<Longrightarrow> ff_queue f = ks \<Longrightarrow>
   case ff_pop_loop ks f of
     (f', None) \<Rightarrow> ff_items f = [] \<and> ff_items f' = ff_items f
   | (f', Some x) \<Rightarrow> (\<exists>k. map_of (ff_items f) k = Some x \<and> map_of (ff_items f') = (map_of (ff_items f))(k := None) \<and>
       dom (map_of (ff_items f')) \<subseteq> set (ff_queue f'))"
proof (induction ks f rule: ff_pop_loop.induct)
  case (2 key q f)
  show ?case
  proof (cases "map_of (ff_items f) key")
    case None
    with 2(2,3) have "dom (map_of (ff_items f)) \<subseteq> set q" by auto
    with 2(1) None show ?thesis by (simp add: Let_def)
  next
    case (Some x)
    with 2 show ?thesis by (auto simp: Let_def)
  qed
qed simp

lemma getNextPod_ok:
  assumes "queue_ok m (is_podQueue s)"
  shows "queue_ok m (is_podQueue (fst (getNextPod s)))"
    "snd (getNextPod s) = Some x \<Longrightarrow> \<exists>k. obj_key x = Some k \<and> pod_filter unassignedNonTerminatedPod x \<and> waiting m k"
    "snd (getNextPod s) = None \<longleftrightarrow> ff_items (is_podQueue s) = []"
proof -
  let ?q = "is_podQueue s"
  have "dom (map_of (ff_items ?q)) \<subseteq> set (ff_queue ?q)" using assms by (simp add: queue_ok_def)
  note loop = ff_pop_loop_ok [OF this refl]
  show "queue_ok m (is_podQueue (fst (getNextPod s)))"
    using loop assms by (auto simp: getNextPod_def ff_Pop_def queue_ok_def split: prod.splits option.splits if_splits)
  show "\<exists>k. obj_key x = Some k \<and> pod_filter unassignedNonTerminatedPod x \<and> waiting m k" if "snd (getNextPod s) = Some x"
    using loop assms that by (auto simp: getNextPod_def ff_Pop_def queue_ok_def split: prod.splits)
  show "snd (getNextPod s) = None \<longleftrightarrow> ff_items ?q = []"
    using loop by (auto simp: getNextPod_def ff_Pop_def split: prod.splits option.splits)
qed

definition queue_told :: "informer_sys \<Rightarrow> bool" where
  "queue_told s = (\<exists>m. told pod_change s (is_toQueue s) m \<and> queue_ok m (is_podQueue s))"

lemma deliver_queue_told:
  assumes "queue_told s"
  shows "snd (deliver_queue copy s) = Ok ()" "queue_told (fst (deliver_queue copy s))"
proof -
  from assms obtain m where m: "told pod_change s (is_toQueue s) m" "queue_ok m (is_podQueue s)" by (auto simp: queue_told_def)
  have "snd (deliver_queue copy s) = Ok () \<and> queue_told (fst (deliver_queue copy s))"
  proof (cases "is_toQueue s")
    case Nil
    with assms show ?thesis by (simp add: deliver_queue_def)
  next
    case (Cons n ns)
    with m(1) told_note have n: "note_fits pod_change m n" "told pod_change s ns (note_effect n m)" by auto
    have "known_ok pod_change m" using m(1) by (simp add: told_def)
    from queue_handler_ok [OF m(2) this n(1), of copy "is_cache s"] n(2) Cons show ?thesis
      by (cases "queue_handler copy (is_cache s) n (is_podQueue s)") (auto simp: deliver_queue_def queue_told_def told_def)
  qed
  then show "snd (deliver_queue copy s) = Ok ()" "queue_told (fst (deliver_queue copy s))" by simp_all
qed

lemma queue_told_reach:
  assumes "informer_reach (event_fits pod_change) good evs s"
  shows "queue_told s"
  using assms
proof (induction rule: informer_induct)
  case (start xs ttl)
  from changes_fit_start(2) [OF start, of ttl] show ?case
    by (auto simp: queue_told_def informer_start_def queue_ok_def NewFIFO_def)
next
  case (pop evs s)
  have "removes_known pod_change" by (simp add: removes_known_def pod_change_def)
  from told_pop [OF pop(1) this] pop.IH show ?case by (auto simp: queue_told_def) blast
next
  case (to_queue evs s copy)
  then show ?case by (simp add: deliver_queue_told)
next
  case (next_pod evs s)
  then show ?case using getNextPod_ok(1) by (auto simp: queue_told_def)
qed (auto simp: queue_told_def)

text \<open>
  C16: the scheduler is never handed a pod that is already assigned or has terminated: with any
  interleaving, a delivery to the scheduling queue succeeds, the queue waits only when it is empty, and what
  it hands out is an unassigned pod; once the informer and the listener have caught up, that pod is unassigned in the log as well.
\<close>

theorem queue_hands_out_waiting:
  assumes "informer_reach (event_fits pod_change) good evs s"
  shows "snd (deliver_queue copy s) = Ok () \<and> (snd (getNextPod s) = None \<longleftrightarrow> ff_items (is_podQueue s) = []) \<and>
    (\<forall>x. snd (getNextPod s) = Some x \<longrightarrow>
       (\<exists>p k. x = PodO p \<and> obj_key x = Some k \<and> unassignedNonTerminatedPod p \<and>
          (df_queue (is_fifo s) = [] \<and> is_toQueue s = [] \<longrightarrow>
             (\<exists>p'. replayed evs k = Some (PodO p') \<and> unassignedNonTerminatedPod p'))))"
proof -
  note told = queue_told_reach [OF assms]
  then obtain m where m: "told pod_change s (is_toQueue s) m" "queue_ok m (is_podQueue s)" by (auto simp: queue_told_def)
  have inv: "informer_inv evs s" by (rule informer_reach_inv [OF assms]) (simp add: event_fits_def)
  have caught: "m = replayed evs" if "df_queue (is_fifo s) = []" "is_toQueue s = []"
    using m(1) caught_up [OF inv that(1)] that(2) by (simp add: told_def)
  have pod: "pod_filter P x \<longleftrightarrow> (\<exists>p. x = PodO p \<and> P p)" for P x by (cases x) (auto simp: pod_filter_def)
  have "\<exists>p k. x = PodO p \<and> obj_key x = Some k \<and> unassignedNonTerminatedPod p \<and>
      (df_queue (is_fifo s) = [] \<and> is_toQueue s = [] \<longrightarrow>
         (\<exists>p'. replayed evs k = Some (PodO p') \<and> unassignedNonTerminatedPod p'))" if "snd (getNextPod s) = Some x" for x
    using getNextPod_ok(2) [OF m(2) that] caught by (auto simp: pod waiting_def split: option.splits)
  then show ?thesis using deliver_queue_told(1) [OF told] getNextPod_ok(3) [OF m(2)] by simp
qed

theorem queue_hands_out_waiting_witness:
  "let s = fst (deliver_queue id (fst (informer_pop (informer_start 30 [PodO demo_waiting]))))
   in snd (getNextPod s) = Some (PodO demo_waiting) \<and>
      (\<exists>p'. replayed [(''ADDED'', PodO demo_waiting)] ''p'' = Some (PodO p') \<and> unassignedNonTerminatedPod p')"
proof -
  let ?s = "fst (deliver_queue id (fst (informer_pop (informer_start 30 [PodO demo_waiting]))))"
  have "informer_reach (event_fits pod_change) (\<lambda>_ _. False) (map (Pair ''ADDED'') [PodO demo_waiting]) ?s"
    by (intro informer_moves informer_reach.start) (simp_all add: event_fits_def pod_change_def pod_event_def is_pod_def)
  note out = queue_hands_out_waiting [OF this]
  have "snd (getNextPod ?s) = Some (PodO demo_waiting)" "df_queue (is_fifo ?s) = []" "is_toQueue ?s = []"
      "obj_key (PodO demo_waiting) = Some ''p''" by code_simp+
  with out show ?thesis by (simp add: Let_def)
qed

end
