(* ===== verification/Informer_View.thy ===== *)
theory Informer_View
  imports Informer Capacity
begin

text \<open>
  The informers during a simulation, together with the copy of the cache that the algorithm refreshes
  before a decision.  A simulated pod appears unassigned and later bound; a pod of the checkpoint appears
  bound; the list and the start of the watch report it again.  The nodes are reported too, at any time
  before the first decision.

  Shown: whatever the interleaving, the cache and the copy are a view in the sense of \<open>sched_view\<close>, so
  that the results about the algorithm hold for the informers as they are programmed.
\<close>

section \<open>Simulation logs\<close>

text \<open>
  The pod with key \<open>k\<close> has identifier \<open>U k\<close> and is \<open>P k\<close> once it is assigned, on one of the nodes; from
  then on it does not change.
\<close>

definition settling_pod :: "node list \<Rightarrow> (string \<Rightarrow> string) \<Rightarrow> (string \<Rightarrow> pod) \<Rightarrow> obj \<Rightarrow> bool" where
  "settling_pod nodes U P x =
     (case (x, obj_key x) of
        (PodO p, Some k) \<Rightarrow> getPodKey p = Ok (U k) \<and>
          (assignedNonTerminatedPod p \<longrightarrow> p = P k \<and> pod_NodeName p \<in> node_name ` set nodes)
      | _ \<Rightarrow> False)"

definition settling :: "node list \<Rightarrow> (string \<Rightarrow> string) \<Rightarrow> (string \<Rightarrow> pod) \<Rightarrow> change" where
  "settling nodes U P cur new x =
     (settling_pod nodes U P x \<and> new = Some x \<and> (\<forall>p. cur = Some (PodO p) \<and> assignedNonTerminatedPod p \<longrightarrow> x = PodO p))"

definition knows :: "sched_cache \<Rightarrow> node \<Rightarrow> bool" where
  "knows c x = (ni_node (cache_node (node_name x) (sc_nodes c)) \<noteq> None)"

text \<open>
  The scheduler assumes a pod on the node it will be bound to; no assumed pod expires; a node is reported
  once.
\<close>

definition simulation_op :: "node list \<Rightarrow> (string \<Rightarrow> string) \<Rightarrow> (string \<Rightarrow> pod) \<Rightarrow> sched_cache \<Rightarrow> cache_op \<Rightarrow> bool" where
  "simulation_op nodes U P c op =
     (case op of
        OpAddNode x \<Rightarrow> x \<in> set nodes \<and> \<not> knows c x
      | OpAssume q \<Rightarrow> (\<exists>p h k. q = p\<lparr>pod_NodeName := h\<rparr> \<and> bound_pod p h = P k \<and> getPodKey p = Ok (U k) \<and> h \<in> node_name ` set nodes)
      | OpFinish _ _ \<Rightarrow> True
      | OpCleanup now \<Rightarrow> (\<forall>u. \<not> due now c u)
      | _ \<Rightarrow> False)"

text \<open>
  \<open>feed nodes U P evs s k m\<close>: the system is in state \<open>s\<close> after the log \<open>evs\<close>, the copy is \<open>m\<close>, and at most
  \<open>k\<close> changes were made to the cache since it was refreshed.
\<close>

inductive feed ::
    "node list \<Rightarrow> (string \<Rightarrow> string) \<Rightarrow> (string \<Rightarrow> pod) \<Rightarrow> watch_event list \<Rightarrow> informer_sys \<Rightarrow> nat \<Rightarrow> cache_nodes \<Rightarrow> bool"
  for nodes U P where
  start: "list_all (\<lambda>x. event_fits (settling nodes U P) Map.empty (''ADDED'', x)) xs \<Longrightarrow> distinct (map obj_key xs) \<Longrightarrow>
    feed nodes U P (map (Pair ''ADDED'') xs) (informer_start ttl xs) 0 []"
| step: "feed nodes U P evs s k m \<Longrightarrow> informer_step (event_fits (settling nodes U P)) (simulation_op nodes U P) evs s evs' s' \<Longrightarrow>
    feed nodes U P evs' s' (k + 2) m"
| refresh: "feed nodes U P evs s k m \<Longrightarrow> m = [] \<or> k < 2 ^ 64 \<Longrightarrow> \<forall>x \<in> set nodes. knows (is_cache s) x \<Longrightarrow>
    feed nodes U P evs s 0 (UpdateNodeNameToInfoMap (is_cache s) m)"

lemmas feed_moves =
  feed.step [OF _ informer_step.event] feed.step [OF _ informer_step.pop] feed.step [OF _ informer_step.to_cache]
  feed.step [OF _ informer_step.sched]

lemma feed_reach: "feed nodes U P evs s k m \<Longrightarrow> informer_reach (event_fits (settling nodes U P)) (simulation_op nodes U P) evs s"
  by (induction rule: feed.induct) (blast intro: informer_reach.intros)+

lemma settling_removes: "removes_known (settling nodes U P)"
  by (simp add: removes_known_def settling_def)

section \<open>The handlers\<close>

text \<open>The pods of the view, and what the listener has been told.\<close>

definition places :: "node list \<Rightarrow> (string \<Rightarrow> string) \<Rightarrow> (string \<Rightarrow> pod) \<Rightarrow> (string \<Rightarrow> obj option) \<Rightarrow> pod list \<Rightarrow> bool" where
  "places nodes U P sh ps =
     ((\<forall>p \<in> set ps. \<exists>k. p = P k \<and> getPodKey p = Ok (U k) \<and> pod_NodeName p \<in> node_name ` set nodes) \<and>
      (\<forall>k. host_of sh k \<noteq> None \<longrightarrow> P k \<in> set ps))"

lemma places_new:
  assumes "inj U" "places nodes U P sh ps" "getPodKey (P k) = Ok (U k)"
  shows "Ok (U k) \<in> getPodKey ` set ps \<longleftrightarrow> P k \<in> set ps"
  using assms by (auto simp: places_def inj_eq image_iff) metis+

lemma settlingD:
  assumes "settling_pod nodes U P (PodO p)" "obj_key (PodO p) = Some k" "assignedNonTerminatedPod p"
  shows "p = P k" "getPodKey p = Ok (U k)" "pod_NodeName p \<in> node_name ` set nodes"
  using assms unfolding settling_pod_def assms(2) by auto

lemma settling_is_pod: "settling_pod nodes U P x \<Longrightarrow> \<exists>p k. x = PodO p \<and> obj_key (PodO p) = Some k"
  by (cases x) (auto simp: settling_pod_def split: option.splits)

lemma view_add:
  assumes "inj U" "sched_view k ns ps c m" "places nodes U P sh ps"
    and "getPodKey (P key) = Ok (U key)" "pod_NodeName (P key) \<in> node_name ` set nodes"
    and "\<And>k'. k' \<noteq> key \<Longrightarrow> host_of sh' k' = host_of sh k'"
  shows "\<exists>k' ps'. k' \<le> k + 2 \<and> sched_view k' ns ps' (fst (sc_AddPod (P key) c)) m \<and> places nodes U P sh' ps'"
proof (cases "P key \<in> set ps")
  case True
  from sched_view.confirmed [OF assms(2) this] have "sched_view k ns ps (fst (sc_AddPod (P key) c)) m" by simp
  moreover have "places nodes U P sh' ps" using assms(3,6) True by (auto simp: places_def) metis
  ultimately show ?thesis by (intro exI [of _ k] exI [of _ ps]) simp
next
  case False
  with places_new [OF assms(1,3,4)] have "Ok (U key) \<notin> getPodKey ` set ps" by simp
  from sched_view.listed [OF assms(2,4) this] have "sched_view (Suc k) ns (ps @ [P key]) (fst (sc_AddPod (P key) c)) m" by simp
  moreover have "places nodes U P sh' (ps @ [P key])" using assms(3-6) by (auto simp: places_def) metis
  ultimately show ?thesis by (intro exI [of _ "Suc k"] exI [of _ "ps @ [P key]"]) simp
qed

text \<open>A pod that is reported changes the view when it is assigned, and leaves it alone otherwise.\<close>

lemma view_put:
  assumes "inj U" "sched_view k ns ps c m" "places nodes U P sh ps" "settling_pod nodes U P (PodO p)" "assignedNonTerminatedPod p"
  shows "\<exists>k' ps'. k' \<le> k + 2 \<and> sched_view k' ns ps' (fst (sc_AddPod p c)) m \<and> places nodes U P (put_obj (PodO p) sh) ps'"
proof -
  from settling_is_pod [OF assms(4)] obtain key where key: "obj_key (PodO p) = Some key" by auto
  note P = settlingD [OF assms(4) key assms(5)]
  from view_add [OF assms(1-3), of key "put_obj (PodO p) sh"] P host_of_put [OF key, of sh] show ?thesis by auto
qed

lemma places_keep:
  assumes "places nodes U P sh ps" "obj_key (PodO p) = Some key" "\<not> assignedNonTerminatedPod p"
  shows "places nodes U P (put_obj (PodO p) sh) ps"
  using assms(1,3) host_of_put [OF assms(2), of sh] by (auto simp: places_def)

text \<open>An assigned pod that is reported again is as it was.\<close>

lemma view_again:
  assumes "sched_view k ns ps c m" "places nodes U P sh ps" "m = [] \<or> node_name ` set nodes \<subseteq> node_name ` set ns"
    and "settling_pod nodes U P (PodO p)" "assignedNonTerminatedPod p" "obj_key (PodO p) = Some key" "sh key = Some (PodO p)"
  shows "sched_view (Suc (Suc k)) ns ps (fst (sc_UpdatePod p p c)) m" "places nodes U P (put_obj (PodO p) sh) ps"
proof -
  note P = settlingD [OF assms(4,6,5)] and known = host_of_known [of sh key p, OF assms(7)]
  have "P key \<in> set ps" using assms(2) known assms(5) by (simp add: places_def)
  with P sched_view.reported [OF assms(1), of p] assms(3) show "sched_view (Suc (Suc k)) ns ps (fst (sc_UpdatePod p p c)) m" by auto
  show "places nodes U P (put_obj (PodO p) sh) ps"
    using assms(2,5) host_of_put [OF assms(6), of sh] known by (simp add: places_def fun_upd_idem)
qed

lemma cache_handler_view:
  assumes "inj U" "sched_view k ns ps c m" "places nodes U P sh ps" "m = [] \<or> node_name ` set nodes \<subseteq> node_name ` set ns"
    and "known_ok (settling nodes U P) sh" "note_fits (settling nodes U P) sh n"
  shows "\<exists>k' ps'. k' \<le> k + 2 \<and> sched_view k' ns ps' (fst (cache_handler n c)) m \<and> places nodes U P (note_effect n sh) ps'"
proof -
  obtain x where x: "settling_pod nodes U P x" and n: "n = NAdd x \<or> (\<exists>old. n = NUpdate old x)"
    using assms(6) by (cases n) (auto simp: note_fits_def settling_def split: delta_obj.splits)
  from settling_is_pod [OF x] obtain p key where p: "x = PodO p" "obj_key (PodO p) = Some key" by blast
  note put = view_put [OF assms(1-3) x [unfolded p(1)]] and keep = places_keep [OF assms(3) p(2)]
  note step = cache_handler_def FilteringHandler_def p(1)
  from n show ?thesis
  proof (elim disjE exE)
    assume n: "n = NAdd x"
    show ?thesis
    proof (cases "assignedNonTerminatedPod p")
      case True
      with put n show ?thesis by (simp add: step)
    next
      case False
      with keep assms(2) show ?thesis by (intro exI [of _ k] exI [of _ ps]) (simp add: n step)
    qed
  next
    fix old assume n: "n = NUpdate old x"
    then have old: "sh key = Some old" "settling nodes U P (Some old) (Some x) x"
      using assms(6) p by (auto simp: note_fits_def)
    with assms(5) settling_is_pod obtain q where q: "old = PodO q" by (fastforce simp: known_ok_def settling_def)
    consider "assignedNonTerminatedPod q" | "\<not> assignedNonTerminatedPod q" "assignedNonTerminatedPod p"
      | "\<not> assignedNonTerminatedPod q" "\<not> assignedNonTerminatedPod p" by blast
    then show ?thesis
    proof cases
      case 1
      with old(2) q p(1) have "p = q" by (auto simp: settling_def)
      with view_again [OF assms(2-4) x [unfolded p(1)] _ p(2)] 1 old(1) q show ?thesis
        by (intro exI [of _ "Suc (Suc k)"] exI [of _ ps]) (simp add: n step)
    next
      case 2
      with put n q show ?thesis by (simp add: step)
    next
      case 3
      with keep assms(2) show ?thesis by (intro exI [of _ k] exI [of _ ps]) (simp add: n q step)
    qed
  qed
qed

lemma view_knows:
  assumes "sched_view k ns ps c m"
  shows "knows c x \<longleftrightarrow> node_name x \<in> node_name ` set ns"
proof
  show "knows c x \<Longrightarrow> node_name x \<in> node_name ` set ns"
    using sched_view_inv [OF assms] by (simp add: view_inv_def only_nodes_def knows_def)
  assume "node_name x \<in> node_name ` set ns"
  then obtain y where y: "y \<in> set ns" "node_name x = node_name y" by blast
  with sched_view_inv [OF assms] obtain n where "map_of (sc_nodes c) (node_name x) = Some n" "ni_node n = Some y"
    by (auto simp: view_inv_def view_nodes_def)
  then show "knows c x" by (simp add: knows_def cache_node_Some)
qed

text \<open>The scheduler's own operations.\<close>

lemma scheduler_view:
  assumes "inj U" "sched_view k ns ps c m" "places nodes U P sh ps" "simulation_op nodes U P c op" "set ns \<subseteq> set nodes"
  shows "\<exists>k' ns' ps'. k' \<le> k + 2 \<and> sched_view k' ns' ps' (fst (run_cache_op op c)) m \<and> places nodes U P sh ps' \<and>
    set ns \<subseteq> set ns' \<and> set ns' \<subseteq> set nodes"
proof (cases op)
  case (OpAddNode x)
  with assms(4) have x: "x \<in> set nodes" "\<not> knows c x" by (simp_all add: simulation_op_def)
  have "node_name x \<notin> node_name ` set ns" using x(2) view_knows [OF assms(2)] by simp
  from sched_view.node [OF assms(2) this] assms(3,5) x(1) OpAddNode show ?thesis
    by (intro exI [of _ "Suc k"] exI [of _ "ns @ [x]"] exI [of _ ps]) auto
next
  case (OpAssume q)
  with assms(4) obtain p h key where
    q: "q = p\<lparr>pod_NodeName := h\<rparr>" "bound_pod p h = P key" "getPodKey p = Ok (U key)" "h \<in> node_name ` set nodes"
    by (auto simp: simulation_op_def)
  have P: "getPodKey (P key) = Ok (U key)" "pod_NodeName (P key) \<in> node_name ` set nodes"
    using q(3,4) by (simp_all flip: q(2))
  show ?thesis
  proof (cases "P key \<in> set ps")
    case True
    with sched_view_inv [OF assms(2)] P(1) have "map_of (sc_podStates c) (U key) \<noteq> None"
      by (force simp: view_inv_def view_states_def hosts_def)
    then have "fst (run_cache_op op c) = c" using OpAssume q(1,3) by (auto simp: AssumePod_def with_key_def)
    with assms(2,3,5) show ?thesis by (intro exI [of _ k] exI [of _ ns] exI [of _ ps]) simp
  next
    case False
    with places_new [OF assms(1,3) P(1)] have "Ok (U key) \<notin> getPodKey ` set ps" by simp
    from sched_view.assumed [OF assms(2) q(3) this, of h]
    have "sched_view (Suc k) ns (ps @ [P key]) (fst (run_cache_op op c)) m" by (simp add: OpAssume q(1,2))
    moreover have "places nodes U P sh (ps @ [P key])" using assms(3) P by (auto simp: places_def)
    ultimately show ?thesis using assms(5) by (intro exI [of _ "Suc k"] exI [of _ ns] exI [of _ "ps @ [P key]"]) simp
  qed
next
  case (OpFinish p now)
  with sched_view.finished [OF assms(2)] assms(3,5) show ?thesis by (intro exI [of _ k] exI [of _ ns] exI [of _ ps]) simp
next
  case (OpCleanup now)
  with sched_view.cleaned [OF assms(2)] assms(3-5) show ?thesis
    by (intro exI [of _ k] exI [of _ ns] exI [of _ ps]) (simp add: simulation_op_def)
qed (use assms(4) in \<open>simp_all add: simulation_op_def\<close>)

section \<open>The view\<close>

definition fed_view :: "node list \<Rightarrow> (string \<Rightarrow> string) \<Rightarrow> (string \<Rightarrow> pod) \<Rightarrow> informer_sys \<Rightarrow> nat \<Rightarrow> cache_nodes \<Rightarrow> bool" where
  "fed_view nodes U P s k m =
     (\<exists>k' ns ps sh. k' \<le> k \<and> sched_view k' ns ps (is_cache s) m \<and> told (settling nodes U P) s (is_toCache s) sh \<and>
        places nodes U P sh ps \<and> set ns \<subseteq> set nodes \<and> (m = [] \<or> node_name ` set nodes \<subseteq> node_name ` set ns))"

lemma fed_viewI:
  assumes "k' \<le> k" "sched_view k' ns ps (is_cache s) m" "told (settling nodes U P) s (is_toCache s) sh" "places nodes U P sh ps"
    "set ns \<subseteq> set nodes" "m = [] \<or> node_name ` set nodes \<subseteq> node_name ` set ns"
  shows "fed_view nodes U P s k m"
  using assms unfolding fed_view_def by blast

text \<open>A delivery to the cache, and an operation of the scheduler.\<close>

lemma fed_view_deliver:
  assumes "inj U" "fed_view nodes U P s k m" shows "fed_view nodes U P (fst (deliver_cache s)) (k + 2) m"
proof -
  from assms(2) obtain k' ns ps sh where v: "k' \<le> k" "sched_view k' ns ps (is_cache s) m"
      "told (settling nodes U P) s (is_toCache s) sh" "places nodes U P sh ps" "set ns \<subseteq> set nodes"
      "m = [] \<or> node_name ` set nodes \<subseteq> node_name ` set ns"
    unfolding fed_view_def by blast
  show ?thesis
  proof (cases "is_toCache s")
    case Nil
    have "k' \<le> k + 2" using v(1) by simp
    from fed_viewI [OF this v(2-6)] Nil show ?thesis by (simp add: deliver_cache_def)
  next
    case (Cons n ns')
    with v(3) told_note have n: "note_fits (settling nodes U P) sh n" "told (settling nodes U P) s ns' (note_effect n sh)" by auto
    have "known_ok (settling nodes U P) sh" using v(3) by (simp add: told_def)
    from cache_handler_view [OF assms(1) v(2,4,6) this n(1)] obtain k'' ps' where
      h: "k'' \<le> k' + 2" "sched_view k'' ns ps' (fst (cache_handler n (is_cache s))) m" "places nodes U P (note_effect n sh) ps'" by blast
    let ?s = "fst (deliver_cache s)"
    have "is_cache ?s = fst (cache_handler n (is_cache s))" "is_toCache ?s = ns'"
      using Cons by (simp_all add: deliver_cache_def split: prod.split)
    then have "sched_view k'' ns ps' (is_cache ?s) m" "told (settling nodes U P) ?s (is_toCache ?s) (note_effect n sh)"
      using h(2) n(2) by simp_all
    from fed_viewI [OF _ this h(3) v(5,6), of "k + 2"] h(1) v(1) show ?thesis by simp
  qed
qed

lemma fed_view_sched:
  assumes "inj U" "fed_view nodes U P s k m" "simulation_op nodes U P (is_cache s) op"
  shows "fed_view nodes U P (scheduler_op op s) (k + 2) m"
proof -
  from assms(2) obtain k' ns ps sh where v: "k' \<le> k" "sched_view k' ns ps (is_cache s) m"
      "told (settling nodes U P) s (is_toCache s) sh" "places nodes U P sh ps" "set ns \<subseteq> set nodes"
      "m = [] \<or> node_name ` set nodes \<subseteq> node_name ` set ns"
    unfolding fed_view_def by blast
  from scheduler_view [OF assms(1) v(2,4) assms(3) v(5)] obtain k'' ns' ps' where
    h: "k'' \<le> k' + 2" "sched_view k'' ns' ps' (fst (run_cache_op op (is_cache s))) m" "places nodes U P sh ps'"
      "set ns \<subseteq> set ns'" "set ns' \<subseteq> set nodes" by blast
  let ?s = "scheduler_op op s"
  have "m = [] \<or> node_name ` set nodes \<subseteq> node_name ` set ns'" using v(6) h(4) by blast
  moreover have "is_cache ?s = fst (run_cache_op op (is_cache s))" by (simp add: scheduler_op_def)
  moreover have "told (settling nodes U P) ?s (is_toCache ?s) sh" using v(3) by simp
  ultimately show ?thesis using fed_viewI [OF _ _ _ h(3,5), of k'' "k + 2" ?s m] h(1,2) v(1) by simp
qed

lemma fed_view_step:
  assumes "inj U" "informer_reach (event_fits (settling nodes U P)) (simulation_op nodes U P) evs s" "fed_view nodes U P s k m"
    and "informer_step (event_fits (settling nodes U P)) (simulation_op nodes U P) evs s evs' s'"
  shows "fed_view nodes U P s' (k + 2) m"
proof -
  from assms(3) obtain k' ns ps sh where v: "k' \<le> k" "sched_view k' ns ps (is_cache s) m"
      "told (settling nodes U P) s (is_toCache s) sh" "places nodes U P sh ps" "set ns \<subseteq> set nodes"
      "m = [] \<or> node_name ` set nodes \<subseteq> node_name ` set ns"
    unfolding fed_view_def by blast
  have k: "k' \<le> k + 2" using v(1) by simp
  from assms(4) show ?thesis
  proof (cases rule: informer_step.cases)
    case pop
    from told_pop [OF assms(2) settling_removes] v(3) obtain ns' where "is_cache s' = is_cache s" "is_toCache s' = is_toCache s @ ns'"
        "told (settling nodes U P) s' (is_toCache s @ ns') sh" unfolding pop by blast
    then show ?thesis using v(2) by (intro fed_viewI [OF k _ _ v(4-6)]) simp_all
  next
    case to_cache
    with fed_view_deliver [OF assms(1,3)] show ?thesis by simp
  next
    case (sched op)
    with fed_view_sched [OF assms(1,3)] show ?thesis by simp
  qed (rule fed_viewI [OF k _ _ v(4-6)]; use v(2,3) in simp)+
qed

lemma feed_view:
  assumes "inj U" "feed nodes U P evs s k m"
  shows "fed_view nodes U P s k m"
  using assms(2)
proof (induction rule: feed.induct)
  case (start xs ttl)
  have "sched_view 0 [] [] (is_cache (informer_start ttl xs)) []" using sched_view.start [of ttl] by (simp add: informer_start_def)
  moreover have "told (settling nodes U P) (informer_start ttl xs) (is_toCache (informer_start ttl xs)) Map.empty"
    using changes_fit_start(2) [OF start, of ttl] by (simp add: informer_start_def)
  moreover have "places nodes U P Map.empty []" by (simp add: places_def host_of_def)
  ultimately show ?case by (intro fed_viewI [of 0 0 "[]" "[]"]) simp_all
next
  case (step evs s k m evs' s')
  then show ?case using fed_view_step [OF assms(1) feed_reach] by blast
next
  case (refresh evs s k m)
  then obtain k' ns ps sh where v: "k' \<le> k" "sched_view k' ns ps (is_cache s) m"
      "told (settling nodes U P) s (is_toCache s) sh" "places nodes U P sh ps" "set ns \<subseteq> set nodes"
    unfolding fed_view_def by blast
  have "m = [] \<or> k' < 2 ^ 64" using refresh(2) v(1) by auto
  note sched_view.refreshed [OF v(2) this]
  moreover have "node_name ` set nodes \<subseteq> node_name ` set ns" using refresh(3) view_knows [OF v(2)] by auto
  ultimately show ?case using v(3-5) by (intro fed_viewI [of 0 0 ns ps]) simp_all
qed

lemma informers_view:
  assumes "inj U" "distinct (map node_name nodes)" "feed nodes U P evs s k m"
  shows "\<exists>k' ns ps. k' \<le> k \<and> sched_view k' ns ps (is_cache s) m \<and> set ns = {x \<in> set nodes. knows (is_cache s) x} \<and>
    (\<forall>p. p \<in> set ps \<longrightarrow> (\<exists>key. p = P key \<and> getPodKey p = Ok (U key))) \<and>
    (\<forall>key. getPodKey (P key) = Ok (U key) \<longrightarrow> (P key \<in> set ps \<longleftrightarrow> life (is_cache s) (U key) \<noteq> Absent)) \<and>
    (df_queue (is_fifo s) = [] \<and> is_toCache s = [] \<longrightarrow>
       (\<forall>key p. replayed evs key = Some (PodO p) \<and> assignedNonTerminatedPod p \<longrightarrow> p \<in> set ps))"
proof -
  let ?F = "settling nodes U P"
  from feed_view [OF assms(1,3)] obtain k' ns ps sh where v: "k' \<le> k" "sched_view k' ns ps (is_cache s) m"
      "told ?F s (is_toCache s) sh" "places nodes U P sh ps" "set ns \<subseteq> set nodes" unfolding fed_view_def by blast
  have "set ns = {x \<in> set nodes. knows (is_cache s) x}"
    using v(5) view_knows [OF v(2)] assms(2) by (auto simp: distinct_map inj_on_def)
  moreover have "P key \<in> set ps \<longleftrightarrow> life (is_cache s) (U key) \<noteq> Absent" if "getPodKey (P key) = Ok (U key)" for key
  proof -
    have "life (is_cache s) (U key) \<noteq> Absent \<longleftrightarrow> hosts (sc_podStates (is_cache s)) (U key) \<noteq> None"
      by (auto simp: life_def hosts_def split: option.split)
    also have "\<dots> \<longleftrightarrow> Ok (U key) \<in> getPodKey ` set ps"
      using sched_view_inv [OF v(2)] by (force simp: view_inv_def view_states_def)
    finally show ?thesis using places_new [OF assms(1) v(4) that] by simp
  qed
  moreover have "p \<in> set ps" if "df_queue (is_fifo s) = []" "is_toCache s = []" "replayed evs key = Some (PodO p)" "assignedNonTerminatedPod p" for key p
  proof -
    note reach = feed_reach [OF assms(3)]
    have sh: "sh = replayed evs"
      using v(3) caught_up [OF changes_fit_reach(2) [OF reach settling_removes] that(1)] that(2) by (simp add: told_def)
    have "known_ok ?F (replayed evs)" using v(3) sh by (simp add: told_def)
    then have "settling_pod nodes U P (PodO p)" "obj_key (PodO p) = Some key"
      using that(3) unfolding known_ok_def settling_def by blast+
    from settlingD(1) [OF this that(4)] sh that(3,4) v(4) show ?thesis by (simp add: places_def host_of_known)
  qed
  ultimately show ?thesis using v(1,2,4) unfolding places_def by (intro exI [of _ k'] exI [of _ ns] exI [of _ ps]) blast
qed

text \<open>
  C13: the informers as they are programmed only ever give the algorithm views that \<open>sched_view\<close> describes:
  in every state that the log of a simulation, the queue of changes, the handlers, the scheduler and the
  refreshes of the copy can produce, the cache and the copy are a view of the reported nodes and of the pods
  that the cache holds, each as it is placed; once the informer has caught up, these include every
  assigned pod of the log.
\<close>

theorem informers_refine_view:
  assumes "inj U" "distinct (map node_name nodes)" "feed nodes U P evs s k m"
  shows "\<exists>k' ns ps. k' \<le> k \<and> sched_view k' ns ps (is_cache s) m \<and> set ns = {x \<in> set nodes. knows (is_cache s) x} \<and>
    (\<forall>p. p \<in> set ps \<longrightarrow> (\<exists>key. p = P key \<and> getPodKey p = Ok (U key))) \<and>
    (\<forall>key. getPodKey (P key) = Ok (U key) \<longrightarrow> (P key \<in> set ps \<longleftrightarrow> life (is_cache s) (U key) \<noteq> Absent)) \<and>
    (df_queue (is_fifo s) = [] \<and> is_toCache s = [] \<longrightarrow>
       (\<forall>key p. replayed evs key = Some (PodO p) \<and> assignedNonTerminatedPod p \<longrightarrow> p \<in> set ps))"
  using informers_view [OF assms] .

theorem informers_refine_view_witness:
  "let p = bound_pod demo_waiting ''n''; x = empty_node\<lparr>node_meta := empty_meta\<lparr>om_Name := ''n''\<rparr>\<rparr>;
       s = scheduler_op (OpAssume demo_bound) (scheduler_op (OpAddNode x) (informer_start 30 [PodO demo_waiting]));
       m = UpdateNodeNameToInfoMap (is_cache s) [];
       s' = fst (deliver_cache (fst (deliver_cache (fst (informer_pop (informer_watch (''MODIFIED'', PodO p) s))))))
   in is_toCache s' = [] \<and> (\<exists>k ns ps. sched_view k ns ps (is_cache s') m \<and> set ns = {x} \<and> p \<in> set ps)"
proof -
  let ?p = "bound_pod demo_waiting ''n''" and ?x = "empty_node\<lparr>node_meta := empty_meta\<lparr>om_Name := ''n''\<rparr>\<rparr>"
  let ?s = "scheduler_op (OpAssume demo_bound) (scheduler_op (OpAddNode ?x) (informer_start 30 [PodO demo_waiting]))"
  let ?m = "UpdateNodeNameToInfoMap (is_cache ?s) []"
  let ?t = "fst (deliver_cache (fst (deliver_cache (fst (informer_pop (informer_watch (''MODIFIED'', PodO ?p) ?s))))))"
  let ?evs = "map (Pair ''ADDED'') [PodO demo_waiting] @ [(''MODIFIED'', PodO ?p)]"
  let ?feed = "feed [?x] id (\<lambda>_. ?p)"
  have facts: "obj_key (PodO demo_waiting) = Some ''p''" "obj_key (PodO ?p) = Some ''p''" "getPodKey demo_waiting = Ok ''p''"
      "getPodKey ?p = Ok ''p''" "node_name ?x = ''n''" "\<not> assignedNonTerminatedPod demo_waiting" "assignedNonTerminatedPod ?p" by code_simp+
  have node: "pod_NodeName ?p = ''n''" by simp
  have pods: "settling_pod [?x] id (\<lambda>_. ?p) (PodO demo_waiting)" "settling_pod [?x] id (\<lambda>_. ?p) (PodO ?p)"
    unfolding settling_pod_def facts(1,2) by (simp_all add: facts node del: bound_pod_simps)
  have log: "replayed (map (Pair ''ADDED'') [PodO demo_waiting]) ''p'' = Some (PodO demo_waiting)" by code_simp
  have ops: "simulation_op [?x] id (\<lambda>_. ?p) (is_cache (informer_start 30 [PodO demo_waiting])) (OpAddNode ?x)"
      "simulation_op [?x] id (\<lambda>_. ?p) c (OpAssume demo_bound)" for c
    using facts(3,5) by (auto simp: simulation_op_def knows_def demo_bound_def informer_start_def newSchedulerCache_def cache_node_def
        NewNodeInfo_def empty_node_info_def)
  have "?feed (map (Pair ''ADDED'') [PodO demo_waiting]) (informer_start 30 [PodO demo_waiting]) 0 []"
    by (rule feed.start) (simp_all add: event_fits_def settling_def pods pod_event_def is_pod_def bind_eq_Some_conv)
  then have "?feed (map (Pair ''ADDED'') [PodO demo_waiting]) ?s (0 + 2 + 2) []" by (intro feed_moves(4) ops)
  moreover have "knows (is_cache ?s) ?x" by code_simp
  ultimately have "?feed (map (Pair ''ADDED'') [PodO demo_waiting]) ?s 0 ?m" by (intro feed.refresh) auto
  moreover have "event_fits (settling [?x] id (\<lambda>_. ?p)) (replayed (map (Pair ''ADDED'') [PodO demo_waiting])) (''MODIFIED'', PodO ?p)"
    using pods(2) facts(6) unfolding event_fits_def settling_def snd_conv facts(2) bind.bind_lunit log
    by (simp add: pod_event_def is_pod_def)
  ultimately have fed: "?feed ?evs ?t (0 + 2 + 2 + 2 + 2) ?m"
    by (intro feed_moves(1-3))
  have t: "is_toCache ?t = []" "df_queue (is_fifo ?t) = []" "replayed ?evs ''p'' = Some (PodO ?p)" "knows (is_cache ?t) ?x" by code_simp+
  from informers_refine_view [OF inj_on_id _ fed] obtain k ns ps where
    v: "sched_view k ns ps (is_cache ?t) ?m" "set ns = {x \<in> set [?x]. knows (is_cache ?t) x}" "?p \<in> set ps"
    using t(1-3) facts(7) by auto
  have "set ns = {?x}" unfolding v(2) using t(4) by auto
  with v(1,3) t(1) show ?thesis unfolding Let_def by blast
qed

end
