(* ===== verification/Simulation_Feed.thy ===== *)
theory Simulation_Feed
  imports Simulation_Watch Informer_View
begin

text \<open>
  The simulation and its informers composed.  Every call of the simulator emits a definite list of watch
  events (\<open>sim_step_emits\<close>), so the text an informer reads is the text of a log in which a pod appears
  unassigned, is bound at most once and does not change afterwards (\<open>logged_run\<close>).  An informer that lists
  the pods when the watch is opened and then follows this log at its own pace (\<open>follows_log\<close>) is one of the
  informers of \<open>Informer_View\<close>: what the algorithm sees through it is the cluster of the simulation.
\<close>

declare map_of_eq_Some_iff [simp del]

section \<open>The events of a step\<close>

inductive emits :: "watch_event list \<Rightarrow> watch_env rs_state \<Rightarrow> watch_env rs_state \<Rightarrow> bool" where
  emits_Nil: "emits [] st st"
| emits_snoc: "emits evs st st' \<Longrightarrow> has_type Pods (op_obj op) \<Longrightarrow> emits (evs @ [op_event op]) st (fst (run_op Pods op st'))"

abbreviation added :: "pod list \<Rightarrow> watch_event list" where
  "added \<equiv> map (\<lambda>p. (''ADDED'', PodO p))"

lemma emits_append: "emits b st' st'' \<Longrightarrow> emits a st st' \<Longrightarrow> emits (a @ b) st st''"
  by (induction rule: emits.induct) (auto intro: emits.intros simp flip: append_assoc)

lemma emits_Cons: "emits [ev] st st' \<Longrightarrow> emits evs st' st'' \<Longrightarrow> emits (ev # evs) st st''"
  using emits_append [of evs st' st'' "[ev]" st] by simp

lemma emits_op: "has_type Pods (op_obj op) \<Longrightarrow> emits [op_event op] st (fst (run_op Pods op st))"
  using emits_snoc [OF emits_Nil] by fastforce

lemma emits_Add: "rs_Add Pods (PodO p) st = (st', r) \<Longrightarrow> emits [(''ADDED'', PodO p)] st st'"
  using emits_op [of "SAdd (PodO p)" st] by (simp add: has_type_def)

lemma emits_Update: "rs_Update Pods (PodO p) st = (st', r) \<Longrightarrow> emits [(''MODIFIED'', PodO p)] st st'"
  using emits_op [of "SUpdate (PodO p)" st] by (simp add: has_type_def)

lemma nextPod_emits:
  assumes "nextPod c = (c', r)" shows "emits (added (take 1 (cc_pending c))) (cc_store c) (cc_store c')"
proof (cases "cc_pending c")
  case Nil
  with nextPod_none [OF Nil] assms emits_Nil show ?thesis by simp
next
  case (Cons p ps)
  from pq.pop_Cons [OF Cons] assms Cons show ?thesis
    by (auto simp: nextPod_def split: prod.splits intro: emits_Add)
qed

lemma deferred_emits: "deferred pre c = (c', r) \<Longrightarrow> emits (added (take 1 (cc_pending c))) (cc_store c) (cc_store c')"
  by (auto simp: deferred_def split: prod.splits outcome.splits if_splits dest!: nextPod_emits Close_store)

lemma run_begin_emits: "run_begin c = (c', pc) \<Longrightarrow> emits (added (take 1 (cc_pending c))) (cc_store c) (cc_store c')"
  by (auto simp: run_begin_def split: prod.splits outcome.splits dest!: nextPod_emits Close_store)

lemma strategy_emits:
  "strategy_Add (PodO (bound_pod p h)) st = ((st', x), r) \<Longrightarrow> emits [(''MODIFIED'', PodO (bound_pod p h))] st st'"
  by (auto simp: strategy_Add_def strategy_addPod_def Let_def bound_pod_def split: prod.splits intro!: emits_Update [unfolded Pods_def])

lemma Bind_emits:
  assumes "cc_good c" "stored c p" "cc_Bind (pod_binding p h) n c = (c', Ok ())"
  shows "emits ((''MODIFIED'', PodO (bound_pod p h)) # added (take 1 (cc_pending c))) (cc_store c) (cc_store c')"
proof -
  have get: "rs_Get Pods (binding_key (pod_binding p h)) (fst (cc_store c)) = Ok (Some (PodO p))"
    using assms rs_Get_lookup [OF _ binding_key_key, of Pods "fst (cc_store c)" p h] by (simp add: cc_good_def stored_def)
  have target: "p\<lparr>pod_NodeName := b_Target (pod_binding p h), pod_Phase := PodRunning\<rparr> = bound_pod p h"
    by (simp add: bound_pod_def pod_binding_def)
  obtain st x r where st: "strategy_Add (PodO (bound_pod p h)) (cc_store c) = ((st, x), r)" by (metis prod_cases3 surj_pair)
  with get assms(3) obtain c1 where c1: "deferred ''fail'' c1 = (c', Ok ())" "cc_store c1 = st" "cc_queue c1 = cc_queue c"
    by (auto simp: cc_Bind_def target Let_def split: outcome.splits)
  from emits_Cons [OF strategy_emits [OF st]] deferred_emits [OF c1(1)] show ?thesis unfolding c1(2,3) by blast
qed

lemma Update_emits:
  "cc_Update p (fail_condition m) n c = (c', r) \<Longrightarrow> emits (added (take 1 (cc_pending c))) (cc_store c) (cc_store c')"
  using deferred_emits unfolding Update_fail by fastforce

text \<open>What a step of the simulation can emit: nothing, the next pod, or a bound pod and the next pod.\<close>

definition step_events :: "sim_sys \<Rightarrow> watch_event list \<Rightarrow> bool" where
  "step_events s evs =
     (evs = [] \<or> evs = added (take 1 (cc_pending (ss_cc s))) \<or>
      (\<exists>p h. TBind p h \<in> set (ss_tasks s) \<and> evs = (''MODIFIED'', PodO (bound_pod p h)) # added (take 1 (cc_pending (ss_cc s)))))"

lemma step_eventsI:
  "step_events s []" "step_events s (added (take 1 (cc_pending (ss_cc s))))"
  "ss_tasks s = a @ TBind p h # b \<Longrightarrow>
    step_events s ((''MODIFIED'', PodO (bound_pod p h)) # added (take 1 (cc_pending (ss_cc s))))"
  by (auto simp: step_events_def)

lemma sim_step_emits:
  assumes "sim_step n s s'" "sim_at n newPods sched L outs s"
  shows "\<exists>evs. step_events s evs \<and> emits evs (cc_store (ss_cc s)) (cc_store (ss_cc s'))"
proof -
  have good: "cc_good (ss_cc s)" "list_all (stored (ss_cc s)) (in_flight s)" "list_all (\<lambda>t. \<not> is_reject t) (ss_tasks s)"
    using assms(2) by (auto simp: sim_at_def events_ok_def)
  have bind: "stored (ss_cc s) p \<and> (\<exists>c. cc_Bind (pod_binding p h) n (ss_cc s) = (c, Ok ()))"
    if "ss_tasks s = a @ TBind p h # b" for a p h b
  proof -
    have "p \<in> set (in_flight s)" using that by (simp add: in_flight_def)
    moreover from this have "in_flight s \<noteq> []" by auto
    then have "open_channels (ss_cc s)" using phase_in_flight [of s outs] assms(2) by (simp add: sim_at_def)
    ultimately show ?thesis using good Bind_advanced [of "ss_cc s" p h n] by (auto simp: list_all_iff)
  qed
  have idle: ?thesis if "cc_store (ss_cc s') = cc_store (ss_cc s)" using step_eventsI(1) emits_Nil that by metis
  from assms(1) show ?thesis
  proof (cases rule: sim_step.cases)
    case (start c' pc')
    with step_eventsI(2) run_begin_emits [OF start(3)] show ?thesis by auto
  next
    case (bind_ok a p h b c')
    with step_eventsI(3) [OF bind_ok(2)] Bind_emits [OF good(1) _ bind_ok(3)] bind [OF bind_ok(2)] show ?thesis by auto
  next
    case (update_ok a p m b c')
    with step_eventsI(2) Update_emits [OF update_ok(3)] show ?thesis by auto
  next
    case (update_crash a p m b c' x)
    with step_eventsI(2) Update_emits [OF update_crash(3)] show ?thesis by auto
  next
    case (bind_err a p h b c' e)
    with bind [OF bind_err(2)] show ?thesis by simp
  next
    case (bind_crash a p h b c' x)
    with bind [OF bind_crash(2)] show ?thesis by simp
  next
    case (reject_update a p b c')
    with good(3) show ?thesis by simp
  qed (rule idle, simp add: run_end_def record_drain_store)+
qed

section \<open>Logs\<close>

text \<open>A log whose every event fits what the log says before it.\<close>

fun log_fits :: "change \<Rightarrow> (string \<Rightarrow> obj option) \<Rightarrow> watch_event list \<Rightarrow> bool" where
  "log_fits F m [] = True"
| "log_fits F m (ev # evs) = (event_fits F m ev \<and> log_fits F (event_effect ev m) evs)"

lemma log_fits_append: "log_fits F m (a @ b) = (log_fits F m a \<and> log_fits F (fold event_effect a m) b)"
  by (induction a arbitrary: m) auto

lemma replayed_fold: "replayed evs = fold event_effect evs Map.empty"
  by (induction evs rule: rev_induct) (simp_all add: replayed_Nil replayed_snoc)

lemma replayed_append: "replayed (a @ b) = fold event_effect b (replayed a)"
  by (simp add: replayed_fold)

text \<open>A pod that is assigned does not change any more.\<close>

definition calm :: change where
  "calm cur new x = (\<forall>p. cur = Some (PodO p) \<and> assignedNonTerminatedPod p \<longrightarrow> new = Some (PodO p) \<and> x = PodO p)"

lemma calm_fits:
  assumes "t \<in> {''ADDED'', ''MODIFIED''}" "\<And>q. m (pod_key p) = Some (PodO q) \<Longrightarrow> assignedNonTerminatedPod q \<Longrightarrow> q = p"
  shows "event_fits calm m (t, PodO p)"
  using assms by (auto simp: event_fits_def calm_def pod_event_def is_pod_def)

lemma calm_keeps:
  assumes "log_fits calm m evs" "m k = Some (PodO p)" "assignedNonTerminatedPod p"
  shows "fold event_effect evs m k = Some (PodO p)"
  using assms
proof (induction evs arbitrary: m)
  case (Cons ev evs)
  then have "event_effect ev m k = Some (PodO p)"
    by (auto simp: event_effect_def event_fits_def calm_def split: option.splits if_splits)
  with Cons show ?case by simp
qed simp

lemma calm_member:
  assumes "log_fits calm Map.empty evs" "(t, PodO p) \<in> set evs" "t \<noteq> ''DELETED''" "assignedNonTerminatedPod p"
  shows "replayed evs (pod_key p) = Some (PodO p)"
proof -
  from split_list [OF assms(2)] obtain a b where evs: "evs = a @ (t, PodO p) # b" by blast
  let ?m = "event_effect (t, PodO p) (replayed a)"
  have "?m (pod_key p) = Some (PodO p)" using assms(3) by (simp add: event_effect_def)
  moreover have "log_fits calm ?m b" using assms(1) evs by (simp add: log_fits_append flip: replayed_fold)
  ultimately show ?thesis using calm_keeps assms(4) evs by (simp add: replayed_append)
qed

text \<open>Reporting objects that are as they were reported before, or new.\<close>

abbreviation listed :: "obj list \<Rightarrow> watch_event list" where
  "listed \<equiv> map (Pair ''ADDED'')"

lemma calm_listed:
  assumes "list_all is_pod xs" "distinct (map obj_key xs)" "\<forall>x \<in> set xs. \<forall>k. obj_key x = Some k \<longrightarrow> m k = None \<or> m k = Some x"
  shows "log_fits calm m (listed xs)"
  using assms
proof (induction xs arbitrary: m)
  case (Cons x xs)
  then obtain p where x: "x = PodO p" by (auto simp: is_pod_def split: obj.splits)
  have "event_fits calm m (''ADDED'', PodO p)" by (rule calm_fits) (use Cons.prems(3) x in auto)
  moreover have "\<forall>y \<in> set xs. \<forall>k. obj_key y = Some k \<longrightarrow> event_effect (''ADDED'', x) m k = None \<or> event_effect (''ADDED'', x) m k = Some y"
    using Cons.prems(2,3) by (force simp: event_effect_def x)
  ultimately show ?case using Cons x by simp
qed simp

lemma listed_again:
  "\<forall>x \<in> set xs. \<forall>k. obj_key x = Some k \<longrightarrow> m k = Some x \<Longrightarrow> fold event_effect (listed xs) m = m"
  by (induction xs) (auto simp: event_effect_def fun_upd_idem split: option.splits)

section \<open>The log of a simulation\<close>

text \<open>
  A log of the contents \<open>m\<close>, and so is the log of an informer that has listed \<open>xs\<close> before; it is calm and
  about the pods \<open>ps\<close>.
\<close>

definition about :: "pod list \<Rightarrow> watch_event \<Rightarrow> bool" where
  "about ps ev = (fst ev \<in> {''ADDED'', ''MODIFIED''} \<and> (\<exists>p q. snd ev = PodO p \<and> q \<in> set ps \<and> pod_meta p = pod_meta q))"

definition pod_log :: "pod list \<Rightarrow> obj list \<Rightarrow> watch_event list \<Rightarrow> (string \<Rightarrow> obj option) \<Rightarrow> bool" where
  "pod_log ps xs hist m =
     (replayed hist = m \<and> replayed (listed xs @ hist) = m \<and> log_fits calm Map.empty (listed xs @ hist) \<and>
      list_all (about ps) (listed xs @ hist))"

lemma pod_log_extend:
  assumes "pod_log ps xs hist m" "log_fits calm m evs" "list_all (about ps) evs"
  shows "pod_log ps xs (hist @ evs) (fold event_effect evs m)"
  using assms by (simp add: pod_log_def replayed_append log_fits_append flip: replayed_fold append_assoc)

lemma pod_log_start:
  assumes "list_all (about ps) (listed xs)" "distinct (map obj_key xs)" "replayed (listed xs) = m"
    and "\<forall>x \<in> set xs. \<forall>k. obj_key x = Some k \<longrightarrow> m k = Some x"
  shows "pod_log ps xs (listed xs) m"
proof -
  have pods: "list_all is_pod xs" using assms(1) by (fastforce simp: list_all_iff about_def is_pod_def)
  have "log_fits calm Map.empty (listed xs)" "log_fits calm m (listed xs)"
    by (rule calm_listed [OF pods assms(2)], use assms(4) in simp)+
  then show ?thesis
    using assms(1,3) listed_again [OF assms(4)] by (simp add: pod_log_def replayed_append log_fits_append flip: replayed_fold)
qed

text \<open>The pods in the store: the checkpoint, the pods decided so far and the one in flight.\<close>

lemma loaded_pods_Some:
  assumes "distinct (map pod_key ps)"
  shows "loaded_pods ps Map.empty k = Some x \<longleftrightarrow> (\<exists>p \<in> set ps. k = pod_key p \<and> x = PodO p)"
proof (cases "k \<in> pod_key ` set ps")
  case True
  then obtain p where p: "p \<in> set ps" "k = pod_key p" by blast
  with fold_upd_member [OF assms p(1), of PodO Map.empty] assms show ?thesis
    by (auto simp: loaded_pods_def distinct_map dest: inj_onD)
next
  case False
  then show ?thesis using fold_upd_other [OF False, of PodO Map.empty] by (auto simp: loaded_pods_def)
qed

lemma put_pods: "fold put_pod ps L Pods = loaded_pods ps (L Pods)"
  by (induction ps arbitrary: L) (simp_all add: loaded_pods_def put_pod_def)

lemma settle_fold: "settle outs L = fold put_pod (map settled outs) L"
  by (simp add: settle_def fold_map comp_def)

definition run_pods :: "pod list \<Rightarrow> (pod \<times> decision) list \<Rightarrow> sim_sys \<Rightarrow> pod list" where
  "run_pods sched outs s = sched @ map settled outs @ in_flight s"

lemma sim_at_pods:
  assumes "sim_at n newPods sched (initial_objects sched nodes) outs s" "distinct (map pod_key (sched @ newPods))"
  shows "distinct (map pod_key (run_pods sched outs s @ cc_pending (ss_cc s)))"
    and "cc_objects (ss_cc s) Pods = loaded_pods (run_pods sched outs s) Map.empty"
proof -
  note todo = sim_at_todo [OF assms(1)]
  have "map pod_key (map settled outs @ in_flight s @ cc_pending (ss_cc s)) = rev (map pod_key newPods)"
    using arg_cong [OF todo, of "map pod_key"] by (simp add: rev_map comp_def)
  then show "distinct (map pod_key (run_pods sched outs s @ cc_pending (ss_cc s)))"
    using assms(2) unfolding run_pods_def append_assoc map_append [of _ sched] by simp
  have "cc_objects (ss_cc s) = fold put_pod (map settled outs @ in_flight s) (initial_objects sched nodes)"
    using assms(1) by (simp add: sim_at_def store_ok_def settle_fold)
  then show "cc_objects (ss_cc s) Pods = loaded_pods (run_pods sched outs s) Map.empty"
    by (simp add: put_pods run_pods_def initial_objects_def loaded_pods_def)
qed

lemma sim_at_known:
  assumes "sim_at n newPods sched L outs s" "q \<in> set (in_flight s @ cc_pending (ss_cc s))"
  shows "q \<in> set newPods"
  using arg_cong [OF sim_at_todo [OF assms(1)], of set] assms(2) by auto

lemma added_fits:
  assumes "sim_at n newPods sched (initial_objects sched nodes) outs s" "distinct (map pod_key (sched @ newPods))"
    and "\<And>k. m k = cc_objects (ss_cc s) Pods k \<or> k \<in> pod_key ` set (in_flight s)"
  shows "log_fits calm m (added (take 1 (cc_pending (ss_cc s)))) \<and> list_all (about (sched @ newPods)) (added (take 1 (cc_pending (ss_cc s))))"
proof (cases "cc_pending (ss_cc s)")
  case (Cons p ps)
  note pods = sim_at_pods [OF assms(1,2)]
  have fresh: "pod_key p \<notin> pod_key ` set (run_pods sched outs s)" "pod_key p \<notin> pod_key ` set (in_flight s)"
    using pods(1) Cons unfolding map_append distinct_append by (auto simp: run_pods_def simp del: settled_key)
  then have "cc_objects (ss_cc s) Pods (pod_key p) = None"
    using pods loaded_pods_Some [of "run_pods sched outs s" "pod_key p"] by (cases "cc_objects (ss_cc s) Pods (pod_key p)") auto
  with assms(3) [of "pod_key p"] fresh(2) have "m (pod_key p) = None" by simp
  then have "event_fits calm m (''ADDED'', PodO p)" by (intro calm_fits) simp_all
  moreover have "p \<in> set newPods" using sim_at_known [OF assms(1)] Cons by simp
  then have "about (sched @ newPods) (''ADDED'', PodO p)" by (auto simp: about_def)
  ultimately show ?thesis using Cons by simp
qed simp

lemma step_events_fit:
  assumes "sim_at n newPods sched (initial_objects sched nodes) outs s" "distinct (map pod_key (sched @ newPods))"
    and "list_all unassignedNonTerminatedPod newPods" "step_events s evs"
  shows "log_fits calm (cc_objects (ss_cc s) Pods) evs \<and> list_all (about (sched @ newPods)) evs"
proof -
  from assms(4) consider "evs = []" | "evs = added (take 1 (cc_pending (ss_cc s)))"
    | p h where "TBind p h \<in> set (ss_tasks s)" "evs = (''MODIFIED'', PodO (bound_pod p h)) # added (take 1 (cc_pending (ss_cc s)))"
    unfolding step_events_def by blast
  then show ?thesis
  proof cases
    case 2
    with added_fits [OF assms(1,2)] show ?thesis by blast
  next
    case (3 p h)
    then have p: "p \<in> set (in_flight s)" by (force simp: in_flight_def)
    with assms(1) have "cc_objects (ss_cc s) Pods (pod_key p) = Some (PodO p)" by (auto simp: sim_at_def list_all_iff stored_def)
    moreover have new: "p \<in> set newPods" using sim_at_known [OF assms(1)] p by simp
    then have "\<not> assignedNonTerminatedPod p" using assms(3)
      by (auto simp: list_all_iff unassignedNonTerminatedPod_def assignedNonTerminatedPod_def split: if_splits)
    moreover have key: "pod_key (bound_pod p h) = pod_key p" "pod_meta (bound_pod p h) = pod_meta p"
      by (simp_all add: bound_pod_def)
    ultimately have "event_fits calm (cc_objects (ss_cc s) Pods) (''MODIFIED'', PodO (bound_pod p h))" by (intro calm_fits) auto
    moreover have "about (sched @ newPods) (''MODIFIED'', PodO (bound_pod p h))" using new key by (auto simp: about_def)
    moreover have "event_effect (''MODIFIED'', PodO (bound_pod p h)) (cc_objects (ss_cc s) Pods) k = cc_objects (ss_cc s) Pods k \<or>
        k \<in> pod_key ` set (in_flight s)" for k using p key by (auto simp: event_effect_def)
    ultimately show ?thesis
      using added_fits [OF assms(1,2), of "event_effect (''MODIFIED'', PodO (bound_pod p h)) (cc_objects (ss_cc s) Pods)"] 3(2) by simp
  qed simp
qed

section \<open>The watch\<close>

lemma emits_watched:
  assumes "emits evs st st'" "enc_total enc f" "watched_store enc f Pods i got st"
  shows "watched_store enc f Pods i got st' \<and> rs_lookup (fst st') Pods = fold event_effect evs (rs_lookup (fst st) Pods) \<and>
    wb_buf (we_bufs (snd st') ! i) = wb_buf (we_bufs (snd st) ! i) @ events_text f evs"
  using assms(1,3)
proof (induction rule: emits.induct)
  case (emits_snoc evs st st' op)
  with run_op_watched [OF assms(2) _ emits_snoc.hyps(2), of i got st'] show ?case by (simp add: events_text_def)
qed simp

definition logged_run ::
    "encoder \<Rightarrow> (runtime_object \<Rightarrow> string) \<Rightarrow> string \<Rightarrow> nat \<Rightarrow> pod list \<Rightarrow> pod list \<Rightarrow> node list \<Rightarrow> obj list \<Rightarrow> watch_event list \<Rightarrow>
      sim_sys \<times> string \<Rightarrow> bool" where
  "logged_run enc f n i newPods sched nodes xs hist sg =
     (watched_run enc f n i newPods sched (initial_objects sched nodes) sg \<and>
      snd sg @ wb_buf (we_bufs (snd (cc_store (ss_cc (fst sg)))) ! i) = events_text f hist \<and>
      pod_log (sched @ newPods) xs hist (cc_objects (ss_cc (fst sg)) Pods))"

lemma logged_step:
  assumes "enc_total enc f" "list_all unassignedNonTerminatedPod newPods" "distinct (map pod_key (sched @ newPods))"
    and "watch_step n i sg sg'" "logged_run enc f n i newPods sched nodes xs hist sg"
  shows "\<exists>hist'. logged_run enc f n i newPods sched nodes xs hist' sg'"
proof -
  from assms(5) have run: "watched_run enc f n i newPods sched (initial_objects sched nodes) sg"
      "snd sg @ wb_buf (we_bufs (snd (cc_store (ss_cc (fst sg)))) ! i) = events_text f hist"
      "pod_log (sched @ newPods) xs hist (cc_objects (ss_cc (fst sg)) Pods)" by (simp_all add: logged_run_def)
  note run' = watch_step_run [OF assms(1,2,4) run(1)]
  from assms(4) show ?thesis
  proof cases
    case (sim s s' got)
    from run(1) sim obtain outs where at: "sim_at n newPods sched (initial_objects sched nodes) outs s"
        and w: "watched_store enc f Pods i got (cc_store (ss_cc s))" by (auto simp: watched_run_def sim_inv_def)
    from sim_step_emits [OF sim(3) at] obtain evs where evs: "step_events s evs" "emits evs (cc_store (ss_cc s)) (cc_store (ss_cc s'))" by blast
    from emits_watched [OF evs(2) assms(1) w] step_events_fit [OF at assms(3,2) evs(1)] run
    have "logged_run enc f n i newPods sched nodes xs (hist @ evs) (s', got)"
      using run' sim pod_log_extend [of "sched @ newPods" xs hist "cc_objects (ss_cc s) Pods" evs]
      by (simp add: logged_run_def events_text_def flip: append_assoc)
    with sim show ?thesis by blast
  next
    case (read s k w ys err got)
    have "i < length (we_bufs (snd (cc_store (ss_cc s))))"
      using run(1) read(1) by (auto simp: watched_run_def watched_store_def watch_ready_def registered_def all_open_def rg_watchers_def
          dest!: map_of_SomeD [of _ "[]"])
    with run run' read wb_Read_split [OF read(3)]
    have "logged_run enc f n i newPods sched nodes xs hist sg'" by (simp add: logged_run_def set_env_def put_buf_def)
    then show ?thesis by blast
  qed
qed

lemma logged_steps:
  assumes "enc_total enc f" "list_all unassignedNonTerminatedPod newPods" "distinct (map pod_key (sched @ newPods))"
    and "(watch_step n i)\<^sup>*\<^sup>* sg sg'" "logged_run enc f n i newPods sched nodes xs hist sg"
  shows "\<exists>hist'. logged_run enc f n i newPods sched nodes xs hist' sg'"
  using assms(4,5) by (induction arbitrary: hist rule: rtranclp_induct) (blast dest: logged_step [OF assms(1-3)])+

text \<open>A watch opened on the cluster \<open>New\<close> built starts with the list of its pods.\<close>

lemma rs_List_keys: "rs_wf s \<Longrightarrow> distinct (map obj_key (rs_List r s))"
  using kc.distinct_objs rs_cache_wf [of s r] by (cases "map_of (resourceToCache s) r") (auto simp: rs_List_def)

lemma logged_opened:
  assumes "enc_total enc f" "sim_New enc k srv newPods pods nodes = Ok (c, lb, cfg)" "distinct (map pod_key (pods @ newPods))"
    and "sim_at n newPods pods (initial_objects pods nodes) [] (sim_initial c)"
  defines "xs \<equiv> rs_List Pods (fst (cc_store c))"
  shows "\<exists>e i. createWatchReadCloser enc Pods Everything (fst (cc_store c)) (snd (cc_store c)) = (e, Ok i) \<and>
    logged_run enc f n i newPods pods nodes xs (listed xs) (set_env e (sim_initial c), [])"
proof -
  from watch_opened [OF assms(1,2,4)] obtain e i where
    e: "createWatchReadCloser enc Pods Everything (fst (cc_store c)) (snd (cc_store c)) = (e, Ok i)"
      "wb_buf (we_bufs e ! i) = events_text f (listed xs)"
      "watched_run enc f n i newPods pods (initial_objects pods nodes) (set_env e (sim_initial c), [])"
    unfolding xs_def by blast
  let ?s = "fst (cc_store c)"
  have wf: "rs_wf ?s" "Pods \<in> set (Resources ?s)"
    using e(3) by (simp_all add: watched_run_def watched_store_def set_env_def sim_initial_def)
  from sim_at_pods(2) [OF assms(4,3)] have loaded: "cc_objects c Pods = loaded_pods pods Map.empty"
    by (simp add: run_pods_def sim_initial_def in_flight_def)
  have mem: "\<exists>p \<in> set pods. x = PodO p \<and> cc_objects c Pods (pod_key p) = Some x" if "x \<in> set xs" for x
    using that rs_List_lookup [OF wf(1), of Pods] loaded_pods_Some [of pods] assms(3) by (auto simp: xs_def loaded ran_def)
  have "pod_log (pods @ newPods) xs (listed xs) (cc_objects c Pods)"
  proof (rule pod_log_start)
    show "list_all (about (pods @ newPods)) (listed xs)" using mem by (fastforce simp: list_all_iff about_def)
    show "distinct (map obj_key xs)" unfolding xs_def by (rule rs_List_keys [OF wf(1)])
    show "replayed (listed xs) = cc_objects c Pods" unfolding xs_def replayed_def by (rule mirror_listed [OF wf])
    show "\<forall>x \<in> set xs. \<forall>k. obj_key x = Some k \<longrightarrow> cc_objects c Pods k = Some x" using mem by fastforce
  qed
  with e show ?thesis by (auto simp: logged_run_def set_env_def sim_initial_def)
qed

section \<open>The identifiers and the places of the pods\<close>

text \<open>The pods that have a node: the checkpoint, the bound pods and the one the scheduler is binding.\<close>

definition placements :: "sim_sys \<Rightarrow> pod list" where
  "placements s =
     ScheduledPods (cc_status (ss_cc s)) @ SuccessfulPods (cc_status (ss_cc s)) @ placed (taken s)"

lemma sim_at_placements:
  assumes "sim_at n newPods sched L outs s" shows "placements s = sched @ placed (outs @ taken s)"
  using assms by (simp add: placements_def sim_at_def flow_ok_def placed_def)

lemma placed_keys:
  "set (map pod_key (placed h)) \<subseteq> set (map pod_key (map fst h))"
  "distinct (map pod_key (map fst h)) \<Longrightarrow> distinct (map pod_key (placed h))"
proof -
  have 1: "set (map pod_key (placed h)) \<subseteq> set (map pod_key (map fst h))" for h
    by (induction h) (auto simp: placed_def pod_success_def bound_pod_def split: sum.splits)
  then show "set (map pod_key (placed h)) \<subseteq> set (map pod_key (map fst h))" .
  show "distinct (map pod_key (map fst h)) \<Longrightarrow> distinct (map pod_key (placed h))"
  proof (induction h)
    case (Cons x h)
    with 1 [of h] show ?case by (auto simp: placed_def pod_success_def bound_pod_def split: sum.splits)
  qed (simp add: placed_def)
qed

lemma taken_todo:
  assumes "sim_at n newPods sched L outs s"
  shows "rev newPods = map fst (outs @ taken s) @ ss_waiting s @ cc_pending (ss_cc s)"
proof -
  have taken: "map fst (taken s) = concat (map task_pods (ss_tasks s))"
    by (simp add: taken_def map_concat comp_def task_decision_pods)
  have "length (in_flight s) \<le> 1" using assms by (auto simp: sim_at_def phase_ok_def split: run_pc.splits)
  then have "ss_waiting s @ map fst (taken s) = map fst (taken s) @ ss_waiting s"
    by (cases "ss_waiting s"; cases "map fst (taken s)") (simp_all add: in_flight_def flip: taken)
  then have "in_flight s = map fst (taken s) @ ss_waiting s" by (simp add: in_flight_def flip: taken)
  then show ?thesis using sim_at_todo [OF assms] by simp
qed

lemma placements_keys:
  assumes "sim_at n newPods sched L outs s" "distinct (map pod_key (sched @ newPods))"
  shows "distinct (map pod_key (placements s))"
proof -
  define h where "h = outs @ taken s"
  from taken_todo [OF assms(1)] obtain rest where todo: "rev newPods = map fst h @ rest" unfolding h_def by blast
  have "distinct (map pod_key (rev newPods))" "set (map pod_key sched) \<inter> set (map pod_key (rev newPods)) = {}" "distinct (map pod_key sched)"
    using assms(2) by (simp_all flip: rev_map)
  then have "distinct (map pod_key (map fst h))" "set (map pod_key sched) \<inter> set (map pod_key (map fst h)) = {}" "distinct (map pod_key sched)"
    unfolding todo map_append [of pod_key "map fst h"] by (auto simp del: map_map)
  with placed_keys [of h] have "set (map pod_key sched) \<inter> set (map pod_key (placed h)) = {}" "distinct (map pod_key (placed h))" "distinct (map pod_key sched)"
    by (blast+)
  moreover have "placements s = sched @ placed h" unfolding h_def by (rule sim_at_placements [OF assms(1)])
  ultimately show ?thesis by simp
qed

text \<open>The identifier of the pod with a key, made up for keys that no pod has, and the pod as it is placed.\<close>

definition uid_of :: "pod list \<Rightarrow> string \<Rightarrow> string" where
  "uid_of ps k =
     (case find (\<lambda>p. pod_key p = k) ps of
        Some p \<Rightarrow> om_UID (pod_meta p)
      | None \<Rightarrow> replicate (Suc (sum_list (map (\<lambda>p. length (om_UID (pod_meta p))) ps))) (CHR ''x'') @ k)"

definition placed_as :: "pod list \<Rightarrow> string \<Rightarrow> pod" where
  "placed_as ps k = (case find (\<lambda>p. pod_key p = k) ps of Some p \<Rightarrow> p | None \<Rightarrow> empty_pod)"

lemma find_key:
  assumes "distinct (map pod_key ps)" "p \<in> set ps" shows "find (\<lambda>q. pod_key q = pod_key p) ps = Some p"
  using assms by (induction ps) (auto simp: image_iff)

lemma find_key_Some: "find (\<lambda>p. pod_key p = k) ps = Some p \<Longrightarrow> p \<in> set ps \<and> pod_key p = k"
  by (auto simp: find_Some_iff)

lemma getPodKey_Ok: "getPodKey p = Ok u \<longleftrightarrow> u = om_UID (pod_meta p) \<and> u \<noteq> []"
  by (auto simp: getPodKey_def Let_def)

lemma identified_uid:
  assumes "identified ps" "p \<in> set ps"
  shows "getPodKey p = Ok (om_UID (pod_meta p))" "q \<in> set ps \<Longrightarrow> om_UID (pod_meta q) = om_UID (pod_meta p) \<Longrightarrow> q = p"
proof -
  have ok: "getPodKey p = Ok (om_UID (pod_meta p))" if "p \<in> set ps" for p
    using assms(1) that by (cases "getPodKey p") (auto simp: identified_def list_all_iff getPodKey_Ok)
  then show "getPodKey p = Ok (om_UID (pod_meta p))" using assms(2) .
  show "q \<in> set ps \<Longrightarrow> om_UID (pod_meta q) = om_UID (pod_meta p) \<Longrightarrow> q = p"
    using assms ok inj_onD [of getPodKey "set ps" q p] by (auto simp: identified_def distinct_map)
qed

lemma inj_uid_of:
  assumes "identified ps" shows "inj (uid_of ps)"
proof (rule injI)
  fix k k' assume eq: "uid_of ps k = uid_of ps k'"
  have short: "length (om_UID (pod_meta p)) < Suc (sum_list (map (\<lambda>p. length (om_UID (pod_meta p))) ps))" if "p \<in> set ps" for p
    using that member_le_sum_list [of "length (om_UID (pod_meta p))" "map (\<lambda>p. length (om_UID (pod_meta p))) ps"] by auto
  show "k = k'"
  proof (cases "find (\<lambda>p. pod_key p = k) ps"; cases "find (\<lambda>p. pod_key p = k') ps")
    fix p q assume pq: "find (\<lambda>p. pod_key p = k) ps = Some p" "find (\<lambda>p. pod_key p = k') ps = Some q"
    with eq identified_uid(2) [OF assms, of q p] show ?thesis by (auto simp: uid_of_def dest!: find_key_Some)
  next
    fix p assume p: "find (\<lambda>p. pod_key p = k) ps = Some p" "find (\<lambda>p. pod_key p = k') ps = None"
    with arg_cong [OF eq, of length] short [of p] show ?thesis by (auto simp: uid_of_def dest!: find_key_Some)
  next
    fix p assume p: "find (\<lambda>p. pod_key p = k) ps = None" "find (\<lambda>p. pod_key p = k') ps = Some p"
    with arg_cong [OF eq, of length] short [of p] show ?thesis by (auto simp: uid_of_def dest!: find_key_Some)
  qed (use eq in \<open>simp add: uid_of_def\<close>)
qed

text \<open>Identifiers and places fit every event of the log.\<close>

lemma placed_meta: "p \<in> set (placed h) \<Longrightarrow> \<exists>q \<in> set (map fst h). pod_meta p = pod_meta q"
  by (induction h) (auto simp: placed_def pod_success_def bound_pod_def split: sum.splits)

lemma same_meta: "pod_meta p = pod_meta q \<Longrightarrow> pod_key p = pod_key q \<and> getPodKey p = getPodKey q"
  by (simp add: pod_key_def getPodKey_def)

lemma uid_of_meta:
  assumes "identified ps" "distinct (map pod_key ps)" "q \<in> set ps" "pod_meta p = pod_meta q"
  shows "getPodKey p = Ok (uid_of ps (pod_key p))"
  using same_meta [OF assms(4)] identified_uid(1) [OF assms(1,3)] find_key [OF assms(2,3)] by (simp add: uid_of_def)

lemma assigned_placed:
  assumes "sim_at n newPods sched (initial_objects sched nodes) outs s" "distinct (map pod_key (sched @ newPods))"
    and "list_all unassignedNonTerminatedPod newPods"
    and "cc_objects (ss_cc s) Pods k = Some (PodO p)" "assignedNonTerminatedPod p"
  shows "p \<in> set (placements s)" "pod_key p = k"
proof -
  have free: "\<not> assignedNonTerminatedPod q" if "q \<in> set newPods" for q
    using assms(3) that by (auto simp: list_all_iff unassignedNonTerminatedPod_def assignedNonTerminatedPod_def split: if_splits)
  note pods = sim_at_pods [OF assms(1,2)]
  have p: "p \<in> set (run_pods sched outs s)" "pod_key p = k"
    using pods assms(4) loaded_pods_Some [of "run_pods sched outs s" k] by auto
  then show "pod_key p = k" by blast
  have "p \<in> set (placed outs)" if "p \<in> settled ` set outs"
  proof -
    from that obtain q d where q: "(q, d) \<in> set outs" "p = settled (q, d)" by auto
    then have "q \<in> set newPods" using arg_cong [OF sim_at_todo [OF assms(1)], of set] by force
    with free assms(5) q show ?thesis by (cases d) (force simp: placed_def pod_success_def)+
  qed
  with p(1) free assms(5) sim_at_known [OF assms(1)] show "p \<in> set (placements s)"
    by (auto simp: run_pods_def sim_at_placements [OF assms(1)] placed_def)
qed

lemma fits_settling:
  assumes "log_fits calm m evs" "\<forall>ev \<in> set evs. fst ev \<noteq> ''DELETED'' \<and> settling_pod nodes U P (snd ev)"
  shows "log_fits (settling nodes U P) m evs"
  using assms
proof (induction evs arbitrary: m)
  case (Cons ev evs)
  then have "event_fits (settling nodes U P) m ev" by (auto simp: event_fits_def settling_def calm_def)
  with Cons show ?case by simp
qed simp

definition hosted :: "node list \<Rightarrow> pod list \<Rightarrow> bool" where
  "hosted nodes ps = list_all (\<lambda>p. pod_NodeName p \<in> node_name ` set nodes) ps"

lemma log_settles:
  assumes "logged_run enc f n i newPods sched nodes xs hist sg" "distinct (map pod_key (sched @ newPods))"
    and "list_all unassignedNonTerminatedPod newPods" "identified (sched @ newPods)" "hosted nodes (placements (fst sg))"
  defines "F \<equiv> settling nodes (uid_of (sched @ newPods)) (placed_as (placements (fst sg)))"
  shows "log_fits F Map.empty (listed xs @ hist)" "list_all (\<lambda>x. event_fits F Map.empty (''ADDED'', x)) xs"
proof -
  let ?U = "uid_of (sched @ newPods)" and ?P = "placed_as (placements (fst sg))"
  from assms(1) have pl: "pod_log (sched @ newPods) xs hist (cc_objects (ss_cc (fst sg)) Pods)" by (simp add: logged_run_def)
  from assms(1) obtain outs where at: "sim_at n newPods sched (initial_objects sched nodes) outs (fst sg)"
    by (auto simp: logged_run_def watched_run_def sim_inv_def)
  have ok: "fst ev \<noteq> ''DELETED'' \<and> settling_pod nodes ?U ?P (snd ev)" if ev: "ev \<in> set (listed xs @ hist)" for ev
  proof -
    from pl ev have "about (sched @ newPods) ev" unfolding pod_log_def list_all_iff by blast
    then obtain t p q where p: "ev = (t, PodO p)" "t \<noteq> ''DELETED''" "q \<in> set (sched @ newPods)" "pod_meta p = pod_meta q"
      by (cases ev) (auto simp: about_def)
    have "p = ?P (pod_key p) \<and> pod_NodeName p \<in> node_name ` set nodes" if "assignedNonTerminatedPod p"
    proof -
      from pl ev p(1) calm_member [OF _ _ p(2) that] have "cc_objects (ss_cc (fst sg)) Pods (pod_key p) = Some (PodO p)"
        unfolding pod_log_def by metis
      from assigned_placed [OF at assms(2,3) this that] show ?thesis
        using assms(5) find_key [OF placements_keys [OF at assms(2)]] by (auto simp: placed_as_def hosted_def list_all_iff)
    qed
    with uid_of_meta [OF assms(4,2) p(3,4)] p(1,2) show ?thesis by (auto simp: settling_pod_def)
  qed
  show "log_fits F Map.empty (listed xs @ hist)"
    unfolding F_def by (rule fits_settling) (use pl ok in \<open>auto simp: pod_log_def\<close>)
  have "event_fits F Map.empty (''ADDED'', x)" if "x \<in> set xs" for x
  proof -
    from ok [of "(''ADDED'', x)"] that have s: "settling_pod nodes ?U ?P x" by auto
    from settling_is_pod [OF this] obtain p where "x = PodO p" by blast
    with s show ?thesis by (simp add: F_def event_fits_def settling_def pod_event_def is_pod_def)
  qed
  then show "list_all (\<lambda>x. event_fits F Map.empty (''ADDED'', x)) xs" by (simp add: list_all_iff)
qed

section \<open>Informers that follow the log\<close>

text \<open>
  The scheduler's own operations on the cache while it runs: it learns of the nodes, assumes the pods it
  places (\<open>ps\<close>), reports their bindings as finished, and no assumed pod expires.
\<close>

definition scheduler_does :: "node list \<Rightarrow> pod list \<Rightarrow> sched_cache \<Rightarrow> cache_op \<Rightarrow> bool" where
  "scheduler_does nodes ps c op =
     (case op of
        OpAddNode x \<Rightarrow> x \<in> set nodes \<and> \<not> knows c x
      | OpAssume q \<Rightarrow> (\<exists>p h. q = p\<lparr>pod_NodeName := h\<rparr> \<and> bound_pod p h \<in> set ps)
      | OpFinish _ _ \<Rightarrow> True
      | OpCleanup now \<Rightarrow> (\<forall>u. \<not> due now c u)
      | _ \<Rightarrow> False)"

text \<open>
  An informer that has listed \<open>xs\<close> and receives, one by one, the events of \<open>hist\<close>: \<open>evs\<close> is what it has
  got so far, the other arguments are as in \<open>feed\<close>.
\<close>

inductive follows_log ::
    "node list \<Rightarrow> pod list \<Rightarrow> obj list \<Rightarrow> watch_event list \<Rightarrow> watch_event list \<Rightarrow> informer_sys \<Rightarrow> nat \<Rightarrow> cache_nodes \<Rightarrow> bool"
  for nodes ps xs hist where
  start: "follows_log nodes ps xs hist (listed xs) (informer_start ttl xs) 0 []"
| step: "follows_log nodes ps xs hist evs s k m \<Longrightarrow> informer_step (\<lambda>_ _. True) (scheduler_does nodes ps) evs s evs' s' \<Longrightarrow>
    prefix evs' (listed xs @ hist) \<Longrightarrow> follows_log nodes ps xs hist evs' s' (k + 2) m"
| refresh: "follows_log nodes ps xs hist evs s k m \<Longrightarrow> m = [] \<or> k < 2 ^ 64 \<Longrightarrow> \<forall>x \<in> set nodes. knows (is_cache s) x \<Longrightarrow>
    follows_log nodes ps xs hist evs s 0 (UpdateNodeNameToInfoMap (is_cache s) m)"

lemma step_fits:
  assumes "informer_step (\<lambda>_ _. True) good evs s evs' s'" "prefix evs' full" "log_fits F Map.empty full"
    and "\<And>c op. good c op \<Longrightarrow> good' c op"
  shows "informer_step (event_fits F) good' evs s evs' s'"
  using assms(1)
proof (cases rule: informer_step.cases)
  case (event ev)
  from assms(2) event(1) obtain rest where "full = evs @ ev # rest" by (auto simp: prefix_def)
  with assms(3) have "event_fits F (replayed evs) ev" by (simp add: log_fits_append replayed_fold)
  from informer_step.event [where ok = "event_fits F", OF this] event show ?thesis by simp
qed (use assms(4) in \<open>auto intro: informer_step.intros\<close>)

lemma follows_feed:
  assumes "follows_log nodes ps xs hist evs s k m" "log_fits (settling nodes U P) Map.empty (listed xs @ hist)"
    and "list_all (\<lambda>x. event_fits (settling nodes U P) Map.empty (''ADDED'', x)) xs" "distinct (map obj_key xs)"
    and "\<And>c op. scheduler_does nodes ps c op \<Longrightarrow> simulation_op nodes U P c op"
  shows "feed nodes U P evs s k m"
  using assms(1)
proof (induction rule: follows_log.induct)
  case (start ttl)
  from feed.start [OF assms(3,4)] show ?case .
next
  case (step evs s k m evs' s')
  from feed.step [OF step.IH step_fits [OF step.hyps(2,3) assms(2,5)]] show ?case .
next
  case (refresh evs s k m)
  from feed.refresh [OF refresh.IH refresh.hyps(2,3)] show ?case .
qed

lemma does_simulation_op:
  assumes "sim_at n newPods sched L outs s" "distinct (map pod_key (sched @ newPods))" "identified (sched @ newPods)"
    and "hosted nodes (placements s)" "scheduler_does nodes (placements s) c op"
  shows "simulation_op nodes (uid_of (sched @ newPods)) (placed_as (placements s)) c op"
proof (cases op)
  case (OpAssume q)
  with assms(5) obtain p h where p: "q = p\<lparr>pod_NodeName := h\<rparr>" "bound_pod p h \<in> set (placements s)"
    by (auto simp: scheduler_does_def)
  have "placed_as (placements s) (pod_key p) = bound_pod p h"
    using find_key [OF placements_keys [OF assms(1,2)] p(2)] by (simp add: placed_as_def bound_pod_def)
  moreover have "h \<in> node_name ` set nodes"
    using assms(4) p(2) by (auto simp: hosted_def list_all_iff bound_pod_def)
  moreover have "getPodKey p = Ok (uid_of (sched @ newPods) (pod_key p))"
  proof -
    from p(2) placed_meta [of "bound_pod p h" "outs @ taken s"] arg_cong [OF taken_todo [OF assms(1)], of set]
    obtain r where "r \<in> set (sched @ newPods)" "pod_meta (bound_pod p h) = pod_meta r"
      unfolding sim_at_placements [OF assms(1)] set_append set_rev by blast
    then show ?thesis by (intro uid_of_meta [OF assms(3,2)]) (simp_all add: bound_pod_def)
  qed
  ultimately have "bound_pod p h = placed_as (placements s) (pod_key p) \<and> getPodKey p = Ok (uid_of (sched @ newPods) (pod_key p)) \<and>
      h \<in> node_name ` set nodes" by simp
  then show ?thesis unfolding OpAssume p(1) simulation_op_def cache_op.case by blast
qed (use assms(5) in \<open>simp_all add: scheduler_does_def simulation_op_def\<close>)

lemma logged_feed:
  assumes "logged_run enc f n i newPods sched nodes xs hist sg" "distinct (map pod_key (sched @ newPods))"
    and "list_all unassignedNonTerminatedPod newPods" "identified (sched @ newPods)" "hosted nodes (placements (fst sg))"
    and "distinct (map obj_key xs)" "follows_log nodes (placements (fst sg)) xs hist evs t k m"
  shows "feed nodes (uid_of (sched @ newPods)) (placed_as (placements (fst sg))) evs t k m"
proof -
  from assms(1) obtain outs where at: "sim_at n newPods sched (initial_objects sched nodes) outs (fst sg)"
    by (auto simp: logged_run_def watched_run_def sim_inv_def)
  show ?thesis
    by (rule follows_feed [OF assms(7) log_settles [OF assms(1-5)] assms(6)]) (rule does_simulation_op [OF at assms(2,4,5)])
qed

text \<open>What the scheduler sees through an informer that follows the log.\<close>

lemma logged_view:
  assumes "logged_run enc f n i newPods sched nodes xs hist (s, got)" "distinct (map pod_key (sched @ newPods))"
    and "list_all unassignedNonTerminatedPod newPods" "identified (sched @ newPods)" "hosted nodes (placements s)"
    and "distinct (map obj_key xs)" "distinct (map node_name nodes)" "follows_log nodes (placements s) xs hist evs t k m"
  shows "\<exists>k' ns ps. k' \<le> k \<and> sched_view k' ns ps (is_cache t) m \<and> set ns = {x \<in> set nodes. knows (is_cache t) x} \<and>
    set ps = {p \<in> set (placements s). life (is_cache t) (om_UID (pod_meta p)) \<noteq> Absent} \<and>
    (evs = listed xs @ hist \<and> df_queue (is_fifo t) = [] \<and> is_toCache t = [] \<longrightarrow>
       (\<forall>k p. cc_objects (ss_cc s) Pods k = Some (PodO p) \<and> assignedNonTerminatedPod p \<longrightarrow> p \<in> set ps))"
proof -
  let ?U = "uid_of (sched @ newPods)" and ?P = "placed_as (placements s)"
  from assms(1) obtain outs where at: "sim_at n newPods sched (initial_objects sched nodes) outs s"
    by (auto simp: logged_run_def watched_run_def sim_inv_def)
  have "feed nodes ?U ?P evs t k m" using logged_feed [OF assms(1-4) _ assms(6)] assms(5,8) by simp
  from informers_view [OF inj_uid_of [OF assms(4)] assms(7) this] obtain k' ns ps where
    v: "k' \<le> k" "sched_view k' ns ps (is_cache t) m" "set ns = {x \<in> set nodes. knows (is_cache t) x}"
      "\<forall>p. p \<in> set ps \<longrightarrow> (\<exists>key. p = ?P key \<and> getPodKey p = Ok (?U key))"
      "\<forall>key. getPodKey (?P key) = Ok (?U key) \<longrightarrow> (?P key \<in> set ps \<longleftrightarrow> life (is_cache t) (?U key) \<noteq> Absent)"
      "df_queue (is_fifo t) = [] \<and> is_toCache t = [] \<longrightarrow>
         (\<forall>key p. replayed evs key = Some (PodO p) \<and> assignedNonTerminatedPod p \<longrightarrow> p \<in> set ps)"
    by (elim exE conjE) (rule that)
  have placed: "?P (pod_key p) = p \<and> getPodKey p = Ok (?U (pod_key p)) \<and> ?U (pod_key p) = om_UID (pod_meta p)"
    if p: "p \<in> set (placements s)" for p
  proof -
    have "\<exists>q \<in> set (sched @ newPods). pod_meta p = pod_meta q"
      using p placed_meta [of p "outs @ taken s"] arg_cong [OF taken_todo [OF at], of set]
      unfolding sim_at_placements [OF at] set_append set_rev by blast
    then have "getPodKey p = Ok (?U (pod_key p))" using uid_of_meta [OF assms(4,2)] by blast
    with find_key [OF placements_keys [OF at assms(2)] p] show ?thesis by (auto simp: placed_as_def getPodKey_Ok)
  qed
  have "p \<in> set (placements s)" if "p \<in> set ps" for p
  proof -
    from v(4) that obtain key where "p = ?P key" "getPodKey p = Ok (?U key)" by blast
    then show ?thesis
      by (cases "find (\<lambda>p. pod_key p = key) (placements s)")
        (auto simp: placed_as_def getPodKey_Ok empty_pod_def empty_meta_def dest: find_key_Some)
  qed
  then have "set ps = {p \<in> set (placements s). life (is_cache t) (om_UID (pod_meta p)) \<noteq> Absent}"
    using v(5) placed by (auto; metis)
  moreover have "replayed (listed xs @ hist) = cc_objects (ss_cc s) Pods" using assms(1) by (simp add: logged_run_def pod_log_def)
  ultimately show ?thesis using v(1-3,6) by (intro exI [of _ k'] exI [of _ ns] exI [of _ ps]) auto
qed

text \<open>
  What the algorithm decides on such a view is a decision of \<open>gs_algorithm\<close>, when the cache has been told of
  every node and of every pod that has one.
\<close>

lemma logged_waiting:
  assumes "logged_run enc f n i newPods sched nodes xs hist (s, got)" "ss_waiting s = p # w"
  shows "\<exists>h rest. rev newPods = map fst h @ p # rest \<and> placements s = sched @ placed h"
proof -
  from assms(1) obtain outs where at: "sim_at n newPods sched (initial_objects sched nodes) outs s"
    by (auto simp: logged_run_def watched_run_def sim_inv_def)
  from taken_todo [OF at] assms(2) have "rev newPods = map fst (outs @ taken s) @ p # w @ cc_pending (ss_cc s)" by simp
  with sim_at_placements [OF at] show ?thesis by blast
qed

lemma logged_decision:
  assumes "logged_run enc f n i newPods sched nodes xs hist (s, got)" "distinct (map pod_key (sched @ newPods))"
    and "list_all unassignedNonTerminatedPod newPods" "identified (sched @ newPods)" "hosted nodes (placements s)"
    and "distinct (map obj_key xs)" "distinct (map node_name nodes)" "follows_log nodes (placements s) xs hist evs t k m"
    and "\<forall>x \<in> set nodes. knows (is_cache t) x"
    and "\<forall>q \<in> set (placements s). life (is_cache t) (om_UID (pod_meta q)) \<noteq> Absent" "m = [] \<or> k < 2 ^ 64" "arranges arrange"
    and "gs_Schedule arrange (map_of (UpdateNodeNameToInfoMap (is_cache t) m)) nodes p (g\<lparr>gs_lastNodeIndex := j\<rparr>) = (g', Ok r)"
    and "placements s = sched @ placed h"
  shows "gs_algorithm g nodes sched h p (as_decision r)"
proof -
  from assms(1) obtain outs where at: "sim_at n newPods sched (initial_objects sched nodes) outs s"
    by (auto simp: logged_run_def watched_run_def sim_inv_def)
  from logged_view [OF assms(1-8)] obtain k' ns ps where v: "k' \<le> k" "sched_view k' ns ps (is_cache t) m"
      "set ns = {x \<in> set nodes. knows (is_cache t) x}"
      "set ps = {p \<in> set (placements s). life (is_cache t) (om_UID (pod_meta p)) \<noteq> Absent}"
    by (elim exE conjE) (rule that)
  have "set ps = set (sched @ placed h)" "set ns = set nodes" using v(3,4) assms(9,10) by (auto simp flip: assms(14))
  moreover have "distinct (sched @ placed h)" "distinct nodes"
    using placements_keys [OF at assms(2)] assms(7) unfolding distinct_map assms(14) by blast+
  moreover have "m = [] \<or> k' < 2 ^ 64" using v(1) assms(11) by auto
  ultimately show ?thesis using view_decision [OF v(2) _ _ _ _ _ assms(12,13)] by blast
qed

text \<open>Every state of a watched simulation that \<open>New\<close> starts is such a state.\<close>

lemma logged_reachable:
  assumes "enc_total enc f" "SchedulerConfigLocal k (srv_AlgorithmSource srv) = Ok cfg"
    and "list_all unassignedNonTerminatedPod newPods" "assigned pods" "sim_New enc k srv newPods pods nodes = Ok (c, lb, cfg')"
    and "distinct (map pod_key (pods @ newPods))"
    and "createWatchReadCloser enc Pods Everything (fst (cc_store c)) (snd (cc_store c)) = (e, Ok i)"
    and "(watch_step (srv_SchedulerName srv) i)\<^sup>*\<^sup>* (set_env e (sim_initial c), []) (s, got)"
  shows "\<exists>hist. logged_run enc f (srv_SchedulerName srv) i newPods pods nodes (rs_List Pods (fst (cc_store c))) hist (s, got) \<and>
    distinct (map obj_key (rs_List Pods (fst (cc_store c))))"
proof -
  let ?xs = "rs_List Pods (fst (cc_store c))"
  note at = New_starts(1) [OF assms(1,2,4,5)]
  from logged_opened [OF assms(1,5,6) at] assms(7)
  have "logged_run enc f (srv_SchedulerName srv) i newPods pods nodes ?xs (listed ?xs) (set_env e (sim_initial c), [])" by auto
  from logged_steps [OF assms(1,3,6,8) this] obtain hist where
    "logged_run enc f (srv_SchedulerName srv) i newPods pods nodes ?xs hist (s, got)" by blast
  moreover have "distinct (map obj_key ?xs)"
    using at by (intro rs_List_keys) (simp add: sim_at_def cc_good_def good_state_def sim_initial_def)
  ultimately show ?thesis by blast
qed

lemmas follows_moves =
  follows_log.step [OF _ informer_step.event] follows_log.step [OF _ informer_step.pop] follows_log.step [OF _ informer_step.to_cache]
  follows_log.step [OF _ informer_step.sched]

end
