(* ===== verification/Simulation_Retry.thy ===== *)
theory Simulation_Retry
  imports Simulation_Start
begin

text \<open>
  The scheduler's loop and the errors that are not fit errors.

  \<open>Scheduler.Run\<close> starts \<open>wait.Until(sched.scheduleOne, 0, StopEverything)\<close>: before each round
  it looks whether the simulator has closed \<open>StopEverything\<close>; a round takes a pod from the queue and
  decides it; a binding goes on in a goroutine of its own, but a failed decision is carried out to its end
  first (\<open>vendor/k8s.io/kubernetes/pkg/scheduler/scheduler.go\<close>).  For an error that is not a fit
  error \<open>Config.Error\<close> is the default error function, which puts the pod back into the queue after a
  backoff (\<open>factory.go\<close>).  \<open>loop_step\<close> is this loop around the steps of \<open>sim_step\<close>.

  Shown: as long as only fit errors occur, every step of the loop is a step of \<open>sim_step\<close> or leaves the
  simulation as it is (\<open>loop_step_sim\<close>), so that what holds of all runs of \<open>sim_step\<close> holds of
  the loop; and a run in which three pods fail with another error, one of them twice and one never
  (\<open>fails_twice\<close>).
\<close>

section \<open>The loop\<close>

text \<open>Not started; at the check of \<open>StopEverything\<close>; waiting for a pod; in a failed decision; ended.\<close>

datatype sched_loop = LoopOff | LoopCheck | LoopNext | LoopBusy | LoopEnded

definition stop_everything :: "string \<Rightarrow> cluster_capacity \<Rightarrow> bool" where
  "stop_everything n c = (map_of (cc_stopEverything c) n = Some True)"

text \<open>The queue of the scheduler keeps one entry per key.\<close>

definition AddUnschedulableIfNotPresent :: "pod \<Rightarrow> pod list \<Rightarrow> pod list" where
  "AddUnschedulableIfNotPresent p w = (if pod_key p \<in> pod_key ` set w then w else w @ [p])"

text \<open>
  The goroutine of the default error function once its backoff is over: the pod is read again, and queued
  again when it still exists and has no node.
\<close>

definition requeue :: "pod \<Rightarrow> sim_sys \<Rightarrow> sim_sys" where
  "requeue p s =
     (case rs_lookup (fst (cc_store (ss_cc s))) Pods (pod_key p) of
        Some (PodO p') \<Rightarrow>
          if pod_NodeName p' = [] then s\<lparr>ss_waiting := AddUnschedulableIfNotPresent p' (ss_waiting s)\<rparr> else s
      | _ \<Rightarrow> s)"

fun sched_err_text :: "sched_error \<Rightarrow> string" where
  "sched_err_text (FitError m) = m"
| "sched_err_text (OtherError m) = m"

text \<open>The tasks of a failed decision, which the loop itself carries out.\<close>

fun is_failing :: "task \<Rightarrow> bool" where
  "is_failing (TFail p m) = True"
| "is_failing (TUpdate p m) = True"
| "is_failing _ = False"

text \<open>
  A failed decision is over when its \<open>Update\<close> has returned, which includes the send on \<open>stop\<close> when
  there was no next pod.  The steps of \<open>sim_step\<close> that are not decisions do not take a pod from the
  queue.
\<close>

inductive loop_step :: "string \<Rightarrow> sim_sys \<times> sched_loop \<Rightarrow> sim_sys \<times> sched_loop \<Rightarrow> bool" for n where
  run_start: "ss_pc s = NotStarted \<Longrightarrow> sim_step n s s' \<Longrightarrow> ss_pc s' \<noteq> NotStarted \<Longrightarrow>
    loop_step n (s, LoopOff) (s', LoopCheck)"
| check_open: "\<not> stop_everything n (ss_cc s) \<Longrightarrow> loop_step n (s, LoopCheck) (s, LoopNext)"
| check_closed: "stop_everything n (ss_cc s) \<Longrightarrow> loop_step n (s, LoopCheck) (s, LoopEnded)"
| schedule_ok: "ss_waiting s = p # w \<Longrightarrow>
    loop_step n (s, LoopNext) (s\<lparr>ss_waiting := w, ss_tasks := ss_tasks s @ [TBind p h]\<rparr>, LoopCheck)"
| schedule_err: "ss_waiting s = p # w \<Longrightarrow>
    loop_step n (s, LoopNext)
      (s\<lparr>ss_waiting := w, ss_tasks := ss_tasks s @ [TFail p (sched_err_text err)],
         ss_retry := wrappedErrorFn (\<lambda>p e r. r @ [p]) p err (ss_retry s)\<rparr>, LoopBusy)"
| schedule_ret: "list_all (\<lambda>t. \<not> is_failing t) (ss_tasks s) \<Longrightarrow> cc_stopSends (ss_cc s) = 0 \<Longrightarrow>
    loop_step n (s, LoopBusy) (s, LoopCheck)"
| goroutine: "ss_pc s \<noteq> NotStarted \<Longrightarrow> sim_step n s s' \<Longrightarrow> length (ss_waiting s) \<le> length (ss_waiting s') \<Longrightarrow>
    loop_step n (s, l) (s', l)"
| retry: "ss_retry s = a @ p # b \<Longrightarrow> loop_step n (s, l) ((requeue p s)\<lparr>ss_retry := a @ b\<rparr>, l)"

inductive_cases loop_stepE: "loop_step n x y"

text \<open>With fit errors only, the loop does nothing \<open>sim_step\<close> does not do.\<close>

lemma loop_step_sim:
  assumes "loop_step n x y" "ss_retry (fst x) = []" "ss_retry (fst y) = []"
  shows "fst y = fst x \<or> sim_step n (fst x) (fst y)"
  using assms(1)
proof (rule loop_stepE)
  fix s p w err
  assume w: "ss_waiting s = p # w" and x: "x = (s, LoopNext)" and
    y: "y = (s\<lparr>ss_waiting := w, ss_tasks := ss_tasks s @ [TFail p (sched_err_text err)],
         ss_retry := wrappedErrorFn (\<lambda>p e r. r @ [p]) p err (ss_retry s)\<rparr>, LoopBusy)"
  have "wrappedErrorFn (\<lambda>p e r. r @ [p]) p err (ss_retry s) = ss_retry s"
    using assms(2,3) x y by (cases err) (simp_all add: wrappedErrorFn_def)
  then have "fst y = s\<lparr>ss_waiting := w, ss_tasks := ss_tasks s @ [TFail p (sched_err_text err)]\<rparr>"
    unfolding y by (intro sim_sys.equality) simp_all
  then show ?thesis using sim_step.decide_fail [OF w] x by simp
qed (use assms(2) in \<open>auto intro: sim_step.decide_bind\<close>)

section \<open>Rounds in which a decision fails with an error that is not a fit error\<close>

text \<open>A state between two rounds, with room for \<open>room\<close> more events.\<close>

definition between_rounds :: "string \<Rightarrow> nat \<Rightarrow> sim_sys \<Rightarrow> bool" where
  "between_rounds n room s =
     (ss_pc s = Waiting \<and> ss_tasks s = [] \<and> cc_good (ss_cc s) \<and> open_channels (ss_cc s) \<and>
      n \<in> fst ` set (cc_stopEverything (ss_cc s)) \<and>
      (\<exists>e. map_of (cc_recorders (ss_cc s)) n = Some e \<and> rec_bounded 10 e \<and> length (rec_items e) + room \<le> 10))"

lemma open_not_stopped: "open_channels c \<Longrightarrow> \<not> stop_everything n c"
  by (fastforce simp: open_channels_def stop_everything_def list_ex_iff dest: map_of_SomeD)

lemma closed_stopped: "n \<in> fst ` set m \<Longrightarrow> map_of (map (\<lambda>(n, b). (n, True)) m) n = Some True"
  by (induction m) auto

text \<open>The steps of the simulation that finish a round, as steps of the loop.\<close>

lemma goroutine_step:
  assumes "sim_step n s s'" "ss_pc s = Waiting" "length (ss_waiting s) \<le> length (ss_waiting s')"
    "(loop_step n)\<^sup>*\<^sup>* x (s, l)"
  shows "(loop_step n)\<^sup>*\<^sup>* x (s', l)"
  using rtranclp.rtrancl_into_rtrancl [OF assms(4) loop_step.goroutine [OF _ assms(1,3)]] assms(2) by simp

lemma failed_decision:
  assumes s: "between_rounds n (Suc room) s" and w: "ss_waiting s = p # w"
  shows "\<exists>s' R e. (loop_step n)\<^sup>*\<^sup>* (s, LoopCheck) (s', LoopBusy) \<and> ss_cc s' = (ss_cc s)\<lparr>cc_recorders := R\<rparr> \<and>
    ss_pc s' = Waiting \<and> ss_waiting s' = w \<and> ss_tasks s' = [TUpdate p m] \<and> ss_retry s' = ss_retry s @ [p] \<and>
    map_of R n = Some e \<and> rec_bounded 10 e \<and> length (rec_items e) + room \<le> 10"
proof -
  obtain e where e: "map_of (cc_recorders (ss_cc s)) n = Some e" "rec_bounded 10 e" "length (rec_items e) + Suc room \<le> 10"
    using s by (auto simp: between_rounds_def)
  have st: "ss_tasks s = []" "ss_pc s = Waiting" "open_channels (ss_cc s)" using s by (simp_all add: between_rounds_def)
  obtain c1 where c1: "record_event n ''Warning'' ''FailedScheduling'' m (ss_cc s) = Some c1"
    using record_event_enabled [OF e(1,2)] e(3) by force
  from record_event_Some [OF c1 e(1,2)] obtain e' where
    e': "c1 = (ss_cc s)\<lparr>cc_recorders := AList.update n e' (cc_recorders (ss_cc s)), cc_drains := cc_drains (ss_cc s)\<rparr>"
      "rec_bounded 10 e'" "length (rec_items e') = Suc (length (rec_items e))" by blast
  let ?R = "AList.update n e' (cc_recorders (ss_cc s))"
  have R: "c1 = (ss_cc s)\<lparr>cc_recorders := ?R\<rparr>" unfolding e'(1) by simp
  let ?s1 = "s\<lparr>ss_waiting := w, ss_tasks := ss_tasks s @ [TFail p m], ss_retry := ss_retry s @ [p]\<rparr>"
  let ?s2 = "?s1\<lparr>ss_cc := c1, ss_tasks := [] @ TUpdate p m # []\<rparr>"
  have "loop_step n (s, LoopCheck) (s, LoopNext)"
    by (rule loop_step.check_open [OF open_not_stopped [OF st(3)]])
  moreover have "loop_step n (s, LoopNext) (?s1, LoopBusy)"
    using loop_step.schedule_err [OF w, of n "OtherError m"] by (simp add: wrappedErrorFn_def)
  ultimately have one: "(loop_step n)\<^sup>*\<^sup>* (s, LoopCheck) (?s1, LoopBusy)" by simp
  have "sim_step n ?s1 ?s2"
    by (rule sim_step.fail_event) (use c1 st in simp_all)
  then have "(loop_step n)\<^sup>*\<^sup>* (s, LoopCheck) (?s2, LoopBusy)"
    by (rule goroutine_step [OF _ _ _ one]) (simp_all add: st)
  then show ?thesis using e e' st R by (intro exI [of _ ?s2] exI [of _ ?R] exI [of _ e']) simp
qed

text \<open>A round that fails while there is a next pod to serve.\<close>

lemma failed_round:
  assumes s: "between_rounds n (Suc room) s" and w: "ss_waiting s = p # w"
    and y: "cc_pending (ss_cc s) = y # ys" "unassignedNonTerminatedPod y"
  shows "\<exists>s'. (loop_step n)\<^sup>*\<^sup>* (s, LoopCheck) (s', LoopCheck) \<and> between_rounds n room s' \<and>
    ss_waiting s' = w @ [y] \<and> ss_retry s' = ss_retry s @ [p] \<and> cc_pending (ss_cc s') = ys \<and>
    FailedPods (cc_status (ss_cc s')) = FailedPods (cc_status (ss_cc s)) @ [failed_pod p m] \<and>
    SuccessfulPods (cc_status (ss_cc s')) = SuccessfulPods (cc_status (ss_cc s)) \<and>
    cc_objects (ss_cc s') = put_pod y (cc_objects (ss_cc s))"
proof -
  from failed_decision [OF s w, of m] obtain s1 R e where
    steps: "(loop_step n)\<^sup>*\<^sup>* (s, LoopCheck) (s1, LoopBusy)" and s1: "ss_cc s1 = (ss_cc s)\<lparr>cc_recorders := R\<rparr>"
      "ss_pc s1 = Waiting" "ss_waiting s1 = w" "ss_tasks s1 = [TUpdate p m]" "ss_retry s1 = ss_retry s @ [p]"
    and R: "map_of R n = Some e" "rec_bounded 10 e" "length (rec_items e) + room \<le> 10" by blast
  let ?c1 = "(ss_cc s)\<lparr>cc_recorders := R\<rparr>"
  let ?c2 = "add_drain n (?c1\<lparr>cc_status := (cc_status ?c1)\<lparr>FailedPods := FailedPods (cc_status ?c1) @ [failed_pod p m]\<rparr>\<rparr>)"
  have c: "cc_good (ss_cc s)" "open_channels (ss_cc s)" "n \<in> fst ` set (cc_stopEverything (ss_cc s))"
    using s by (simp_all add: between_rounds_def)
  have "cc_good ?c2" "cc_pending ?c2 = y # ys" using c y(1) by (simp_all add: cc_good_def add_drain_def)
  from deferred_more [OF this, of "''Fail''"] obtain q st where
    q: "deferred ''Fail'' ?c2 = (?c2\<lparr>cc_queue := q, cc_store := st\<rparr>, Ok ())" "pending_pods q = ys"
      "cc_good (?c2\<lparr>cc_queue := q, cc_store := st\<rparr>)" "rs_lookup (fst st) = put_pod y (cc_objects ?c2)" by blast
  let ?c3 = "?c2\<lparr>cc_queue := q, cc_store := st\<rparr>"
  let ?s2 = "s1\<lparr>ss_cc := ?c3, ss_waiting := ss_waiting s1 @ admitted (ss_cc s1), ss_tasks := [] @ []\<rparr>"
  have adm: "admitted (ss_cc s1) = [y]" using pq.pop_Cons [of "cc_queue ?c1"] y by (simp add: s1 admitted_def)
  have "cc_Update p (fail_condition m) n (ss_cc s1) = (?c3, Ok ())" unfolding s1(1) Update_fail q(1) ..
  then have "sim_step n s1 ?s2" by (intro sim_step.update_ok) (simp_all add: s1)
  then have "(loop_step n)\<^sup>*\<^sup>* (s, LoopCheck) (?s2, LoopBusy)"
    by (rule goroutine_step [OF _ s1(2) _ steps]) simp
  moreover have "loop_step n (?s2, LoopBusy) (?s2, LoopCheck)"
    by (rule loop_step.schedule_ret) (use c(2) in \<open>simp_all add: open_channels_def add_drain_def\<close>)
  ultimately have "(loop_step n)\<^sup>*\<^sup>* (s, LoopCheck) (?s2, LoopCheck)" by (rule rtranclp.rtrancl_into_rtrancl)
  moreover have "between_rounds n room ?s2"
    using c R q(3) s1(2) by (simp add: between_rounds_def open_channels_def add_drain_def)
  ultimately show ?thesis
    using q(2,4) s1(3,5) adm by (intro exI [of _ ?s2]) (simp add: add_drain_def)
qed

text \<open>A round that fails when no pod is left: everything is closed, \<open>Run\<close> returns and the loop ends.\<close>

lemma last_round:
  assumes s: "between_rounds n (Suc room) s" and w: "ss_waiting s = p # w" and none: "cc_pending (ss_cc s) = []"
  shows "\<exists>s'. (loop_step n)\<^sup>*\<^sup>* (s, LoopCheck) (s', LoopEnded) \<and> ss_pc s' = Returned \<and> ss_waiting s' = w \<and>
    ss_tasks s' = [] \<and>
    FailedPods (cc_status (ss_cc s')) = FailedPods (cc_status (ss_cc s)) @ [failed_pod p m] \<and>
    SuccessfulPods (cc_status (ss_cc s')) = SuccessfulPods (cc_status (ss_cc s))"
proof -
  from failed_decision [OF s w, of m] obtain s1 R where
    steps: "(loop_step n)\<^sup>*\<^sup>* (s, LoopCheck) (s1, LoopBusy)" and s1: "ss_cc s1 = (ss_cc s)\<lparr>cc_recorders := R\<rparr>"
      "ss_pc s1 = Waiting" "ss_waiting s1 = w" "ss_tasks s1 = [TUpdate p m]" by blast
  let ?c1 = "(ss_cc s)\<lparr>cc_recorders := R\<rparr>"
  let ?c2 = "add_drain n (?c1\<lparr>cc_status := (cc_status ?c1)\<lparr>FailedPods := FailedPods (cc_status ?c1) @ [failed_pod p m]\<rparr>\<rparr>)"
  let ?c3 = "(close_all ''Fail'' ?c2)\<lparr>cc_stopSends := 1\<rparr>"
  have c: "open_channels (ss_cc s)" "n \<in> fst ` set (cc_stopEverything (ss_cc s))"
    using s by (simp_all add: between_rounds_def)
  have "open_channels ?c2" "cc_pending ?c2 = []" using c none by (simp_all add: open_channels_def add_drain_def)
  note q = deferred_none [OF this, of "''Fail''"]
  let ?s2 = "s1\<lparr>ss_cc := ?c3, ss_waiting := ss_waiting s1 @ admitted (ss_cc s1), ss_tasks := [] @ []\<rparr>"
  let ?s3 = "?s2\<lparr>ss_cc := run_end (ss_cc ?s2), ss_pc := Returned\<rparr>"
  have adm: "admitted (ss_cc s1) = []" using pq.pop_None_iff [of "cc_queue ?c1"] none by (simp add: s1 admitted_def)
  have "cc_Update p (fail_condition m) n (ss_cc s1) = (?c3, Ok ())" unfolding s1(1) Update_fail q ..
  then have "sim_step n s1 ?s2" by (intro sim_step.update_ok) (simp_all add: s1)
  then have 2: "(loop_step n)\<^sup>*\<^sup>* (s, LoopCheck) (?s2, LoopBusy)"
    by (rule goroutine_step [OF _ s1(2) _ steps]) simp
  have "sim_step n ?s2 ?s3" by (rule sim_step.stop) (simp_all add: s1(2))
  then have 3: "(loop_step n)\<^sup>*\<^sup>* (s, LoopCheck) (?s3, LoopBusy)"
    by (rule goroutine_step [OF _ _ _ 2]) (simp_all add: s1(2))
  have 4: "loop_step n (?s3, LoopBusy) (?s3, LoopCheck)"
    by (rule loop_step.schedule_ret) (simp_all add: run_end_def)
  have "stop_everything n (ss_cc ?s3)"
    using c(2) closed_stopped [of n "cc_stopEverything (ss_cc s)"]
    by (simp add: stop_everything_def run_end_def close_all_def add_drain_def)
  then have 5: "loop_step n (?s3, LoopCheck) (?s3, LoopEnded)" by (rule loop_step.check_closed)
  define s3 where "s3 = ?s3"
  have "(loop_step n)\<^sup>*\<^sup>* (s, LoopCheck) (s3, LoopBusy)" "loop_step n (s3, LoopBusy) (s3, LoopCheck)"
    "loop_step n (s3, LoopCheck) (s3, LoopEnded)" unfolding s3_def by (fact 3 4 5)+
  then have "(loop_step n)\<^sup>*\<^sup>* (s, LoopCheck) (s3, LoopEnded)" by (meson rtranclp.rtrancl_into_rtrancl)
  moreover have "ss_pc s3 = Returned" "ss_waiting s3 = w" "ss_tasks s3 = []"
    "FailedPods (cc_status (ss_cc s3)) = FailedPods (cc_status (ss_cc s)) @ [failed_pod p m]"
    "SuccessfulPods (cc_status (ss_cc s3)) = SuccessfulPods (cc_status (ss_cc s))"
    using s1(3) adm by (simp_all add: s3_def run_end_def add_drain_def)
  ultimately show ?thesis by blast
qed

section \<open>A pod that fails twice\<close>

lemma requeue_stored:
  assumes "cc_objects (ss_cc s) Pods (pod_key p) = Some (PodO p)" "unassignedNonTerminatedPod p"
    "pod_key p \<notin> pod_key ` set (ss_waiting s)"
  shows "requeue p s = s\<lparr>ss_waiting := ss_waiting s @ [p]\<rparr>"
proof -
  have "pod_NodeName p = []" using assms(2) by (simp add: unassignedNonTerminatedPod_def split: if_splits)
  with assms show ?thesis by (simp add: requeue_def AddUnschedulableIfNotPresent_def)
qed

text \<open>
  Three pods.  The first fails and comes back to the queue before the third is served; its second failure
  finds no pod left and closes everything, with the third pod in the queue.
\<close>

lemma fails_twice:
  assumes inv: "sim_inv n [r, q, p] sched L (sim_initial c)" and dr: "cc_drains c = []"
    and n: "cc_stopEverything c = [(n, False)]"
    and una: "list_all unassignedNonTerminatedPod [p, q, r]" and keys: "distinct (map pod_key [p, q, r])"
  shows "\<exists>s. (loop_step n)\<^sup>*\<^sup>* (sim_initial c, LoopOff) (s, LoopEnded) \<and> ss_pc s = Returned \<and> ss_tasks s = [] \<and>
    FailedPods (cc_status (ss_cc s)) = [failed_pod p m, failed_pod q m, failed_pod p m] \<and>
    SuccessfulPods (cc_status (ss_cc s)) = []"
proof -
  have pend: "cc_pending c = [p, q, r]" and op: "open_channels c" and good: "cc_good c"
    and none: "FailedPods (cc_status c) = []" "SuccessfulPods (cc_status c) = []"
    and ev: "events_ok n (sim_initial c)"
    using inv by (auto simp: sim_inv_def sim_at_def sim_initial_def flow_ok_def phase_ok_def in_flight_def)
  obtain qu st where n1: "nextPod c = (c\<lparr>cc_queue := qu, cc_store := st\<rparr>, Ok ())" "pending_pods qu = [q, r]"
      "cc_good (c\<lparr>cc_queue := qu, cc_store := st\<rparr>)" "rs_lookup (fst st) = put_pod p (cc_objects c)"
    using nextPod_more [OF good pend] by blast
  let ?c = "c\<lparr>cc_queue := qu, cc_store := st\<rparr>"
  let ?s1 = "\<lparr>ss_cc = ?c, ss_pc = Waiting, ss_waiting = [p], ss_tasks = [], ss_retry = []\<rparr>"
  have "admitted c = [p]" "unscheduled c = []"
    using pq.pop_Cons [OF pend] una inv by (simp_all add: admitted_def sim_inv_def sim_at_def phase_ok_def sim_initial_def)
  with sim_step.start [of "sim_initial c" ?c Waiting n] n1(1) have "sim_step n (sim_initial c) ?s1"
    by (simp add: sim_initial_def run_begin_def)
  then have 1: "loop_step n (sim_initial c, LoopOff) (?s1, LoopCheck)"
    by (intro loop_step.run_start) (simp_all add: sim_initial_def)
  have b1: "between_rounds n (Suc 2) ?s1"
    using ev op n1(3) n dr by (auto simp: between_rounds_def sim_initial_def events_ok_def open_channels_def)
  from failed_round [OF b1, of p "[]" q "[r]" m] una n1(2) obtain s2 where
    2: "(loop_step n)\<^sup>*\<^sup>* (?s1, LoopCheck) (s2, LoopCheck)" and b2: "between_rounds n (Suc 1) s2"
    and w2: "ss_waiting s2 = [q]" "ss_retry s2 = [p]" "cc_pending (ss_cc s2) = [r]"
      "FailedPods (cc_status (ss_cc s2)) = [failed_pod p m]" "SuccessfulPods (cc_status (ss_cc s2)) = []"
      "cc_objects (ss_cc s2) = put_pod q (cc_objects ?c)"
    using none by (auto simp: numeral_2_eq_2)
  let ?s3 = "(requeue p s2)\<lparr>ss_retry := []\<rparr>"
  have "cc_objects (ss_cc s2) Pods (pod_key p) = Some (PodO p)"
    using w2(6) n1(4) keys by (simp add: put_pod_def)
  then have rq: "requeue p s2 = s2\<lparr>ss_waiting := [q, p]\<rparr>"
    using requeue_stored [of s2 p] una keys w2(1) by simp
  have 3: "loop_step n (s2, LoopCheck) (?s3, LoopCheck)"
    using loop_step.retry [of s2 "[]" p "[]" n LoopCheck] w2(2) by simp
  have b3: "between_rounds n (Suc 1) ?s3" "ss_waiting ?s3 = [q, p]" "cc_pending (ss_cc ?s3) = [r]" "ss_cc ?s3 = ss_cc s2"
    using b2 w2 by (simp_all add: rq between_rounds_def)
  from failed_round [OF b3(1,2,3), of m] una obtain s4 where
    4: "(loop_step n)\<^sup>*\<^sup>* (?s3, LoopCheck) (s4, LoopCheck)" and b4: "between_rounds n (Suc 0) s4"
    and w4: "ss_waiting s4 = [p, r]" "cc_pending (ss_cc s4) = []"
      "FailedPods (cc_status (ss_cc s4)) = [failed_pod p m, failed_pod q m]" "SuccessfulPods (cc_status (ss_cc s4)) = []"
    using w2 unfolding b3(4) by auto
  from last_round [OF b4 w4(1,2), of m] obtain s5 where
    5: "(loop_step n)\<^sup>*\<^sup>* (s4, LoopCheck) (s5, LoopEnded)" "ss_pc s5 = Returned" "ss_tasks s5 = []"
      "FailedPods (cc_status (ss_cc s5)) = [failed_pod p m, failed_pod q m, failed_pod p m]"
      "SuccessfulPods (cc_status (ss_cc s5)) = []"
    using w4 by auto
  have "(loop_step n)\<^sup>*\<^sup>* (sim_initial c, LoopOff) (?s3, LoopCheck)"
    by (rule rtranclp.rtrancl_into_rtrancl [OF converse_rtranclp_into_rtranclp [where r = "loop_step n", OF 1 2] 3])
  then have "(loop_step n)\<^sup>*\<^sup>* (sim_initial c, LoopOff) (s5, LoopEnded)" using 4 5(1) by (meson rtranclp_trans)
  with 5 show ?thesis by blast
qed

end
