(* ===== verification/Spec2Isabelle.thy ===== *)
theory Spec2Isabelle
  imports Samples Utils Capacity Fake_Store Simulation_Feed Simulation_Retry
begin

text \<open>
  \<^bold>\<open>The program.\<close>  The simulator answers the question: if these pods were created in this
  cluster, which of them would the Kubernetes scheduler place, and where?  The command
  (\<open>cmd/app\<close>) lists the running pods and the nodes of a real cluster (the checkpoint), reads a
  file of pods to simulate, and hands both to \<open>pkg/scheduler\<close>.  There \<open>New\<close> fills an
  in-memory resource store (\<open>pkg/framework/store\<close>) with the checkpoint and connects it to a
  REST client that never leaves the process (\<open>pkg/framework/restclient/external\<close>): the
  scheduler's informers list and watch the store through it, and each watch is a pipe
  (\<open>pkg/framework/watch\<close>).  \<open>Run\<close> stores the first simulated pod.  The real
  scheduler decides; its binder and its condition updater are the simulator's own \<open>Bind\<close> and
  \<open>Update\<close>, which record the decision, write a bound pod back to the store through the
  strategy (\<open>pkg/framework/strategy\<close>), and store the next pod.  When no pod is left the run
  stops, and \<open>pkg/framework/report.go\<close> sums the pods up.

  \<^bold>\<open>The theories.\<close>  In the order of their imports:

  \<^item> \<open>Prelude\<close>: the results of Go functions (\<open>outcome\<close>: a value, an error, a panic),
    association lists for Go maps, the functions of package \<open>strings\<close> the code calls.
  \<^item> \<open>Quantity\<close> (\<open>apimachinery/pkg/api/resource\<close>, \<open>gopkg.in/inf.v0\<close>):
    64-bit amounts with a decimal scale, overflow detection, promotion to unbounded decimals,
    addition, scaling and rounding.  Scales are 32-bit integers, and so are their differences, which wrap
    around.  Shown: addition is exact on the rationals denoted as long as the difference of the scales
    fits 32 bits, and wrong otherwise (\<open>add_scale_wraps\<close>); overflow of the 64 bits is never missed.
  \<^item> \<open>Quantity_Text\<close>, \<open>Quantity_Parse\<close> (the same packages): \<open>Quantity.String\<close> with the canonical
    forms in base 10 and 1024, the comparison with an integer and the suffix tables; \<open>ParseQuantity\<close> with its
    scanner, its fast path in 64 bits and its decimal path.  Shown: what is printed stands for the value, and
    is read back as this value within the documented bounds; the texts outside them that come back wrong.
  \<^item> \<open>Api_Objects\<close> (\<open>pkg/api/api.go\<close>, \<open>k8s.io/api\<close>): pods, nodes and
    the other objects with the fields the program reads or writes (all others are carried along in
    the \<open>extra\<close> fields), the resource types and their tables.
  \<^item> \<open>Object_Cache\<close> (\<open>client-go/tools/cache\<close>): keys, and the keyed store with
    \<open>Add\<close>, \<open>Update\<close>, \<open>Delete\<close>, \<open>List\<close>, \<open>Get\<close> and
    \<open>Replace\<close>.  The contract of a keyed store is the locale \<open>object_store\<close>,
    interpreted as \<open>kc\<close> on it.
  \<^item> \<open>Field_Selector\<close> (\<open>apimachinery/pkg/fields\<close>): selectors, printing,
    escaping and parsing; the locale \<open>field_reader\<close> is what matching needs of an object.
  \<^item> \<open>Pod_Queue\<close>, \<open>Resource_Store\<close>, \<open>Fake_Store\<close>
    (\<open>pkg/framework/store\<close>): the queue of simulated pods (locale \<open>pod_source\<close>,
    interpreted as \<open>pq\<close>), the store of caches by resource type with event handlers over an
    arbitrary environment (locale \<open>resource_store_api\<close>, interpreted for \<open>Add\<close> as
    \<open>rsa\<close> and for \<open>Update\<close> as \<open>rsu\<close>), the test double.
  \<^item> \<open>Watch_Buffer\<close> (\<open>pkg/framework/watch/watch.go\<close>): the pipe's sequential
    operations, and its goroutines and channels as a transition system \<open>wb_call\<close>,
    \<open>wb_run\<close>.  An empty write, which \<open>EmitWatchEvent\<close> never makes, can block the buffer for
    ever (\<open>empty_write_deadlock\<close>).
  \<^item> \<open>Resource_Names\<close> (\<open>core/v1/helper\<close>, \<open>util/validation\<close>): which
    names are extended or scalar resources.
  \<^item> \<open>Report\<close> (\<open>pkg/framework/report.go\<close>): totals, failure summary, printing.  Adding
    to a promoted quantity changes the pod it came from, so the functions return the pods too.  Shown: for
    requests held as 64-bit amounts whose scales are not extreme the totals are exact, and the rows that are
    printed read back as these totals; requests held as decimals are counted twice (\<open>request_total_doubled\<close>).
  \<^item> \<open>Rest_Client\<close>, \<open>Rest_Router\<close>, \<open>Watch_Mirror\<close>,
    \<open>Store_Mirror\<close> (\<open>restclient.go\<close>): the field accessor (interpreted as
    \<open>acc\<close>), listing, watching, the routing of requests; what \<open>GET\<close> requests return;
    a watch as a log of the store.
  \<^item> \<open>Strategy\<close> (\<open>strategy.go\<close>; locale \<open>pod_strategy\<close>, interpreted as
    \<open>strat\<close>) and \<open>Recorder\<close> (\<open>recorder.go\<close>).
  \<^item> \<open>Simulator\<close> (\<open>pkg/scheduler/simulator.go\<close>): \<open>New\<close>, \<open>Bind\<close>,
    \<open>Update\<close>, \<open>Close\<close>, \<open>nextPod\<close>, \<open>Run\<close>, \<open>Report\<close>, the
    scheduler's configuration.
  \<^item> \<open>Simulation\<close>, \<open>Simulation_Flow\<close>, \<open>Simulation_Start\<close>: the
    concurrent system made of \<open>Run\<close>, the scheduler's goroutines, the recorder's drains and the
    clients of the REST client (\<open>sim_step\<close>, \<open>client_step\<close>, \<open>sim_reach\<close>),
    its invariant \<open>sim_inv\<close>, progress and termination.
  \<^item> \<open>Simulation_Retry\<close> (\<open>scheduler.go\<close>, \<open>factory.go\<close>): the scheduler's loop, which looks at
    \<open>StopEverything\<close> before each round, around this system, and the pods the default error function puts
    back into the queue.  Without such pods its steps are steps of \<open>sim_step\<close>.
  \<^item> \<open>Simulation_Spec\<close>: the abstract machine \<open>spec_step\<close>, the locale
    \<open>refines\<close> of \<open>Prelude\<close> interpreted as \<open>ref\<close> on the concurrent
    system, and \<open>reference_run\<close>, the function of a deterministic scheduler.
  \<^item> \<open>Node_Info\<close>, \<open>Sched_Predicates\<close>, \<open>Generic_Scheduler\<close>
    (\<open>kubernetes/pkg/scheduler\<close>, vendored): what the scheduler knows about a node, the resource
    predicate, the choice of a host; 64-bit counters wrap around.
  \<^item> \<open>Sched_Cache\<close> (\<open>schedulercache/cache.go\<close>): the scheduler's cache with assumed pods,
    their confirmation and expiry, and the snapshots the algorithm works on; the life cycle of a pod
    (\<open>life_step\<close>) is the diagram in \<open>interface.go\<close>.
  \<^item> \<open>Sched_View\<close>: the cache and the snapshots during a simulation (\<open>sched_view\<close>).
  \<^item> \<open>Delta_FIFO\<close>, \<open>Informer\<close> (\<open>client-go/tools/cache\<close>, \<open>scheduler/factory\<close>): the
    queue of changes, the informer's copy of the pods, its notifications and their filtered handlers, the
    scheduling queue; the goroutines interleave (\<open>informer_step\<close>, \<open>informer_reach\<close>).
  \<^item> \<open>Informer_View\<close>: the informers during a simulation (\<open>feed\<close>) give views in the sense of
    \<open>sched_view\<close>.
  \<^item> \<open>Capacity\<close>: the simulation under this algorithm, as an instance (\<open>gs_algorithm\<close>)
    of the runs \<open>algo_step\<close> that \<open>Simulation_Spec\<close> has for any relation of decisions.
  \<^item> \<open>Simulation_Watch\<close>: a simulation together with a reader of one watch.
  \<^item> \<open>Simulation_Feed\<close>: a simulation together with its informers: the events each call emits, the log
    they form (\<open>logged_run\<close>), and the informers that follow this log (\<open>follows_log\<close>) as a case of \<open>feed\<close>.
  \<^item> \<open>Command\<close> (\<open>cmd\<close>, \<open>spf13/pflag\<close>, \<open>spf13/cobra\<close>): the parsing of the command
    line, the command from its options to its output, the exit status.  \<open>Samples\<close> (\<open>pkg/main.go\<close>),
    \<open>Utils\<close> (\<open>pkg/utils\<close>).
  \<^item> This theory: the properties of whole simulations and those that span store and client.

  \<^bold>\<open>What is shown.\<close>  C1 to C21 are about a whole simulation: it
  accounts for every pod exactly once; under a deterministic scheduler it computes what the plain loop
  over the pods computes (C2) and it refines an abstract machine for any
  scheduler (C3); it ends, never deadlocks, never panics; under the
  scheduling algorithm itself no node is overcommitted (C7) and a pod fails only when
  nothing fits (C8), which rests on C17,
  C18, C19 and C20;
  the cluster it leaves and what an informer sees of it (C9, C10);
  that decisions taken on what an informer of the simulation shows are such decisions (C11);
  how the informer keeps up with the watch and tells the scheduler's cache and queue
  (C12, C13, C14, C15, C16); it starts from the
  given cluster.  C22 is the command from its options to the printed report.
  C23 and C31 to C34 are about the store, the REST client and watches: a watch is a faithful log,
  what is stored is served, the invariant of the store.  C24, C25 and
  C38 are about the pipe: bytes come out in order, a pending read is served as long as no
  write is empty, and the race of \<open>Close\<close> with \<open>Write\<close>.  C26 to C30 are about quantities, their text and the report, C35 about selectors,
  C36 about the command, the rest about behaviours that go
  wrong.

  \<^bold>\<open>Parameters.\<close>  What the code calls outside the repository's own packages and that is not
  modelled is an argument: the JSON codec (\<open>encoder\<close>, total in most theorems), the
  scheduler factory (\<open>configurator\<close>), the real cluster, files and identifiers
  (\<open>world\<close>) and the table writer.  In most theorems the scheduling
  algorithm is not a function at all: \<open>decide_bind\<close> and \<open>decide_fail\<close> let it choose any
  host or any message, so they hold for every algorithm, predicate and priority.  C7 and
  C8 fix the algorithm; there the predicates other than the general ones, the
  checks of volume claims, the scores and the order of the workers are parameters.

  \<^bold>\<open>Assumptions on a run.\<close>  A simulated pod is unassigned and not terminated (without this C39
  applies), a checkpoint pod is assigned (\<open>Run\<close> would otherwise schedule it too, see
  \<open>unscheduled\<close>), pod identifiers are fresh, so that the scheduler's cache accepts them, no pod
  is being deleted, and the features pod priority and volume scheduling are off, as is their default.
  C7 takes the scheduler's cache to have been told of the checkpoint before the first
  decision and no assumed pod to expire, the requests to be not negative and their sum to fit 63 bits (the lemma
  \<open>overflow_admits\<close> shows what happens otherwise); C11 says when the
  informers as programmed provide this.
  The theorems take a failed decision to be a fit error; \<open>Simulation_Retry\<close> and
  C40 treat the others.

  \<^bold>\<open>Bounds.\<close>  There is no fuel.  All loops are structural or have a measure; the concurrent system
  is bounded by \<open>sim_measure\<close>: six steps for a queued pod and two for \<open>Run\<close>.

  \<^bold>\<open>Not modelled.\<close>  Of the vendored scheduler: the predicates that read ports, selectors,
  volumes, taints and affinity, the priorities, preemption, disruption budgets, the informers of
  objects other than pods and the connection of a watch.  Further: HTTP transport, logging, the flags the libraries register (a parameter), the texts of help and usage, the reflectors of
  \<open>NewResourceReflectors\<close> (a parameter), the layout of tables, the JSON
  and protobuf encodings of quantities.  They are vendored libraries the program only calls.
\<close>

section \<open>Concrete inputs for the witnesses\<close>

definition demo_encoder :: encoder where
  "demo_encoder = Some (\<lambda>_. Some ''{}'')"

definition demo_configurator :: "(unit, unit) configurator" where
  "demo_configurator =
     \<lparr>CreateFromProvider = (\<lambda>_. Ok ()), CreateFromConfig = (\<lambda>_. Ok ()), os_Stat = (\<lambda>_. Ok ()),
      ReadFile = (\<lambda>_. Ok []), DecodePolicy = (\<lambda>_. Ok ()), GetConfigMap = (\<lambda>_ _. Ok []), emptyPolicy = ()\<rparr>"

definition demo_server :: sched_server where
  "demo_server =
     \<lparr>srv_SchedulerName = ''TD-Scheduler'',
      srv_AlgorithmSource = \<lparr>as_Policy = None, as_Provider = Some ''DefaultProvider''\<rparr>\<rparr>"

definition demo_pod :: "string \<Rightarrow> pod" where
  "demo_pod name = empty_pod\<lparr>pod_meta := empty_meta\<lparr>om_Name := name, om_Namespace := ''prod'', om_UID := name\<rparr>\<rparr>"

definition demo_node :: "string \<Rightarrow> node" where
  "demo_node name = empty_node\<lparr>node_meta := empty_meta\<lparr>om_Name := name\<rparr>\<rparr>"

lemma demo_encoder_total: "enc_total demo_encoder (\<lambda>_. ''{}'')"
  by (simp add: demo_encoder_def enc_total_def EncodeOrDie_def)

lemma demo_config: "SchedulerConfigLocal demo_configurator (srv_AlgorithmSource demo_server) = Ok ()"
  by (simp add: SchedulerConfigLocal_def demo_server_def demo_configurator_def)

lemma demo_pod_unassigned: "unassignedNonTerminatedPod (demo_pod name)"
  by (simp add: demo_pod_def empty_pod_def unassignedNonTerminatedPod_def)

lemma no_pods_assigned: "assigned []"
  by (simp add: assigned_def)

lemma demo_New:
  "\<exists>c. sim_New demo_encoder demo_configurator demo_server newPods pods nodes = Ok (c, \<lparr>lb_SchedulerName = ''TD-Scheduler''\<rparr>, ())"
  using sim_New_Ok [OF demo_encoder_total demo_config, of newPods pods nodes] by (auto simp: demo_server_def)

lemma demo_name: "srv_SchedulerName demo_server = ''TD-Scheduler''"
  by (simp add: demo_server_def)

lemma demo_finishes:
  assumes "list_all unassignedNonTerminatedPod newPods"
    and "sim_New demo_encoder demo_configurator demo_server newPods [] nodes = Ok (c, lb, cfg)"
  shows "\<exists>s. sim_reach (srv_SchedulerName demo_server) (sim_initial c) s \<and> sim_done s"
proof -
  have "sim_inv (srv_SchedulerName demo_server) newPods [] (initial_objects [] nodes) (sim_initial c)"
    using New_starts(1) [OF demo_encoder_total demo_config no_pods_assigned assms(2)] by (auto simp: sim_inv_def)
  from sim_can_finish [OF this assms(1)] show ?thesis using sim_reach_steps [OF _ sim_reach.reach_refl] by blast
qed

section \<open>The simulation\<close>

text \<open>
  C1: whatever the scheduler decides and however the goroutines interleave, when the simulation
  returns, its report accounts for every simulated pod exactly once: there is one decision per pod, in
  reverse order of the input; the successful pods are those with a host, bound to it and running, the
  failed ones those without, pending with the scheduler's reason, the scheduled ones the given
  checkpoint, and the two counts add up.  A failed decision is a fit error here.
\<close>

theorem simulation_accounts:
  assumes "enc_total enc f" "SchedulerConfigLocal k (srv_AlgorithmSource srv) = Ok cfg"
    and "list_all unassignedNonTerminatedPod simulationPods" "assigned scheduledPods"
    and "runSimulator enc k srv scheduledPods simulationPods nodes now res"
  shows "\<exists>outs. map fst outs = rev simulationPods \<and>
    res = Ok (GetReport now (final_status outs scheduledPods)) \<and>
    length (SuccessfulPods (final_status outs scheduledPods)) + length (FailedPods (final_status outs scheduledPods)) =
      length simulationPods"
proof -
  obtain outs where outs: "map fst outs = rev simulationPods" "res = Ok (GetReport now (final_status outs scheduledPods))"
    using runSimulator_report [OF assms] by blast
  moreover have "length outs = length simulationPods" using arg_cong [OF outs(1), of length] by simp
  ultimately show ?thesis using outs_lengths [of outs] by (auto simp: final_status_def)
qed

theorem simulation_accounts_witness:
  "\<exists>res outs. runSimulator demo_encoder demo_configurator demo_server [] [demo_pod ''a'', demo_pod ''b''] [demo_node ''n''] 0 res \<and>
     map fst outs = [demo_pod ''b'', demo_pod ''a''] \<and> res = Ok (GetReport 0 (final_status outs []))"
proof -
  have una: "list_all unassignedNonTerminatedPod [demo_pod ''a'', demo_pod ''b'']" by (simp add: demo_pod_unassigned)
  obtain res where r: "runSimulator demo_encoder demo_configurator demo_server [] [demo_pod ''a'', demo_pod ''b''] [demo_node ''n''] 0 res"
    using runSimulator_exists [OF demo_encoder_total demo_config una no_pods_assigned] by blast
  obtain outs where o: "map fst outs = rev [demo_pod ''a'', demo_pod ''b'']" "res = Ok (GetReport 0 (final_status outs []))"
    using simulation_accounts [OF demo_encoder_total demo_config una no_pods_assigned r] by (elim exE conjE) (rule that)
  show ?thesis using r o by (intro exI [of _ res] exI [of _ outs]) simp
qed

text \<open>
  C4: every simulation ends: from the state \<open>New\<close> returns, no run takes more than six steps per
  pod and two more, and the state in which \<open>Run\<close> has returned and nothing is left to do is
  reached by some run.
\<close>

theorem simulation_terminates:
  assumes "enc_total enc f" "SchedulerConfigLocal k (srv_AlgorithmSource srv) = Ok cfg"
    and "list_all unassignedNonTerminatedPod newPods" "assigned pods" "sim_New enc k srv newPods pods nodes = Ok (c, lb, cfg')"
  shows "(\<forall>m s. (sim_step (srv_SchedulerName srv) ^^ m) (sim_initial c) s \<longrightarrow> m \<le> 6 * length newPods + 2) \<and>
    (\<exists>s. sim_reach (srv_SchedulerName srv) (sim_initial c) s \<and> sim_done s)"
proof -
  have inv: "sim_inv (srv_SchedulerName srv) newPods pods (cc_objects c) (sim_initial c)" and dr: "cc_drains c = []"
    using sim_New_Ok [OF assms(1,2), of newPods pods nodes] assms(4,5) by auto
  have "cc_pending c = rev newPods"
    using inv by (auto simp: sim_inv_def sim_at_def flow_ok_def sim_initial_def in_flight_def phase_ok_def)
  moreover have "unscheduled c = []" using inv by (simp add: sim_inv_def sim_at_def phase_ok_def sim_initial_def)
  ultimately have "sim_measure (sim_initial c) = 6 * length newPods + 2"
    using dr by (simp add: sim_measure_def sim_initial_def)
  then have "m \<le> 6 * length newPods + 2" if "(sim_step (srv_SchedulerName srv) ^^ m) (sim_initial c) s" for m s
    using sim_steps_bounded [OF inv assms(3) that] by simp
  moreover obtain s where "(sim_step (srv_SchedulerName srv))\<^sup>*\<^sup>* (sim_initial c) s" "sim_done s"
    using sim_can_finish [OF inv assms(3)] by blast
  ultimately show ?thesis using sim_reach_steps [OF _ sim_reach.reach_refl] by blast
qed

theorem simulation_terminates_witness:
  "\<exists>c. sim_New demo_encoder demo_configurator demo_server [demo_pod ''a''] [] [demo_node ''n''] =
       Ok (c, \<lparr>lb_SchedulerName = ''TD-Scheduler''\<rparr>, ()) \<and>
     (\<exists>s. sim_reach ''TD-Scheduler'' (sim_initial c) s \<and> sim_done s)"
proof -
  have una: "list_all unassignedNonTerminatedPod [demo_pod ''a'']" by (simp add: demo_pod_unassigned)
  obtain c where c: "sim_New demo_encoder demo_configurator demo_server [demo_pod ''a''] [] [demo_node ''n''] =
      Ok (c, \<lparr>lb_SchedulerName = ''TD-Scheduler''\<rparr>, ())" using demo_New by blast
  from simulation_terminates [OF demo_encoder_total demo_config una no_pods_assigned c] c show ?thesis
    by (simp add: demo_server_def)
qed

text \<open>
  C5: the simulation never deadlocks: in every state reached, whatever the clients of the REST client
  do in between, either everything is done or some goroutine can step; in particular a recorder whose
  channel is full always has a drain waiting for it.
\<close>

theorem simulation_progress:
  assumes "enc_total enc f" "SchedulerConfigLocal k (srv_AlgorithmSource srv) = Ok cfg"
    and "list_all unassignedNonTerminatedPod newPods" "assigned pods" "sim_New enc k srv newPods pods nodes = Ok (c, lb, cfg')"
    and "sim_reach (srv_SchedulerName srv) (sim_initial c) s"
  shows "sim_done s \<or> (\<exists>s'. sim_step (srv_SchedulerName srv) s s')"
proof -
  have "sim_inv (srv_SchedulerName srv) newPods pods (cc_objects c) (sim_initial c)"
    using sim_New_Ok [OF assms(1,2), of newPods pods nodes] assms(4,5) by auto
  from sim_progress [OF sim_reach_inv [OF assms(6) this assms(3)] assms(3)] show ?thesis .
qed

theorem simulation_progress_witness:
  "\<exists>c s'. sim_New demo_encoder demo_configurator demo_server [demo_pod ''a''] [] [] =
       Ok (c, \<lparr>lb_SchedulerName = ''TD-Scheduler''\<rparr>, ()) \<and> sim_step ''TD-Scheduler'' (sim_initial c) s'"
proof -
  have una: "list_all unassignedNonTerminatedPod [demo_pod ''a'']" by (simp add: demo_pod_unassigned)
  obtain c where c: "sim_New demo_encoder demo_configurator demo_server [demo_pod ''a''] [] [] =
      Ok (c, \<lparr>lb_SchedulerName = ''TD-Scheduler''\<rparr>, ())" using demo_New by blast
  from simulation_progress [OF demo_encoder_total demo_config una no_pods_assigned c sim_reach.reach_refl] c show ?thesis
    by (auto simp: demo_server_def sim_done_def sim_initial_def)
qed

text \<open>
  C6: no call of the scheduler into the simulator fails: in every state reached nothing has panicked,
  at most one pod is in flight, and a binding or a failure that is due will be accepted.
\<close>

theorem simulation_safe:
  assumes "enc_total enc f" "SchedulerConfigLocal k (srv_AlgorithmSource srv) = Ok cfg"
    and "list_all unassignedNonTerminatedPod newPods" "assigned pods" "sim_New enc k srv newPods pods nodes = Ok (c, lb, cfg')"
    and "sim_reach (srv_SchedulerName srv) (sim_initial c) s"
  shows "ss_pc s \<noteq> Crashed \<and> length (in_flight s) \<le> 1 \<and>
    (\<forall>p h. TBind p h \<in> set (ss_tasks s) \<longrightarrow> snd (cc_Bind (pod_binding p h) (srv_SchedulerName srv) (ss_cc s)) = Ok ()) \<and>
    (\<forall>p m. TUpdate p m \<in> set (ss_tasks s) \<longrightarrow> snd (cc_Update p (fail_condition m) (srv_SchedulerName srv) (ss_cc s)) = Ok ())"
proof -
  let ?n = "srv_SchedulerName srv"
  have "sim_inv ?n newPods pods (cc_objects c) (sim_initial c)"
    using sim_New_Ok [OF assms(1,2), of newPods pods nodes] assms(4,5) by auto
  from sim_reach_inv [OF assms(6) this assms(3)] have inv: "sim_inv ?n newPods pods (cc_objects c) s" .
  then obtain outs where ph: "phase_ok s outs" by (auto simp: sim_inv_def sim_at_def)
  have "ss_pc s \<noteq> Crashed" using ph by (auto simp: phase_ok_def)
  moreover have "length (in_flight s) \<le> 1" using phase_in_flight [OF ph] by (cases "in_flight s = []") auto
  moreover have "snd (cc_Bind (pod_binding p h) ?n (ss_cc s)) = Ok ()" if b: "TBind p h \<in> set (ss_tasks s)" for p h
    using sim_inv_bind [OF inv assms(3)] split_list [OF b] by (metis prod.collapse)
  moreover have "snd (cc_Update p (fail_condition m) ?n (ss_cc s)) = Ok ()" if u: "TUpdate p m \<in> set (ss_tasks s)" for p m
    using sim_inv_update [OF inv assms(3)] split_list [OF u] by (metis prod.collapse)
  ultimately show ?thesis by blast
qed

theorem simulation_safe_witness:
  "\<exists>c. sim_New demo_encoder demo_configurator demo_server [demo_pod ''a''] [] [] =
       Ok (c, \<lparr>lb_SchedulerName = ''TD-Scheduler''\<rparr>, ()) \<and> ss_pc (sim_initial c) \<noteq> Crashed"
proof -
  have una: "list_all unassignedNonTerminatedPod [demo_pod ''a'']" by (simp add: demo_pod_unassigned)
  obtain c where c: "sim_New demo_encoder demo_configurator demo_server [demo_pod ''a''] [] [] =
      Ok (c, \<lparr>lb_SchedulerName = ''TD-Scheduler''\<rparr>, ())" using demo_New by blast
  from simulation_safe [OF demo_encoder_total demo_config una no_pods_assigned c sim_reach.reach_refl] c show ?thesis
    by (auto simp: demo_server_def)
qed

text \<open>
  C21: \<open>New\<close> succeeds when the scheduler can be configured, and the store it returns
  holds every given node and pod under its key, given distinct keys.
\<close>

theorem New_loads_cluster:
  assumes "enc_total enc f" "SchedulerConfigLocal k (srv_AlgorithmSource srv) = Ok cfg"
    and "distinct (map node_key nodes)" "distinct (map pod_key pods)"
  shows "\<exists>c. sim_New enc k srv newPods pods nodes = Ok (c, \<lparr>lb_SchedulerName = srv_SchedulerName srv\<rparr>, cfg) \<and>
    (\<forall>x \<in> set nodes. rs_GetByKey Nodes (node_key x) (fst (cc_store c)) = Ok (Some (NodeO x))) \<and>
    (\<forall>p \<in> set pods. rs_GetByKey Pods (pod_key p) (fst (cc_store c)) = Ok (Some (PodO p)))"
proof -
  obtain c where c: "sim_New enc k srv newPods pods nodes = Ok (c, \<lparr>lb_SchedulerName = srv_SchedulerName srv\<rparr>, cfg)"
      "cc_objects c = initial_objects pods nodes"
    using sim_New_Ok [OF assms(1,2), of newPods pods nodes] by blast
  with assms(3,4) show ?thesis by (auto simp: initial_objects_member intro!: lookup_GetByKey)
qed

theorem New_loads_cluster_witness:
  "\<exists>c. sim_New demo_encoder demo_configurator demo_server [] [demo_pod ''a''] [demo_node ''n''] =
       Ok (c, \<lparr>lb_SchedulerName = ''TD-Scheduler''\<rparr>, ()) \<and>
     rs_GetByKey Nodes ''n'' (fst (cc_store c)) = Ok (Some (NodeO (demo_node ''n'')))"
proof -
  have "node_key (demo_node ''n'') = ''n''" by (simp add: node_key_def demo_node_def empty_node_def empty_meta_def)
  then show ?thesis
    using New_loads_cluster [OF demo_encoder_total demo_config, of "[demo_node ''n'']" "[demo_pod ''a'']" "[]"]
    by (auto simp: demo_server_def)
qed

text \<open>
  C2: the concurrent simulator is the function \<open>reference_run\<close>.  Under any deterministic
  scheduler, which decides from its earlier decisions and the pod at hand, some run returns, and every
  run that returns, however the goroutines and clients interleave, reports the pods as the plain loop
  over the input does and leaves the same cluster.
\<close>

theorem simulation_equals_reference:
  assumes "enc_total enc f" "SchedulerConfigLocal k (srv_AlgorithmSource srv) = Ok cfg"
    and "list_all unassignedNonTerminatedPod newPods" "assigned pods" "sim_New enc k srv newPods pods nodes = Ok (c, lb, cfg')"
  shows "(\<exists>s h. (sched_step D (srv_SchedulerName srv))\<^sup>*\<^sup>* (sim_initial c, []) (s, h) \<and> ss_pc s = Returned) \<and>
    (\<forall>s h. (sched_step D (srv_SchedulerName srv))\<^sup>*\<^sup>* (sim_initial c, []) (s, h) \<and> ss_pc s = Returned \<longrightarrow>
      snd (cc_Report now (ss_cc s)) = GetReport now (final_status (reference_run D (rev newPods) []) pods) \<and>
      cc_objects (ss_cc s) = settle (reference_run D (rev newPods) []) (initial_objects pods nodes))"
proof -
  let ?step = "sched_step D (srv_SchedulerName srv)"
  note start = New_starts [OF assms(1,2,4,5)]
  note at = New_algo_at [OF start(1), of "\<lambda>h p d. d = D h p"]
  from algo_can_finish [OF at assms(3)] have "\<exists>s h. ?step\<^sup>*\<^sup>* (sim_initial c, []) (s, h) \<and> ss_pc s = Returned"
    by (auto simp: sim_done_def)
  moreover have "snd (cc_Report now (ss_cc s)) = GetReport now (final_status (reference_run D (rev newPods) []) pods) \<and>
      cc_objects (ss_cc s) = settle (reference_run D (rev newPods) []) (initial_objects pods nodes)"
    if run: "?step\<^sup>*\<^sup>* (sim_initial c, []) (s, h)" and ret: "ss_pc s = Returned" for s h
  proof -
    have "cc_report (ss_cc s) = None"
      using sim_reach_report [OF algo_steps_reach [OF run]] start(2) by (simp add: sim_initial_def)
    moreover note algo_at_returned [OF algo_at_steps [OF run at assms(3)] ret]
    moreover from this have "h = reference_run D (rev newPods) []" using allowed_reference by metis
    ultimately show ?thesis by (auto simp: cc_Report_def Let_def)
  qed
  ultimately show ?thesis by blast
qed

theorem simulation_equals_reference_witness:
  "\<exists>c s h. sim_New demo_encoder demo_configurator demo_server [demo_pod ''a'', demo_pod ''b''] [] [demo_node ''n''] =
       Ok (c, \<lparr>lb_SchedulerName = ''TD-Scheduler''\<rparr>, ()) \<and>
     (sched_step (\<lambda>h p. if h = [] then Inl ''n'' else Inr ''full'') ''TD-Scheduler'')\<^sup>*\<^sup>* (sim_initial c, []) (s, h) \<and>
     snd (cc_Report 0 (ss_cc s)) =
       GetReport 0 (final_status [(demo_pod ''b'', Inl ''n''), (demo_pod ''a'', Inr ''full'')] [])"
proof -
  have una: "list_all unassignedNonTerminatedPod [demo_pod ''a'', demo_pod ''b'']" by (simp add: demo_pod_unassigned)
  obtain c where c: "sim_New demo_encoder demo_configurator demo_server [demo_pod ''a'', demo_pod ''b''] [] [demo_node ''n''] =
      Ok (c, \<lparr>lb_SchedulerName = ''TD-Scheduler''\<rparr>, ())" using demo_New by blast
  let ?D = "\<lambda>h p. if h = [] then Inl ''n'' else Inr ''full''"
  note eq = simulation_equals_reference [OF demo_encoder_total demo_config una no_pods_assigned c, of ?D 0, unfolded demo_name]
  from eq obtain s h where sh: "(sched_step ?D ''TD-Scheduler'')\<^sup>*\<^sup>* (sim_initial c, []) (s, h)" "ss_pc s = Returned" by blast
  with eq have "snd (cc_Report 0 (ss_cc s)) =
      GetReport 0 (final_status (reference_run ?D (rev [demo_pod ''a'', demo_pod ''b'']) []) [])" by blast
  then show ?thesis using c sh(1) by (intro exI [of _ c] exI [of _ s] exI [of _ h]) simp
qed

text \<open>
  C3: the concurrent simulator refines the machine that takes one pod after the other, decides it and
  puts it in the cluster: to every state reached belongs a state of a run of this machine, whose
  pods still to do are those in flight and those in the queue, whose decisions are the ones the
  status lists record, and whose cluster is the store whenever no pod is in flight; at the end the
  machine has nothing left to do.
\<close>

theorem simulation_refines_spec:
  assumes "enc_total enc f" "SchedulerConfigLocal k (srv_AlgorithmSource srv) = Ok cfg"
    and "list_all unassignedNonTerminatedPod newPods" "assigned pods" "sim_New enc k srv newPods pods nodes = Ok (c, lb, cfg')"
    and "sim_reach (srv_SchedulerName srv) (sim_initial c) s"
  shows "\<exists>a. spec_step\<^sup>*\<^sup>* (spec_init newPods (initial_objects pods nodes)) a \<and>
    sp_todo a = in_flight s @ cc_pending (ss_cc s) \<and>
    SuccessfulPods (cc_status (ss_cc s)) = concat (map pod_success (sp_decided a)) \<and>
    FailedPods (cc_status (ss_cc s)) = concat (map pod_failure (sp_decided a)) \<and>
    (in_flight s = [] \<longrightarrow> cc_objects (ss_cc s) = sp_objects a) \<and> (ss_pc s = Returned \<longrightarrow> sp_todo a = [])"
proof -
  note start = New_starts [OF assms(1,2,4,5)]
  from ref.simulates_steps [OF sim_reach_sys [OF assms(6)] New_spec_rel [OF start(1) assms(3)]] obtain a where
    a: "spec_rel (srv_SchedulerName srv) newPods pods (initial_objects pods nodes) s a"
      "spec_step\<^sup>*\<^sup>* (spec_init newPods (initial_objects pods nodes)) a" by blast
  have at: "sim_at (srv_SchedulerName srv) newPods pods (initial_objects pods nodes) (sp_decided a) s"
    using a(1) by (simp add: spec_rel_def)
  have "sp_todo a = []" if "ss_pc s = Returned"
    using sim_at_returned [OF at that] sim_at_todo [OF at] a(1) by (simp add: spec_rel_def)
  with a at show ?thesis by (intro exI [of _ a]) (simp add: spec_rel_def sim_at_def flow_ok_def store_ok_def)
qed

theorem simulation_refines_spec_witness:
  "\<exists>c s a. sim_New demo_encoder demo_configurator demo_server [demo_pod ''a''] [] [demo_node ''n''] =
       Ok (c, \<lparr>lb_SchedulerName = ''TD-Scheduler''\<rparr>, ()) \<and>
     sim_reach ''TD-Scheduler'' (sim_initial c) s \<and> sim_done s \<and>
     spec_step\<^sup>*\<^sup>* (spec_init [demo_pod ''a''] (initial_objects [] [demo_node ''n''])) a \<and> sp_todo a = []"
proof -
  have una: "list_all unassignedNonTerminatedPod [demo_pod ''a'']" by (simp add: demo_pod_unassigned)
  obtain c where c: "sim_New demo_encoder demo_configurator demo_server [demo_pod ''a''] [] [demo_node ''n''] =
      Ok (c, \<lparr>lb_SchedulerName = ''TD-Scheduler''\<rparr>, ())" using demo_New by blast
  from demo_finishes [OF una c] obtain s where
    s: "sim_reach (srv_SchedulerName demo_server) (sim_initial c) s" and d: "sim_done s" by blast
  from simulation_refines_spec [OF demo_encoder_total demo_config una no_pods_assigned c s] d obtain a where
    "spec_step\<^sup>*\<^sup>* (spec_init [demo_pod ''a''] (initial_objects [] [demo_node ''n''])) a" "sp_todo a = []"
    by (auto simp: sim_done_def)
  with c s d show ?thesis unfolding demo_name by blast
qed

text \<open>
  C9: the cluster at the end of a simulation in which no two pods and no two nodes share a key: every
  simulated pod is stored, bound to its host and running if it was placed and as it was given if not;
  the checkpoint's pods and all nodes are stored unchanged.
\<close>

theorem simulation_final_cluster:
  assumes "enc_total enc f" "SchedulerConfigLocal k (srv_AlgorithmSource srv) = Ok cfg"
    and "list_all unassignedNonTerminatedPod newPods" "assigned pods" "sim_New enc k srv newPods pods nodes = Ok (c, lb, cfg')"
    and "sim_reach (srv_SchedulerName srv) (sim_initial c) s" "ss_pc s = Returned"
    and "distinct (map pod_key (pods @ newPods))" "distinct (map node_key nodes)"
  shows "\<exists>outs. map fst outs = rev newPods \<and> cc_status (ss_cc s) = final_status outs pods \<and>
    (\<forall>p h. (p, Inl h) \<in> set outs \<longrightarrow>
       rs_GetByKey Pods (pod_key p) (fst (cc_store (ss_cc s))) = Ok (Some (PodO (p\<lparr>pod_NodeName := h, pod_Phase := PodRunning\<rparr>)))) \<and>
    (\<forall>p m. (p, Inr m) \<in> set outs \<longrightarrow> rs_GetByKey Pods (pod_key p) (fst (cc_store (ss_cc s))) = Ok (Some (PodO p))) \<and>
    (\<forall>p \<in> set pods. rs_GetByKey Pods (pod_key p) (fst (cc_store (ss_cc s))) = Ok (Some (PodO p))) \<and>
    (\<forall>x \<in> set nodes. rs_GetByKey Nodes (node_key x) (fst (cc_store (ss_cc s))) = Ok (Some (NodeO x)))"
proof -
  let ?st = "fst (cc_store (ss_cc s))"
  note start = New_starts [OF assms(1,2,4,5)]
  then have "sim_inv (srv_SchedulerName srv) newPods pods (initial_objects pods nodes) (sim_initial c)"
    by (auto simp: sim_inv_def)
  from returned_result [OF sim_reach_inv [OF assms(6) this assms(3)] assms(7)] obtain outs where
    outs: "map fst outs = rev newPods" "cc_status (ss_cc s) = final_status outs pods"
      "rs_lookup ?st = settle outs (initial_objects pods nodes)" by blast
  note final = final_objects [OF outs(1) assms(8,9) outs(3)]
  have "rs_GetByKey Pods (pod_key p) ?st = Ok (Some (PodO (settled (p, d))))" if "(p, d) \<in> set outs" for p d
    using final(1) [OF that] by simp
  then show ?thesis using outs(1,2) final(2,3) by (intro exI [of _ outs]) (auto simp: bound_pod_def)
qed

theorem simulation_final_cluster_witness:
  "\<exists>c s. sim_New demo_encoder demo_configurator demo_server [demo_pod ''a''] [] [demo_node ''n''] =
       Ok (c, \<lparr>lb_SchedulerName = ''TD-Scheduler''\<rparr>, ()) \<and>
     sim_reach ''TD-Scheduler'' (sim_initial c) s \<and> ss_pc s = Returned \<and>
     rs_GetByKey Nodes ''n'' (fst (cc_store (ss_cc s))) = Ok (Some (NodeO (demo_node ''n'')))"
proof -
  have una: "list_all unassignedNonTerminatedPod [demo_pod ''a'']" by (simp add: demo_pod_unassigned)
  obtain c where c: "sim_New demo_encoder demo_configurator demo_server [demo_pod ''a''] [] [demo_node ''n''] =
      Ok (c, \<lparr>lb_SchedulerName = ''TD-Scheduler''\<rparr>, ())" using demo_New by blast
  from demo_finishes [OF una c] obtain s where
    s: "sim_reach (srv_SchedulerName demo_server) (sim_initial c) s" "ss_pc s = Returned" by (auto simp: sim_done_def)
  have "node_key (demo_node ''n'') = ''n''" by (simp add: node_key_def demo_node_def empty_node_def empty_meta_def)
  with simulation_final_cluster [OF demo_encoder_total demo_config una no_pods_assigned c s] c s show ?thesis
    by (auto simp: demo_name)
qed

text \<open>
  C10: what an informer sees of a simulation: a watch of the pods opened on the cluster \<open>New\<close>
  built, and read at any time and in pieces of any size while the simulation runs.  What has been read
  and what is still buffered is always the text of a list of events whose replay is the stored pods, so
  that an informer fed with these events holds exactly the stored pods whenever its queue is empty; once
  the simulation has returned they replay to the pods of the final cluster.
\<close>

theorem informer_sees_run:
  assumes "enc_total enc f" "SchedulerConfigLocal k (srv_AlgorithmSource srv) = Ok cfg"
    and "list_all unassignedNonTerminatedPod newPods" "assigned pods" "sim_New enc k srv newPods pods nodes = Ok (c, lb, cfg')"
  shows "\<exists>e i. createWatchReadCloser enc Pods Everything (fst (cc_store c)) (snd (cc_store c)) = (e, Ok i) \<and>
    (\<forall>s got. (watch_step (srv_SchedulerName srv) i)\<^sup>*\<^sup>* (set_env e (sim_initial c), []) (s, got) \<longrightarrow>
      (\<exists>evs. got @ wb_buf (we_bufs (snd (cc_store (ss_cc s))) ! i) = events_text f evs \<and>
         replayed evs = cc_objects (ss_cc s) Pods \<and>
         (\<forall>ok good t. informer_reach ok good evs t \<and> (\<forall>m ev. ok m ev \<longrightarrow> pod_event ev) \<and> df_queue (is_fifo t) = [] \<longrightarrow>
            map_of (is_indexer t) = cc_objects (ss_cc s) Pods) \<and>
         (ss_pc s = Returned \<longrightarrow> (\<exists>outs. cc_status (ss_cc s) = final_status outs pods \<and>
            replayed evs = settle outs (initial_objects pods nodes) Pods))))"
proof -
  let ?L = "initial_objects pods nodes" and ?n = "srv_SchedulerName srv"
  from watch_opened [OF assms(1,5) New_starts(1) [OF assms(1,2,4,5)]] obtain e i where
    e: "createWatchReadCloser enc Pods Everything (fst (cc_store c)) (snd (cc_store c)) = (e, Ok i)"
      "watched_run enc f ?n i newPods pods ?L (set_env e (sim_initial c), [])" by blast
  have "\<exists>evs. got @ wb_buf (we_bufs (snd (cc_store (ss_cc s))) ! i) = events_text f evs \<and>
      replayed evs = cc_objects (ss_cc s) Pods \<and>
      (\<forall>ok good t. informer_reach ok good evs t \<and> (\<forall>m ev. ok m ev \<longrightarrow> pod_event ev) \<and> df_queue (is_fifo t) = [] \<longrightarrow>
         map_of (is_indexer t) = cc_objects (ss_cc s) Pods) \<and>
      (ss_pc s = Returned \<longrightarrow> (\<exists>outs. cc_status (ss_cc s) = final_status outs pods \<and>
         replayed evs = settle outs ?L Pods))"
    if run: "(watch_step ?n i)\<^sup>*\<^sup>* (set_env e (sim_initial c), []) (s, got)" for s got
  proof -
    from watch_steps_run [OF assms(1,3) run e(2)]
    have inv: "sim_inv ?n newPods pods ?L s" and w: "watched_store enc f Pods i got (cc_store (ss_cc s))"
      by (simp_all add: watched_run_def)
    from w obtain evs where "got @ wb_buf (we_bufs (snd (cc_store (ss_cc s))) ! i) = events_text f evs"
        "replayed evs = cc_objects (ss_cc s) Pods"
      by (auto simp: watched_store_def mirrors_def replayed_def)
    moreover have "map_of (is_indexer t) = replayed evs"
      if "informer_reach ok good evs t \<and> (\<forall>m ev. ok m ev \<longrightarrow> pod_event ev) \<and> df_queue (is_fifo t) = []" for ok good t
      using that caught_up informer_reach_inv by blast
    moreover have "\<exists>outs. cc_status (ss_cc s) = final_status outs pods \<and> cc_objects (ss_cc s) = settle outs ?L"
      if "ss_pc s = Returned" using returned_result [OF inv that] by blast
    ultimately show ?thesis by (intro exI [of _ evs]) metis
  qed
  with e(1) show ?thesis by blast
qed

theorem informer_sees_run_witness:
  "\<exists>c e i. sim_New demo_encoder demo_configurator demo_server [demo_pod ''a''] [] [demo_node ''n''] =
       Ok (c, \<lparr>lb_SchedulerName = ''TD-Scheduler''\<rparr>, ()) \<and>
     createWatchReadCloser demo_encoder Pods Everything (fst (cc_store c)) (snd (cc_store c)) = (e, Ok i)"
proof -
  have una: "list_all unassignedNonTerminatedPod [demo_pod ''a'']" by (simp add: demo_pod_unassigned)
  obtain c where c: "sim_New demo_encoder demo_configurator demo_server [demo_pod ''a''] [] [demo_node ''n''] =
      Ok (c, \<lparr>lb_SchedulerName = ''TD-Scheduler''\<rparr>, ())" using demo_New by blast
  from informer_sees_run [OF demo_encoder_total demo_config una no_pods_assigned c] c show ?thesis by blast
qed

text \<open>
  C12: an informer of a simulation shows the scheduler the cluster of this simulation.  The informer
  lists the pods that \<open>New\<close> stored, opens the watch and receives its events one by one, at any distance
  behind the simulation, while the scheduler tells the cache of the nodes and of the pods it places.  Then
  the cache and its copy are a view of the reported nodes and of those pods with a place that the cache has
  been told of; once the informer has received all events these include every assigned pod in the store.
\<close>

theorem simulation_feeds_view:
  assumes "enc_total enc f" "SchedulerConfigLocal k (srv_AlgorithmSource srv) = Ok cfg"
    and "list_all unassignedNonTerminatedPod newPods" "assigned pods" "sim_New enc k srv newPods pods nodes = Ok (c, lb, cfg')"
    and "identified (pods @ newPods)" "distinct (map pod_key (pods @ newPods))" "distinct (map node_name nodes)"
    and "createWatchReadCloser enc Pods Everything (fst (cc_store c)) (snd (cc_store c)) = (e, Ok i)"
    and "(watch_step (srv_SchedulerName srv) i)\<^sup>*\<^sup>* (set_env e (sim_initial c), []) (s, got)" "hosted nodes (placements s)"
  shows "\<exists>hist. got @ wb_buf (we_bufs (snd (cc_store (ss_cc s))) ! i) = events_text f hist \<and>
    (\<forall>evs t j m. follows_log nodes (placements s) (rs_List Pods (fst (cc_store c))) hist evs t j m \<longrightarrow>
      (\<exists>j' ns ps. j' \<le> j \<and> sched_view j' ns ps (is_cache t) m \<and> set ns = {x \<in> set nodes. knows (is_cache t) x} \<and>
         set ps = {p \<in> set (placements s). life (is_cache t) (om_UID (pod_meta p)) \<noteq> Absent} \<and>
         (evs = listed (rs_List Pods (fst (cc_store c))) @ hist \<and> df_queue (is_fifo t) = [] \<and> is_toCache t = [] \<longrightarrow>
            (\<forall>key p. cc_objects (ss_cc s) Pods key = Some (PodO p) \<and> assignedNonTerminatedPod p \<longrightarrow> p \<in> set ps))))"
proof -
  from logged_reachable [OF assms(1-5,7,9,10)] obtain hist where
    hist: "logged_run enc f (srv_SchedulerName srv) i newPods pods nodes (rs_List Pods (fst (cc_store c))) hist (s, got)"
      "distinct (map obj_key (rs_List Pods (fst (cc_store c))))" by blast
  from logged_view [OF hist(1) assms(7,3,6,11) hist(2) assms(8)] hist(1) show ?thesis
    by (intro exI [of _ hist]) (simp add: logged_run_def)
qed

definition demo_placed :: pod where
  "demo_placed = bound_pod (demo_pod ''b'') ''n''"

lemma demo_placed_pods:
  "assigned [demo_placed]" "identified ([demo_placed] @ [demo_pod ''a''])" "distinct (map pod_key ([demo_placed] @ [demo_pod ''a'']))"
  "hosted [demo_node ''n''] [demo_placed]"
  by code_simp+

lemma single_list: "distinct xs \<Longrightarrow> set xs = {x} \<Longrightarrow> xs = [x]"
  by (cases xs; cases "tl xs") auto

text \<open>The cluster with this pod, watched before the first step.\<close>

lemma demo_watched:
  "\<exists>c e i. sim_New demo_encoder demo_configurator demo_server [demo_pod ''a''] [demo_placed] nodes =
       Ok (c, \<lparr>lb_SchedulerName = ''TD-Scheduler''\<rparr>, ()) \<and>
     createWatchReadCloser demo_encoder Pods Everything (fst (cc_store c)) (snd (cc_store c)) = (e, Ok i) \<and>
     rs_List Pods (fst (cc_store c)) = [PodO demo_placed] \<and> placements (set_env e (sim_initial c)) = [demo_placed]"
proof -
  obtain c where c: "sim_New demo_encoder demo_configurator demo_server [demo_pod ''a''] [demo_placed] nodes =
      Ok (c, \<lparr>lb_SchedulerName = ''TD-Scheduler''\<rparr>, ())" using demo_New by blast
  note at = New_starts(1) [OF demo_encoder_total demo_config demo_placed_pods(1) c]
  from logged_opened [OF demo_encoder_total c demo_placed_pods(3) at] obtain e i where
    e: "createWatchReadCloser demo_encoder Pods Everything (fst (cc_store c)) (snd (cc_store c)) = (e, Ok i)" by blast
  have wf: "rs_wf (fst (cc_store c))" using at by (simp add: sim_at_def cc_good_def good_state_def sim_initial_def)
  have "cc_objects c Pods = [pod_key demo_placed \<mapsto> PodO demo_placed]"
    using sim_at_pods(2) [OF at demo_placed_pods(3)] by (simp add: run_pods_def sim_initial_def in_flight_def loaded_pods_def)
  then have "set (rs_List Pods (fst (cc_store c))) = {PodO demo_placed}" using rs_List_lookup [OF wf, of Pods] by simp
  moreover have "distinct (rs_List Pods (fst (cc_store c)))" using rs_List_keys [OF wf, of Pods] unfolding distinct_map by blast
  ultimately have "rs_List Pods (fst (cc_store c)) = [PodO demo_placed]"
    by (rule single_list [rotated])
  moreover have "placements (set_env e (sim_initial c)) = [demo_placed]"
    using sim_at_placements [OF at] by (simp add: placements_def taken_def sim_initial_def set_env_def placed_def)
  ultimately show ?thesis using c e by blast
qed

text \<open>An informer of it that has been told of the node and of the pod.\<close>

definition demo_informer :: "node \<Rightarrow> informer_sys" where
  "demo_informer x = fst (deliver_cache (fst (informer_pop (scheduler_op (OpAddNode x) (informer_start 30 [PodO demo_placed])))))"

lemma demo_follows: "follows_log [x] ps [PodO demo_placed] hist (listed [PodO demo_placed]) (demo_informer x) 6 []"
proof -
  have new: "scheduler_does [x] ps (is_cache (informer_start 30 [PodO demo_placed])) (OpAddNode x)"
    by (simp add: scheduler_does_def knows_def informer_start_def newSchedulerCache_def cache_node_def NewNodeInfo_def empty_node_info_def)
  have "follows_log [x] ps [PodO demo_placed] hist (listed [PodO demo_placed]) (demo_informer x) (0 + 2 + 2 + 2) []"
    unfolding demo_informer_def by (intro follows_moves follows_log.start new) simp_all
  moreover have "0 + 2 + 2 + 2 = (6 :: nat)" by simp
  ultimately show ?thesis by argo
qed

theorem simulation_feeds_view_witness:
  "\<exists>k ps. sched_view k [demo_node ''n''] ps (is_cache (demo_informer (demo_node ''n''))) [] \<and> set ps = {demo_placed}"
proof -
  let ?n = "demo_node ''n''" and ?t = "demo_informer (demo_node ''n'')"
  from demo_watched obtain c e i where
    c: "sim_New demo_encoder demo_configurator demo_server [demo_pod ''a''] [demo_placed] [?n] = Ok (c, \<lparr>lb_SchedulerName = ''TD-Scheduler''\<rparr>, ())"
      "createWatchReadCloser demo_encoder Pods Everything (fst (cc_store c)) (snd (cc_store c)) = (e, Ok i)"
      "rs_List Pods (fst (cc_store c)) = [PodO demo_placed]" "placements (set_env e (sim_initial c)) = [demo_placed]" by blast
  have una: "list_all unassignedNonTerminatedPod [demo_pod ''a'']" by (simp add: demo_pod_unassigned)
  have "hosted [?n] (placements (set_env e (sim_initial c)))" using demo_placed_pods(4) c(4) by simp
  from simulation_feeds_view [OF demo_encoder_total demo_config una demo_placed_pods(1) c(1) demo_placed_pods(2,3) _ c(2) rtranclp.rtrancl_refl this]
  obtain hist where view: "\<forall>evs t j m. follows_log [?n] [demo_placed] [PodO demo_placed] hist evs t j m \<longrightarrow>
      (\<exists>j' ns ps. j' \<le> j \<and> sched_view j' ns ps (is_cache t) m \<and> set ns = {x \<in> set [?n]. knows (is_cache t) x} \<and>
         set ps = {p \<in> set [demo_placed]. life (is_cache t) (om_UID (pod_meta p)) \<noteq> Absent} \<and>
         (evs = listed [PodO demo_placed] @ hist \<and> df_queue (is_fifo t) = [] \<and> is_toCache t = [] \<longrightarrow>
            (\<forall>key p. cc_objects (ss_cc (set_env e (sim_initial c))) Pods key = Some (PodO p) \<and> assignedNonTerminatedPod p \<longrightarrow> p \<in> set ps)))"
    unfolding c(3,4) by auto
  from view demo_follows obtain j' ns ps where v: "sched_view j' ns ps (is_cache ?t) []" "set ns = {x \<in> set [?n]. knows (is_cache ?t) x}"
      "set ps = {p \<in> set [demo_placed]. life (is_cache ?t) (om_UID (pod_meta p)) \<noteq> Absent}" by blast
  have t: "knows (is_cache ?t) ?n" "life (is_cache ?t) (om_UID (pod_meta demo_placed)) \<noteq> Absent" by code_simp+
  have "set ns = {?n}" "set ps = {demo_placed}" unfolding v(2,3) using t by auto
  moreover have "distinct ns" using sched_view_inv [OF v(1)] unfolding view_inv_def distinct_map by blast
  then have "ns = [?n]" using \<open>set ns = {?n}\<close> by (rule single_list)
  ultimately show ?thesis using v(1) by blast
qed

section \<open>The simulation under the scheduling algorithm\<close>

definition demo_scheduler :: generic_scheduler where
  "demo_scheduler =
     \<lparr>gs_predicates = [(GeneralPred, GeneralPredicates [] (\<lambda>_ _. Ok (True, [])) (\<lambda>_ _. Ok (True, [])))],
      gs_alwaysCheckAllPredicates = False, gs_podPassesBasicChecks = (\<lambda>_. Ok ()),
      gs_PrioritizeNodes = (\<lambda>_ _ ns. Ok (map (\<lambda>x. (node_name x, 1)) ns)), gs_lastNodeIndex = 0\<rparr>"

definition demo_host :: node where
  "demo_host = (demo_node ''n'')\<lparr>node_Allocatable := [(ResourcePods, NewQuantity 10 DecimalSI)]\<rparr>"

lemma demo_scheduler_explains: "explains (gs_predicates demo_scheduler)"
  by (auto simp: explains_def demo_scheduler_def split: if_splits dest: GeneralPredicates_explains)

lemma demo_scheduler_general:
  "map_of (gs_predicates demo_scheduler) GeneralPred = Some (GeneralPredicates [] (\<lambda>_ _. Ok (True, [])) (\<lambda>_ _. Ok (True, [])))"
  by (simp add: demo_scheduler_def)

lemma demo_scheduler_scores: "scores_hosts demo_scheduler"
  by (simp add: scores_hosts_def demo_scheduler_def comp_def)

lemma demo_scheduler_decides: "decides demo_scheduler"
proof -
  have "\<exists>y. GeneralPredicates [] (\<lambda>_ _. Ok (True, [])) (\<lambda>_ _. Ok (True, [])) p (Some n) = Ok y" if "ni_node n \<noteq> None" for p n
    by (rule GeneralPredicates_Ok [OF that]) blast+
  then show ?thesis unfolding decides_def demo_scheduler_def by simp
qed

lemma demo_host_room: "has_room [] [] demo_host"
proof -
  have "rl_amount [(ResourcePods, NewQuantity 10 DecimalSI)] ResourcePods = 10" by code_simp
  moreover have "rl_amount [(ResourcePods, q)] name = 0" if "name \<noteq> ResourcePods" for name q
    using that by (simp add: rl_amount_def)
  ultimately show ?thesis
    using res_get_Add [of "[(ResourcePods, NewQuantity 10 DecimalSI)]" no_resource]
    by (simp add: has_room_def demo_host_def NewResource_def governed_def wrap64_def flip: res_get_Pods)
qed

lemma demo_pod_bounded: "bounded [demo_pod name]"
proof -
  have "pod_amount (demo_pod name) r = 0" "req_amount (demo_pod name) r = 0" for r
    by (simp_all add: pod_amount_def fst_calculateResource req_amount_def GetResourceRequest_def demo_pod_def empty_pod_def)
  then show ?thesis by (simp add: bounded_def mostPositive_def)
qed

lemma demo_node_full: "\<not> gs_algorithm demo_scheduler [demo_node ''n''] [] h p (Inl host)"
proof
  assume "gs_algorithm demo_scheduler [demo_node ''n''] [] h p (Inl host)"
  from gs_algorithm_Inl [OF this demo_scheduler_scores] obtain n rs where n: "sees (demo_node ''n'') ([] @ placed h) n"
    and fit: "podFitsOnNode (gs_alwaysCheckAllPredicates demo_scheduler) (gs_predicates demo_scheduler) p (Some n) = Ok (True, rs)"
    by (auto simp: demo_scheduler_def)
  from podFitsOnNode_general [OF demo_scheduler_explains demo_scheduler_general fit] obtain rs' where
    "PodFitsResources [] p (Some n) = Ok (True, rs')" by auto
  moreover have "ni_node n = Some (demo_node ''n'')" "ni_allocatable n = no_resource"
    using n by (simp_all add: sees_def demo_node_def empty_node_def NewResource_def res_Add_def)
  ultimately show False by (auto simp: PodFitsResources_def Let_def verdict_def no_resource_def split: if_splits)
qed

lemma demo_pod_identified: "identified [demo_pod ''a'']"
  by code_simp

text \<open>
  C7: the simulator never overcommits a node.  When the scheduling algorithm with the general
  predicates decides on what the scheduler's cache shows it, whatever the other predicates, the scores and
  the order of the workers and of the informers' reports, some run returns, and in every run that returns
  each node still has room for its checkpoint pods and the successful pods placed on it: their number and
  the sum of their requests stay within what the node can allocate.
\<close>

theorem capacity_respected:
  assumes "enc_total enc f" "SchedulerConfigLocal k (srv_AlgorithmSource srv) = Ok cfg"
    and "list_all unassignedNonTerminatedPod newPods" "assigned pods" "sim_New enc k srv newPods pods nodes = Ok (c, lb, cfg')"
    and "explains (gs_predicates g)" "map_of (gs_predicates g) GeneralPred = Some (GeneralPredicates ignored ports sel)"
    and "scores_hosts g" "decides g" "nodes \<noteq> []" "distinct (map node_name nodes)" "bounded (pods @ newPods)"
    and "\<forall>x \<in> set nodes. has_room ignored pods x" "identified (pods @ newPods)"
  shows "(\<exists>s h. (algo_step (gs_algorithm g nodes pods) (srv_SchedulerName srv))\<^sup>*\<^sup>* (sim_initial c, []) (s, h) \<and> ss_pc s = Returned) \<and>
    (\<forall>s h. (algo_step (gs_algorithm g nodes pods) (srv_SchedulerName srv))\<^sup>*\<^sup>* (sim_initial c, []) (s, h) \<and> ss_pc s = Returned \<longrightarrow>
      (\<forall>x \<in> set nodes. has_room ignored (pods @ SuccessfulPods (cc_status (ss_cc s))) x))"
proof -
  let ?step = "algo_step (gs_algorithm g nodes pods) (srv_SchedulerName srv)"
  note at = New_algo_at [OF New_starts(1) [OF assms(1,2,4,5)], of "gs_algorithm g nodes pods"]
  have "\<exists>d. gs_algorithm g nodes pods h p d" if "\<exists>rest. rev newPods = map fst h @ p # rest" for h p
    using gs_algorithm_total [OF assms(9,8,10,11) identified_prefix [OF assms(14) that]] .
  from algo_can_finish [OF at assms(3) this] have "\<exists>s h. ?step\<^sup>*\<^sup>* (sim_initial c, []) (s, h) \<and> ss_pc s = Returned"
    by (auto simp: sim_done_def)
  moreover have "has_room ignored (pods @ SuccessfulPods (cc_status (ss_cc s))) x"
    if run: "?step\<^sup>*\<^sup>* (sim_initial c, []) (s, h)" and ret: "ss_pc s = Returned" and x: "x \<in> set nodes" for s h x
  proof -
    from algo_at_returned [OF algo_at_steps [OF run at assms(3)] ret] have h: "allowed (gs_algorithm g nodes pods) h"
        "map fst h = rev newPods" "cc_status (ss_cc s) = final_status h pods" by auto
    have "bounded (pods @ map fst h)" using assms(12) by (simp add: bounded_def h(2) flip: rev_map)
    from history_keeps_room [OF assms(6-8) assms(11) x _ h(1) this] assms(13) x show ?thesis
      by (simp add: h(3) final_status_def placed_def)
  qed
  ultimately show ?thesis by blast
qed

theorem capacity_respected_witness:
  "\<exists>c s h. sim_New demo_encoder demo_configurator demo_server [demo_pod ''a''] [] [demo_host] =
       Ok (c, \<lparr>lb_SchedulerName = ''TD-Scheduler''\<rparr>, ()) \<and>
     (algo_step (gs_algorithm demo_scheduler [demo_host] []) ''TD-Scheduler'')\<^sup>*\<^sup>* (sim_initial c, []) (s, h) \<and> ss_pc s = Returned \<and>
     has_room [] (SuccessfulPods (cc_status (ss_cc s))) demo_host"
proof -
  have una: "list_all unassignedNonTerminatedPod [demo_pod ''a'']" by (simp add: demo_pod_unassigned)
  obtain c where c: "sim_New demo_encoder demo_configurator demo_server [demo_pod ''a''] [] [demo_host] =
      Ok (c, \<lparr>lb_SchedulerName = ''TD-Scheduler''\<rparr>, ())" using demo_New by blast
  from capacity_respected [OF demo_encoder_total demo_config una no_pods_assigned c demo_scheduler_explains demo_scheduler_general
      demo_scheduler_scores demo_scheduler_decides] demo_pod_bounded demo_host_room demo_pod_identified c
  show ?thesis unfolding demo_name by fastforce
qed

text \<open>
  C8: a pod is reported as failed only when no node fits: at the moment of its decision every node of
  the cluster, with the checkpoint's pods and those placed before, fails a predicate; the message counts
  the nodes and has a main reason that can be cut out of it.
\<close>

theorem failed_pods_fit_nowhere:
  assumes "enc_total enc f" "SchedulerConfigLocal k (srv_AlgorithmSource srv) = Ok cfg"
    and "list_all unassignedNonTerminatedPod newPods" "assigned pods" "sim_New enc k srv newPods pods nodes = Ok (c, lb, cfg')"
    and "gs_predicates g \<noteq> []"
    and "(algo_step (gs_algorithm g nodes pods) (srv_SchedulerName srv))\<^sup>*\<^sup>* (sim_initial c, []) (s, h)" "ss_pc s = Returned"
  shows "FailedPods (cc_status (ss_cc s)) = concat (map pod_failure h) \<and>
    (\<forall>h1 p m h2. h = h1 @ (p, Inr m) # h2 \<longrightarrow>
      \<not> panics (getMainFailReason m) \<and>
      (\<forall>x \<in> set nodes. \<exists>n reasons. sees x (pods @ placed h1) n \<and>
         podFitsOnNode (gs_alwaysCheckAllPredicates g) (gs_predicates g) p (Some n) = Ok (False, reasons)))"
proof -
  note at = New_algo_at [OF New_starts(1) [OF assms(1,2,4,5)], of "gs_algorithm g nodes pods"]
  from algo_at_returned [OF algo_at_steps [OF assms(7) at assms(3)] assms(8)]
  have h: "allowed (gs_algorithm g nodes pods) h" "cc_status (ss_cc s) = final_status h pods" by auto
  have "\<not> panics (getMainFailReason m) \<and> (\<forall>x \<in> set nodes. \<exists>n reasons. sees x (pods @ placed h1) n \<and>
      podFitsOnNode (gs_alwaysCheckAllPredicates g) (gs_predicates g) p (Some n) = Ok (False, reasons))"
    if "h = h1 @ (p, Inr m) # h2" for h1 p m h2
    using gs_algorithm_Inr [OF allowed_prefix [OF h(1) that] assms(6)] fit_error_reason by blast
  with h(2) show ?thesis by (simp add: final_status_def)
qed

theorem failed_pods_fit_nowhere_witness:
  "\<exists>c s h m n reasons. sim_New demo_encoder demo_configurator demo_server [demo_pod ''a''] [] [demo_node ''n''] =
       Ok (c, \<lparr>lb_SchedulerName = ''TD-Scheduler''\<rparr>, ()) \<and>
     (algo_step (gs_algorithm demo_scheduler [demo_node ''n''] []) ''TD-Scheduler'')\<^sup>*\<^sup>* (sim_initial c, []) (s, h) \<and>
     ss_pc s = Returned \<and> h = [(demo_pod ''a'', Inr m)] \<and> sees (demo_node ''n'') [] n \<and>
     podFitsOnNode (gs_alwaysCheckAllPredicates demo_scheduler) (gs_predicates demo_scheduler) (demo_pod ''a'') (Some n) = Ok (False, reasons)"
proof -
  let ?A = "gs_algorithm demo_scheduler [demo_node ''n''] []"
  have una: "list_all unassignedNonTerminatedPod [demo_pod ''a'']" by (simp add: demo_pod_unassigned)
  obtain c where c: "sim_New demo_encoder demo_configurator demo_server [demo_pod ''a''] [] [demo_node ''n''] =
      Ok (c, \<lparr>lb_SchedulerName = ''TD-Scheduler''\<rparr>, ())" using demo_New by blast
  have ne: "gs_predicates demo_scheduler \<noteq> []" by (simp add: demo_scheduler_def)
  have tot: "\<exists>d. ?A h p d" if "\<exists>rest. rev [demo_pod ''a''] = map fst h @ p # rest" for h p
    using gs_algorithm_total [OF demo_scheduler_decides demo_scheduler_scores] identified_prefix [of "[]", OF _ that] demo_pod_identified by simp
  note at = New_algo_at [OF New_starts(1) [OF demo_encoder_total demo_config no_pods_assigned c], of ?A]
  from algo_can_finish [OF at una tot]
  obtain s h where run: "(algo_step ?A (srv_SchedulerName demo_server))\<^sup>*\<^sup>* (sim_initial c, []) (s, h)"
      "ss_pc s = Returned" by (auto simp: sim_done_def)
  from algo_at_returned [OF algo_at_steps [OF run(1) at una] run(2)] have h: "allowed ?A h" "map fst h = [demo_pod ''a'']" by auto
  then obtain d where d: "h = [(demo_pod ''a'', d)]" by (cases h) auto
  obtain m where m: "d = Inr m"
    using allowed_prefix [OF h(1), of "[]" "demo_pod ''a''" d "[]"] demo_node_full [of "[]" "demo_pod ''a''"] d by (cases d) auto
  note res = failed_pods_fit_nowhere [OF demo_encoder_total demo_config una no_pods_assigned c ne run]
  have "\<exists>n reasons. sees (demo_node ''n'') [] n \<and> podFitsOnNode (gs_alwaysCheckAllPredicates demo_scheduler)
      (gs_predicates demo_scheduler) (demo_pod ''a'') (Some n) = Ok (False, reasons)"
    using res [THEN conjunct2, rule_format, of "[]" "demo_pod ''a''" m "[]"] d m by (simp add: placed_def)
  with c run d m show ?thesis unfolding demo_name by blast
qed

text \<open>
  C11: what the scheduler decides through its informers is what the capacity results are about.  At any
  time of a watched simulation at which a pod waits, let the algorithm run on a copy of the cache that an
  informer of this simulation maintains, whatever its distance behind, once the cache has been told of
  every node and of every pod with a place.  Then its decision is one of \<open>gs_algorithm\<close> for the pods placed
  so far, and the simulation with this decision is a step of the simulation under the algorithm.
\<close>

theorem informers_decide:
  assumes "enc_total enc f" "SchedulerConfigLocal k (srv_AlgorithmSource srv) = Ok cfg"
    and "list_all unassignedNonTerminatedPod newPods" "assigned pods" "sim_New enc k srv newPods pods nodes = Ok (c, lb, cfg')"
    and "identified (pods @ newPods)" "distinct (map pod_key (pods @ newPods))" "distinct (map node_name nodes)"
    and "createWatchReadCloser enc Pods Everything (fst (cc_store c)) (snd (cc_store c)) = (e, Ok i)"
    and "(watch_step (srv_SchedulerName srv) i)\<^sup>*\<^sup>* (set_env e (sim_initial c), []) (s, got)" "hosted nodes (placements s)"
    and "ss_waiting s = p # w" "arranges arrange"
  shows "\<exists>hist h rest. got @ wb_buf (we_bufs (snd (cc_store (ss_cc s))) ! i) = events_text f hist \<and>
    rev newPods = map fst h @ p # rest \<and> placements s = pods @ placed h \<and>
    (\<forall>evs t j m g l g' r. follows_log nodes (placements s) (rs_List Pods (fst (cc_store c))) hist evs t j m \<and>
        (\<forall>x \<in> set nodes. knows (is_cache t) x) \<and> (\<forall>q \<in> set (placements s). life (is_cache t) (om_UID (pod_meta q)) \<noteq> Absent) \<and>
        (m = [] \<or> j < 2 ^ 64) \<and>
        gs_Schedule arrange (map_of (UpdateNodeNameToInfoMap (is_cache t) m)) nodes p (g\<lparr>gs_lastNodeIndex := l\<rparr>) = (g', Ok r) \<longrightarrow>
      algo_step (gs_algorithm g nodes pods) (srv_SchedulerName srv) (s, h)
        (s\<lparr>ss_waiting := w, ss_tasks := ss_tasks s @ [decision_task p (as_decision r)]\<rparr>, h @ [(p, as_decision r)]))"
proof -
  from logged_reachable [OF assms(1-5,7,9,10)] obtain hist where
    hist: "logged_run enc f (srv_SchedulerName srv) i newPods pods nodes (rs_List Pods (fst (cc_store c))) hist (s, got)"
      "distinct (map obj_key (rs_List Pods (fst (cc_store c))))" by blast
  from logged_waiting [OF hist(1) assms(12)] obtain h rest where
    h: "rev newPods = map fst h @ p # rest" "placements s = pods @ placed h" by blast
  have "gs_algorithm g nodes pods h p (as_decision r)"
    if "follows_log nodes (placements s) (rs_List Pods (fst (cc_store c))) hist evs t j m"
      "\<forall>x \<in> set nodes. knows (is_cache t) x" "\<forall>q \<in> set (placements s). life (is_cache t) (om_UID (pod_meta q)) \<noteq> Absent"
      "m = [] \<or> j < 2 ^ 64"
      "gs_Schedule arrange (map_of (UpdateNodeNameToInfoMap (is_cache t) m)) nodes p (g\<lparr>gs_lastNodeIndex := l\<rparr>) = (g', Ok r)"
    for evs t j m g l g' r
    using logged_decision [OF hist(1) assms(7,3,6,11) hist(2) assms(8) that(1-4) assms(13) that(5) h(2)] .
  with h hist(1) algo_step.decide [OF assms(12)] show ?thesis
    unfolding logged_run_def by (intro exI [of _ hist] exI [of _ h] exI [of _ rest]) auto
qed

lemma first_pod_waits:
  assumes "sim_at n newPods sched L outs s" "ss_pc s = NotStarted" "cc_pending (ss_cc s) = p # ps" "unassignedNonTerminatedPod p"
  shows "\<exists>s'. sim_step n s s' \<and> ss_waiting s' = [p] \<and> placements s' = placements s"
proof -
  have s: "cc_good (ss_cc s)" "unscheduled (ss_cc s) = []" "ss_waiting s = []"
    using assms(1,2) by (simp_all add: sim_at_def phase_ok_def in_flight_def)
  from nextPod_more [OF s(1) assms(3)] obtain q st where
    n: "nextPod (ss_cc s) = ((ss_cc s)\<lparr>cc_queue := q, cc_store := st\<rparr>, Ok ())" by blast
  have adm: "admitted (ss_cc s) = [p]" using pq.pop_Cons [OF assms(3)] assms(4) by (simp add: admitted_def)
  have "run_begin (ss_cc s) = ((ss_cc s)\<lparr>cc_queue := q, cc_store := st\<rparr>, Waiting)" using n by (simp add: run_begin_def)
  from sim_step.start [OF assms(2) this, of n] s(2,3) adm show ?thesis
    by (intro exI [of _ "s\<lparr>ss_cc := (ss_cc s)\<lparr>cc_queue := q, cc_store := st\<rparr>, ss_pc := Waiting, ss_waiting := [p]\<rparr>"])
      (simp add: placements_def taken_def)
qed

lemma demo_decides:
  "snd (gs_Schedule id (map_of (UpdateNodeNameToInfoMap (is_cache (demo_informer demo_host)) [])) [demo_host] (demo_pod ''a'')
     (demo_scheduler\<lparr>gs_lastNodeIndex := 0\<rparr>)) = Ok (Inl ''n'')"
  by code_simp

theorem informers_decide_witness:
  "\<exists>c s h. sim_New demo_encoder demo_configurator demo_server [demo_pod ''a''] [demo_placed] [demo_host] =
       Ok (c, \<lparr>lb_SchedulerName = ''TD-Scheduler''\<rparr>, ()) \<and>
     algo_step (gs_algorithm demo_scheduler [demo_host] [demo_placed]) ''TD-Scheduler'' (s, h)
       (s\<lparr>ss_waiting := [], ss_tasks := ss_tasks s @ [TBind (demo_pod ''a'') ''n'']\<rparr>, h @ [(demo_pod ''a'', Inl ''n'')])"
proof -
  let ?t = "demo_informer demo_host"
  let ?p = "demo_pod ''a''"
  from demo_watched [of "[demo_host]"] obtain c e i where
    c: "sim_New demo_encoder demo_configurator demo_server [?p] [demo_placed] [demo_host] = Ok (c, \<lparr>lb_SchedulerName = ''TD-Scheduler''\<rparr>, ())"
      "createWatchReadCloser demo_encoder Pods Everything (fst (cc_store c)) (snd (cc_store c)) = (e, Ok i)"
      "rs_List Pods (fst (cc_store c)) = [PodO demo_placed]" "placements (set_env e (sim_initial c)) = [demo_placed]" by blast
  have una: "list_all unassignedNonTerminatedPod [?p]" by (simp add: demo_pod_unassigned)
  from logged_reachable [OF demo_encoder_total demo_config una demo_placed_pods(1) c(1) demo_placed_pods(3) c(2) rtranclp.rtrancl_refl]
  obtain outs where at: "sim_at ''TD-Scheduler'' [?p] [demo_placed] (initial_objects [demo_placed] [demo_host]) outs (set_env e (sim_initial c))"
    by (auto simp: logged_run_def watched_run_def sim_inv_def demo_name)
  have "ss_pc (set_env e (sim_initial c)) = NotStarted" "cc_pending (ss_cc (set_env e (sim_initial c))) = [?p]"
    using New_starts(3) [OF demo_encoder_total demo_config demo_placed_pods(1) c(1)] by (simp_all add: set_env_def sim_initial_def)
  from first_pod_waits [OF at this demo_pod_unassigned] c(4) obtain s where
    s: "sim_step ''TD-Scheduler'' (set_env e (sim_initial c)) s" "ss_waiting s = [?p]" "placements s = [demo_placed]" by metis
  have host: "hosted [demo_host] (placements s)" unfolding s(3) by code_simp
  have run: "(watch_step (srv_SchedulerName demo_server) i)\<^sup>*\<^sup>* (set_env e (sim_initial c), []) (s, [])"
    unfolding demo_name using watch_step.sim [OF s(1)] by blast
  have "arranges id" by (simp add: arranges_def)
  from informers_decide [OF demo_encoder_total demo_config una demo_placed_pods(1) c(1) demo_placed_pods(2,3) _ c(2) run host s(2) this]
  obtain hist h where h: "\<forall>evs t j m g l g' r. follows_log [demo_host] [demo_placed] [PodO demo_placed] hist evs t j m \<and>
        (\<forall>x \<in> set [demo_host]. knows (is_cache t) x) \<and> (\<forall>q \<in> set [demo_placed]. life (is_cache t) (om_UID (pod_meta q)) \<noteq> Absent) \<and>
        (m = [] \<or> j < 2 ^ 64) \<and>
        gs_Schedule id (map_of (UpdateNodeNameToInfoMap (is_cache t) m)) [demo_host] ?p (g\<lparr>gs_lastNodeIndex := l\<rparr>) = (g', Ok r) \<longrightarrow>
      algo_step (gs_algorithm g [demo_host] [demo_placed]) ''TD-Scheduler'' (s, h)
        (s\<lparr>ss_waiting := [], ss_tasks := ss_tasks s @ [decision_task ?p (as_decision r)]\<rparr>, h @ [(?p, as_decision r)])"
    unfolding c(3) s(3) demo_name by auto
  have t: "knows (is_cache ?t) demo_host" "life (is_cache ?t) (om_UID (pod_meta demo_placed)) \<noteq> Absent" by code_simp+
  obtain g' where "gs_Schedule id (map_of (UpdateNodeNameToInfoMap (is_cache ?t) [])) [demo_host] ?p (demo_scheduler\<lparr>gs_lastNodeIndex := 0\<rparr>) = (g', Ok (Inl ''n''))"
    using demo_decides by (metis prod.collapse)
  with demo_follows t have "algo_step (gs_algorithm demo_scheduler [demo_host] [demo_placed]) ''TD-Scheduler'' (s, h)
        (s\<lparr>ss_waiting := [], ss_tasks := ss_tasks s @ [decision_task ?p (as_decision (Inl ''n''))]\<rparr>, h @ [(?p, as_decision (Inl ''n''))])"
    by (intro h [rule_format, of "listed [PodO demo_placed]" ?t 6 "[]" 0 demo_scheduler g'] conjI) simp_all
  with c(1) show ?thesis by (auto simp: as_decision_def decision_task_def)
qed

section \<open>The command\<close>

definition demo_world :: "(unit, unit, unit) world" where
  "demo_world =
     \<lparr>BuildConfigFromFlags = (\<lambda>_. Ok ()), NewForConfig = (\<lambda>_. Ok ()), ListPods = (\<lambda>_ _ _. Ok []),
      ListNodes = (\<lambda>_. Ok [demo_node ''n'']), OpenFile = (\<lambda>_. Ok ()),
      DecodePods = (\<lambda>_. Ok [\<lparr>sp_Name = ''web'', sp_Pod = empty_pod, sp_Num = 2\<rparr>]),
      uuid_New = (\<lambda>i. replicate i (CHR ''x'')), NewSchedulerServer = (\<lambda>_ _. Ok ())\<rparr>"

definition demo_options :: cc_options where
  "demo_options = \<lparr>AlgorithmProvider = ''DefaultProvider'', Kubeconfig = ''config'', PodSpecFile = ''pods.yaml'',
     opt_Namespace = []\<rparr>"

text \<open>
  C22: the command as a whole: when the options are valid and the cluster, the file and the scheduler's
  provider can be read, the command prints a report, and whatever it prints is the report of a status
  that decides every pod the file asks for, as many as its counts add up to, each exactly once.
\<close>

theorem command_reports:
  assumes "enc_total enc f" "Validate b opt = Ok ()"
    and "BuildConfigFromFlags w (Kubeconfig opt) = Ok config" "NewForConfig w config = Ok cl"
    and "ListPods w cl (opt_Namespace opt) ''status.phase=Running'' = Ok pods" "ListNodes w cl = Ok nodes"
    and "OpenFile w (PodSpecFile opt) = Ok file" "DecodePods w file = Ok sps"
    and "NewSchedulerServer w \<lparr>srv_SchedulerName = ''TD-Scheduler'',
        srv_AlgorithmSource = \<lparr>as_Policy = None, as_Provider = Some (AlgorithmProvider opt)\<rparr>\<rparr> ''localhost'' = Ok ()"
    and "CreateFromProvider k (AlgorithmProvider opt) = Ok cfg"
    and "assigned pods" "list_all (\<lambda>sp. unassignedNonTerminatedPod (sp_Pod sp)) sps"
  shows "(\<exists>printed. run_command enc k w tw b help opt now printed) \<and>
    (\<forall>printed. run_command enc k w tw b help opt now printed \<longrightarrow>
      (\<exists>outs report. map fst outs = rev (expand_pods (uuid_New w) (opt_Namespace opt) sps 0) \<and>
         length outs = sum_list (map (\<lambda>sp. nat (sp_Num sp)) sps) \<and>
         ClusterCapacityReviewPrint tw (GetReport now (final_status outs pods)) = Ok report \<and> printed = Ok report))"
proof -
  let ?srv = "\<lparr>srv_SchedulerName = ''TD-Scheduler'',
        srv_AlgorithmSource = \<lparr>as_Policy = None, as_Provider = Some (AlgorithmProvider opt)\<rparr>\<rparr>"
  let ?new = "expand_pods (uuid_New w) (opt_Namespace opt) sps 0"
  have inputs: "cmd_inputs w opt = Ok (?srv, pods, ?new, nodes)"
    using assms by (simp add: cmd_inputs_def NewClusterCapacityConfig_def getCheckpoints_def ParseSimulationPod_def Let_def)
  have cfg: "SchedulerConfigLocal k (srv_AlgorithmSource ?srv) = Ok cfg"
    using assms(10) by (simp add: SchedulerConfigLocal_def)
  have una: "list_all unassignedNonTerminatedPod ?new"
    using assms(12) expand_member [of _ "uuid_New w" "opt_Namespace opt" sps 0]
    by (fastforce simp: list_all_iff stamp_unassigned)
  obtain res where "runSimulator enc k ?srv pods ?new nodes now res"
    using runSimulator_exists [OF assms(1) cfg una assms(11)] by blast
  then have some: "\<exists>printed. run_command enc k w tw b help opt now printed"
    using assms(2) inputs by (auto simp: run_command_def cmd_Run_def)
  have "\<exists>outs report. map fst outs = rev ?new \<and> length outs = sum_list (map (\<lambda>sp. nat (sp_Num sp)) sps) \<and>
      ClusterCapacityReviewPrint tw (GetReport now (final_status outs pods)) = Ok report \<and> printed = Ok report"
    if run: "run_command enc k w tw b help opt now printed" for printed
  proof -
    from run obtain res where res: "runSimulator enc k ?srv pods ?new nodes now res"
        and out: "\<And>r s. res = Ok r \<Longrightarrow> ClusterCapacityReviewPrint tw r = Ok s \<Longrightarrow> printed = Ok s"
      using assms(2) inputs by (auto simp: run_command_def cmd_Run_def)
    obtain outs where outs: "map fst outs = rev ?new" "res = Ok (GetReport now (final_status outs pods))"
      using runSimulator_report [OF assms(1) cfg una assms(11) res] by blast
    obtain s where s: "ClusterCapacityReviewPrint tw (GetReport now (final_status outs pods)) = Ok s"
      using print_report_Ok by blast
    have "length outs = length ?new" using arg_cong [OF outs(1), of length] by simp
    then show ?thesis using outs s out by (auto simp: length_expand_pods)
  qed
  with some show ?thesis by blast
qed

theorem command_reports_witness:
  "\<exists>printed. run_command demo_encoder demo_configurator demo_world (\<lambda>_ _. ''table'') False ''usage'' demo_options 0 (Ok printed)"
proof -
  have "Validate False demo_options = Ok ()" by (simp add: Validate_def demo_options_def)
  moreover have "unassignedNonTerminatedPod empty_pod" by (simp add: unassignedNonTerminatedPod_def empty_pod_def)
  ultimately show ?thesis
    using command_reports [OF demo_encoder_total, of False demo_options demo_world "()" "()" "[]" "[demo_node ''n'']" "()"
        "[\<lparr>sp_Name = ''web'', sp_Pod = empty_pod, sp_Num = 2\<rparr>]" demo_configurator "()" "\<lambda>_ _. ''table''" "''usage''" 0]
      no_pods_assigned
    by (fastforce simp: demo_world_def demo_configurator_def)
qed

section \<open>The REST client and the store\<close>

text \<open>
  C23: a watch of a resource type, opened on a store with the simulator's handlers, stays a faithful log
  of the store: after any sequence of adds, updates and deletes the bytes of its buffer are the
  renderings of events which, applied to an empty cache, give exactly the store's contents.
\<close>

theorem watch_mirrors_store:
  assumes "enc_total enc f" "rs_inv s" "r \<in> set watched_types"
    and "map_of (eventHandler s) r = Some (sim_handler enc r)" "map_of (watcherReadGetters e) r = Some []"
    and "list_all (\<lambda>op. has_type r (op_obj op)) ops"
  shows "\<exists>e1 i. createWatchReadCloser enc r Everything s e = (e1, Ok i) \<and>
    snd (run_ops r ops (s, e1)) = Ok () \<and>
    (\<exists>evs. wb_buf (we_bufs (snd (fst (run_ops r ops (s, e1)))) ! i) = events_text f evs \<and>
       map_of (fold apply_event evs []) = rs_lookup (fst (fst (run_ops r ops (s, e1)))) r)"
proof -
  obtain e1 where e1: "createWatchReadCloser enc r Everything s e = (e1, Ok (length (we_bufs e)))"
      "watched_store enc f r (length (we_bufs e)) [] (s, e1)"
    using watch_starts_mirror [OF assms(1-5)] by blast
  from run_ops_watched [OF assms(1) e1(2) assms(6)] e1(1) show ?thesis
    by (auto simp: watched_store_def mirrors_def)
qed

theorem watch_mirrors_store_witness:
  "\<exists>e1 i. createWatchReadCloser demo_encoder Pods Everything (register_handlers demo_encoder NewResourceStore)
       \<lparr>watcherReadGetters = [(Pods, [])], we_bufs = []\<rparr> = (e1, Ok i)"
proof -
  let ?s = "register_handlers demo_encoder NewResourceStore"
  have "rs_inv ?s"
    using rs_inv_new unfolding rs_inv_def rs_wf_def rs_typed_def register_handlers_simps by blast
  moreover have "map_of (eventHandler ?s) Pods = Some (sim_handler demo_encoder Pods)"
    unfolding register_handlers_def fold_register(1) Resources_New by simp
  ultimately show ?thesis
    using watch_mirrors_store [OF demo_encoder_total, of ?s Pods "\<lparr>watcherReadGetters = [(Pods, [])], we_bufs = []\<rparr>" "[SAdd (PodO empty_pod)]"]
    by (auto simp: watched_types_def has_type_def)
qed

text \<open>
  C31: an object added to the store is served: a request for it by namespace and name is answered with
  status 200 and its encoding.
\<close>

theorem stored_object_served:
  assumes "rc_Err c = None" "enc_total enc f" "good_state I st" "rs_inv (fst st)"
    and "r \<in> set watched_types" "has_type r x" "obj_meta x = Some m" "item_namespace x = om_Namespace m"
    and "segment (om_Namespace m)" "segment (om_Name m)"
  shows "snd (rc_Do enc (GET [''namespaces'', om_Namespace m, r, om_Name m]) (fst (fst (rs_Add r x st))) (c, e)) =
    Ok (ok_response (BytesBody (f (ROSingle x))))"
proof -
  have known: "r \<in> set (Resources (fst st))" using assms(4,5) by (auto simp: rs_inv_def watched_types_def)
  have key: "obj_key x = Some (ns_key (om_Namespace m) (om_Name m))"
    using obj_key_meta [OF assms(7)] assms(9) by (simp add: ns_key_def segment_def)
  have typed: "rs_typed (fst (fst (rs_Add r x st)))"
    using rs_inv_step [OF rs_step.step_Add [OF assms(6)] assms(4)] by (simp add: rs_inv_def)
  from rsa.write_ok [OF assms(3) known _ key] assms(6)
  have "r \<in> set (Resources (fst (fst (rs_Add r x st))))"
    "rs_lookup (fst (fst (rs_Add r x st))) r (ns_key (om_Namespace m) (om_Name m)) = Some x"
    using known by auto
  from Do_get [OF assms(1,2) typed assms(5) this(1) assms(9,10) this(2) assms(8)] show ?thesis .
qed

theorem stored_object_served_witness:
  "snd (rc_Do demo_encoder (GET [''namespaces'', ''prod'', Pods, ''a'']) (fst (fst (rs_Add Pods (PodO (demo_pod ''a'')) (NewResourceStore, ()))))
     (NewRESTClient ''core'' [Pods])) = Ok (ok_response (BytesBody ''{}''))"
proof -
  have "good_state (\<lambda>_. True) (NewResourceStore, ())"
    using rs_inv_new by (auto simp: good_state_def rs_inv_def handlers_safe_def NewResourceStore_def)
  then show ?thesis
    using stored_object_served [of "fst (NewRESTClient ''core'' [Pods])" demo_encoder "\<lambda>_. ''{}''" "\<lambda>_. True" "(NewResourceStore, ())" Pods
        "PodO (demo_pod ''a'')" "empty_meta\<lparr>om_Name := ''a'', om_Namespace := ''prod'', om_UID := ''a''\<rparr>" "snd (NewRESTClient ''core'' [Pods])"]
      rs_inv_new demo_encoder_total
    by (simp add: NewRESTClient_def watched_types_def has_type_def demo_pod_def empty_pod_def empty_meta_def segment_def item_namespace_def)
qed

section \<open>Where a simulation goes wrong\<close>

text \<open>
  C39: a simulated pod that names a node or is terminated never enters the scheduling queue: when it is
  served first, \<open>Run\<close> waits for ever in a state in which nothing can step.
\<close>

theorem assigned_pod_never_returns:
  assumes "enc_total enc f" "SchedulerConfigLocal k (srv_AlgorithmSource srv) = Ok cfg"
    and "assigned pods" "sim_New enc k srv (ps @ [p]) pods nodes = Ok (c, lb, cfg')" "\<not> unassignedNonTerminatedPod p"
  shows "\<exists>s. sim_step (srv_SchedulerName srv) (sim_initial c) s \<and> sim_stuck (srv_SchedulerName srv) s"
proof -
  have "sim_inv (srv_SchedulerName srv) (ps @ [p]) pods (cc_objects c) (sim_initial c)" "cc_drains c = []"
    using sim_New_Ok [OF assms(1,2), of "ps @ [p]" pods nodes] assms(3,4) by auto
  from assigned_pod_hangs [OF this assms(5)] show ?thesis .
qed

theorem assigned_pod_never_returns_witness:
  "\<exists>c s. sim_New demo_encoder demo_configurator demo_server [(demo_pod ''a'')\<lparr>pod_NodeName := ''n''\<rparr>] [] [] =
       Ok (c, \<lparr>lb_SchedulerName = ''TD-Scheduler''\<rparr>, ()) \<and> sim_stuck ''TD-Scheduler'' s"
proof -
  let ?p = "(demo_pod ''a'')\<lparr>pod_NodeName := ''n''\<rparr>"
  have "\<not> unassignedNonTerminatedPod ?p" by (simp add: unassignedNonTerminatedPod_def)
  moreover obtain c where c: "sim_New demo_encoder demo_configurator demo_server ([] @ [?p]) [] [] =
      Ok (c, \<lparr>lb_SchedulerName = srv_SchedulerName demo_server\<rparr>, ())"
    using sim_New_Ok [OF demo_encoder_total demo_config, of "[?p]" "[]" "[]"] by auto
  ultimately show ?thesis
    using assigned_pod_never_returns [OF demo_encoder_total demo_config no_pods_assigned c] c by (auto simp: demo_server_def)
qed

text \<open>
  C40: a pod that fails with an error other than a fit error, such as the absence of any node, is put
  back into the queue by the scheduler's default error function.  With three simulated pods there is a run
  of \<open>Run\<close>, the goroutines and the scheduler's loop in which all decisions fail that way, the first pod is
  decided a second time before the third is decided at all, its second failure finds the pods used up and
  closes everything, \<open>Run\<close> returns and the loop ends: the first pod is reported as failed twice and the
  third neither as failed nor as successful.
\<close>

theorem nonfit_error_counted_twice:
  assumes "enc_total enc f" "SchedulerConfigLocal k (srv_AlgorithmSource srv) = Ok cfg"
    and "assigned pods" "sim_New enc k srv [r, q, p] pods nodes = Ok (c, lb, cfg')"
    and "list_all unassignedNonTerminatedPod [p, q, r]" "distinct (map pod_key [p, q, r])"
  shows "\<exists>s. (loop_step (srv_SchedulerName srv))\<^sup>*\<^sup>* (sim_initial c, LoopOff) (s, LoopEnded) \<and>
    ss_pc s = Returned \<and> ss_tasks s = [] \<and>
    FailedPods (cc_status (ss_cc s)) = [failed_pod p msg, failed_pod q msg, failed_pod p msg] \<and>
    SuccessfulPods (cc_status (ss_cc s)) = []"
proof -
  have "sim_inv (srv_SchedulerName srv) [r, q, p] pods (cc_objects c) (sim_initial c)" "cc_drains c = []"
    "cc_stopEverything c = [(srv_SchedulerName srv, False)]"
    using sim_New_Ok [OF assms(1,2), of "[r, q, p]" pods nodes] assms(3,4) by auto
  from fails_twice [OF this assms(5,6)] show ?thesis .
qed

theorem nonfit_error_counted_twice_witness:
  "\<exists>c s. sim_New demo_encoder demo_configurator demo_server [demo_pod ''c'', demo_pod ''b'', demo_pod ''a''] [] [] =
       Ok (c, \<lparr>lb_SchedulerName = ''TD-Scheduler''\<rparr>, ()) \<and>
     (loop_step ''TD-Scheduler'')\<^sup>*\<^sup>* (sim_initial c, LoopOff) (s, LoopEnded) \<and>
     map pod_name (FailedPods (cc_status (ss_cc s))) = [''a'', ''b'', ''a''] \<and> SuccessfulPods (cc_status (ss_cc s)) = []"
proof -
  let ?pods = "[demo_pod ''c'', demo_pod ''b'', demo_pod ''a'']"
  let ?m = "''no nodes available to schedule pods''"
  obtain c where c: "sim_New demo_encoder demo_configurator demo_server ?pods [] [] =
      Ok (c, \<lparr>lb_SchedulerName = ''TD-Scheduler''\<rparr>, ())" using demo_New by blast
  have "list_all unassignedNonTerminatedPod [demo_pod ''a'', demo_pod ''b'', demo_pod ''c'']"
    by (simp add: demo_pod_unassigned)
  moreover have "distinct (map pod_key [demo_pod ''a'', demo_pod ''b'', demo_pod ''c''])"
    by (simp add: pod_key_def demo_pod_def empty_pod_def empty_meta_def)
  ultimately obtain s where s: "(loop_step (srv_SchedulerName demo_server))\<^sup>*\<^sup>* (sim_initial c, LoopOff) (s, LoopEnded)"
      "FailedPods (cc_status (ss_cc s)) = [failed_pod (demo_pod ''a'') ?m, failed_pod (demo_pod ''b'') ?m, failed_pod (demo_pod ''a'') ?m]"
      "SuccessfulPods (cc_status (ss_cc s)) = []"
    using nonfit_error_counted_twice [OF demo_encoder_total demo_config no_pods_assigned c, of ?m] by blast
  have "pod_name (failed_pod (demo_pod x) ?m) = x" for x
    by (simp add: pod_name_def failed_pod_def demo_pod_def empty_pod_def empty_meta_def)
  with c s show ?thesis by (intro exI [of _ c] exI [of _ s]) (simp add: demo_server_def)
qed

end
